(* ===== verification/Prelude.thy ===== *)
theory Prelude
  imports Main "HOL-Library.Word"
begin

text \<open>
  Shared vocabulary of the development: the faults a C++ operation can run into, results
  that are a fault or a value, 32-bit signed and unsigned integers with the wrap-around
  written out, bounds-checked reads of arrays and of NUL-terminated strings, and the
  collections of rewrite rules the component theories use.

  The modelled build is the 32-bit Windows one of the repository: \<open>int\<close>, \<open>long\<close> and
  pointers have 32 bits, \<open>char\<close> has 8 bits and is signed.
\<close>

named_theorems c_simps \<open>rewrite rules for machine integers and results\<close>
named_theorems rd_simps \<open>rewrite rules for checked reads\<close>

section \<open>Faults and results\<close>

text \<open>
  What the source does outside the language's defined behaviour is a value of the model:
  a read or write outside an object, the use of a null pointer, of a freed object or of a
  variable that was never initialised, and a loop that never ends.
\<close>

datatype fault = OutOfBounds | NullDeref | UseAfterFree | Uninit | Hang | DivByZero

type_synonym 'a res = "fault + 'a"

definition rbind :: "'a res \<Rightarrow> ('a \<Rightarrow> 'b res) \<Rightarrow> 'b res" where
  "rbind r f = (case r of Inl e \<Rightarrow> Inl e | Inr x \<Rightarrow> f x)"

lemma rbind_Inl [simp, c_simps]: "rbind (Inl e) f = Inl e"
  by (simp add: rbind_def)

lemma rbind_Inr [simp, c_simps]: "rbind (Inr x) f = f x"
  by (simp add: rbind_def)

lemma rbind_cong [fundef_cong]:
  "r = r' \<Longrightarrow> (\<And>x. r' = Inr x \<Longrightarrow> f x = g x) \<Longrightarrow> rbind r f = rbind r' g"
  by (cases r') (auto simp: rbind_def)

lemma rbind_eq_Inr: "rbind r f = Inr y \<longleftrightarrow> (\<exists>x. r = Inr x \<and> f x = Inr y)"
  by (cases r) auto

lemma rbind_eq_Inl: "rbind r f = Inl e \<longleftrightarrow> r = Inl e \<or> (\<exists>x. r = Inr x \<and> f x = Inl e)"
  by (cases r) auto

lemma rbind_assoc: "rbind (rbind r f) g = rbind r (\<lambda>x. rbind (f x) g)"
  by (cases r) auto

section \<open>Machine integers\<close>

text \<open>
  \<open>i32\<close> reduces a value to the range of \<open>int\<close>, \<open>u32\<close> to the range of \<open>u_int\<close>: the
  result of an operation of that width is the exact result, reduced.
\<close>

definition i32 :: "int \<Rightarrow> int" where
  "i32 x = (x + 2147483648) mod 4294967296 - 2147483648"

definition u32 :: "int \<Rightarrow> int" where
  "u32 x = x mod 4294967296"

lemma i32_id [c_simps]: "- 2147483648 \<le> x \<Longrightarrow> x < 2147483648 \<Longrightarrow> i32 x = x"
  by (simp add: i32_def)

lemma i32_bounds: "- 2147483648 \<le> i32 x \<and> i32 x < 2147483648"
  by (simp add: i32_def)

lemma i32_idem [simp]: "i32 (i32 x) = i32 x"
  by (rule i32_id) (simp_all add: i32_bounds)

lemma u32_id [c_simps]: "0 \<le> x \<Longrightarrow> x < 4294967296 \<Longrightarrow> u32 x = x"
  by (simp add: u32_def)

lemma u32_bounds: "0 \<le> u32 x \<and> u32 x < 4294967296"
  by (simp add: u32_def)

lemma u32_idem [simp]: "u32 (u32 x) = u32 x"
  by (simp add: u32_def)

lemma i32_u32 [simp]: "i32 (u32 x) = i32 x"
proof -
  have "(x mod 4294967296 + 2147483648) mod 4294967296 = (x + 2147483648) mod 4294967296"
    by presburger
  then show ?thesis by (simp add: i32_def u32_def)
qed

text \<open>Arithmetic of 32 bits: reducing once is enough.\<close>

lemma i32_mod: "i32 a mod 4294967296 = a mod 4294967296"
  by (simp add: i32_def mod_simps)

lemma i32_cong: "i32 a = i32 b \<longleftrightarrow> a mod 4294967296 = b mod 4294967296"
proof
  assume "i32 a = i32 b"
  then show "a mod 4294967296 = b mod 4294967296" using i32_mod [of a] i32_mod [of b] by simp
next
  assume "a mod 4294967296 = b mod 4294967296"
  then show "i32 a = i32 b" by (simp add: i32_def mod_add_cong)
qed

lemma i32_inside:
  "i32 (i32 a + b) = i32 (a + b)" "i32 (a + i32 b) = i32 (a + b)" "i32 (i32 a - b) = i32 (a - b)" "i32 (a - i32 b) = i32 (a - b)"
  unfolding i32_cong by (metis i32_mod mod_add_left_eq, metis i32_mod mod_add_right_eq, metis i32_mod mod_diff_left_eq, metis i32_mod mod_diff_right_eq)

lemma i32_amid: "i32 (a + i32 b - c) = i32 (a + b - c)" "i32 (i32 a + b - c) = i32 (a + b - c)"
proof -
  have "i32 (a + i32 b - c) = i32 (a - c + i32 b)" "i32 (i32 a + b - c) = i32 (b - c + i32 a)" by (simp_all add: algebra_simps)
  then show "i32 (a + i32 b - c) = i32 (a + b - c)" "i32 (i32 a + b - c) = i32 (a + b - c)"
    unfolding i32_inside by (simp_all add: algebra_simps)
qed

text \<open>The C division and remainder truncate towards zero.\<close>

definition c_div :: "int \<Rightarrow> int \<Rightarrow> int" where
  "c_div a b = sgn a * sgn b * (\<bar>a\<bar> div \<bar>b\<bar>)"

definition c_mod :: "int \<Rightarrow> int \<Rightarrow> int" where
  "c_mod a b = a - c_div a b * b"

lemma c_div_nonneg [c_simps]: "0 \<le> a \<Longrightarrow> 0 < b \<Longrightarrow> c_div a b = a div b"
  by (cases "a = 0") (simp_all add: c_div_def)

lemma c_mod_nonneg [c_simps]: "0 \<le> a \<Longrightarrow> 0 < b \<Longrightarrow> c_mod a b = a mod b"
  by (simp add: c_mod_def c_div_nonneg minus_div_mult_eq_mod)

text \<open>Words below half their range read the same signed and unsigned.\<close>

lemma sint_small:
  assumes "unat (w :: 32 word) < 2147483648"
  shows "sint w = int (unat w)"
proof -
  have e: "uint w = int (unat w)" by simp
  have "int (unat w) < 2147483648" using assms by linarith
  then have l: "uint w < 2147483648" by (simp only: e)
  have "signed_take_bit 31 (uint w) = uint w"
    by (rule signed_take_bit_int_eq_self) (use l in \<open>simp_all add: order_trans [OF _ uint_ge_0]\<close>)
  then have "sint w = uint w" by (simp add: sint_uint)
  then show ?thesis using e by (rule trans)
qed

lemma ucast_of_nat8: "n < 256 \<Longrightarrow> (ucast (of_nat n :: 8 word) :: 32 word) = of_nat n"
  by (simp add: unsigned_of_nat take_bit_nat_eq_self)

section \<open>Checked reads\<close>

text \<open>
  \<open>rd_arr xs i\<close> reads element \<open>i\<close> of an array; \<open>rd s i\<close> reads character \<open>i\<close> of the
  string \<open>s\<close>, whose terminating NUL is the last character that may be read.
\<close>

definition rd_arr :: "'a list \<Rightarrow> nat \<Rightarrow> 'a res" where
  "rd_arr xs i = (if i < length xs then Inr (xs ! i) else Inl OutOfBounds)"

definition wr_arr :: "'a list \<Rightarrow> nat \<Rightarrow> 'a \<Rightarrow> 'a list res" where
  "wr_arr xs i x = (if i < length xs then Inr (xs[i := x]) else Inl OutOfBounds)"

abbreviation NUL :: char where
  "NUL \<equiv> CHR 0x00"

definition rd :: "string \<Rightarrow> nat \<Rightarrow> char res" where
  "rd s i = (if i < length s then Inr (s ! i)
             else if i = length s then Inr NUL else Inl OutOfBounds)"

lemma rd_arr_in [simp, rd_simps]: "i < length xs \<Longrightarrow> rd_arr xs i = Inr (xs ! i)"
  by (simp add: rd_arr_def)

lemma rd_arr_out [simp, rd_simps]: "length xs \<le> i \<Longrightarrow> rd_arr xs i = Inl OutOfBounds"
  by (simp add: rd_arr_def)

lemma wr_arr_in [simp, rd_simps]: "i < length xs \<Longrightarrow> wr_arr xs i x = Inr (xs[i := x])"
  by (simp add: wr_arr_def)

lemma wr_arr_out [simp, rd_simps]: "length xs \<le> i \<Longrightarrow> wr_arr xs i x = Inl OutOfBounds"
  by (simp add: wr_arr_def)

lemma rd_in [simp, rd_simps]: "i < length s \<Longrightarrow> rd s i = Inr (s ! i)"
  by (simp add: rd_def)

lemma rd_end [simp, rd_simps]: "rd s (length s) = Inr NUL"
  by (simp add: rd_def)

lemma rd_out [simp, rd_simps]: "length s < i \<Longrightarrow> rd s i = Inl OutOfBounds"
  by (simp add: rd_def)

lemma rd_le: "i \<le> length s \<Longrightarrow> \<exists>c. rd s i = Inr c"
  by (cases "i = length s") auto

lemma rd_Inr_le: "rd s i = Inr c \<Longrightarrow> i \<le> length s"
  by (auto simp: rd_def split: if_splits)

lemma rd_append1: "i < length s \<Longrightarrow> rd (s @ t) i = Inr (s ! i)"
  by (simp add: rd_def nth_append)

lemma rd_append2: "rd (s @ t) (length s + i) = rd t i"
  by (auto simp: rd_def nth_append)

lemma rd_append_hd: "rd (s @ c # t) (length s) = Inr c"
  by (simp add: rd_def)

text \<open>A string in memory holds no NUL before its end.\<close>

definition c_string :: "string \<Rightarrow> bool" where
  "c_string s \<longleftrightarrow> NUL \<notin> set s"

lemma c_string_nth: "c_string s \<Longrightarrow> i < length s \<Longrightarrow> s ! i \<noteq> NUL"
  by (metis c_string_def nth_mem)

lemma c_string_append [simp]: "c_string (s @ t) \<longleftrightarrow> c_string s \<and> c_string t"
  by (auto simp: c_string_def)

lemma c_string_Cons [simp]: "c_string (c # s) \<longleftrightarrow> c \<noteq> NUL \<and> c_string s"
  by (auto simp: c_string_def)

lemma c_string_Nil [simp]: "c_string []"
  by (simp add: c_string_def)

section \<open>Lists\<close>

lemma list_update_append_length [simp]: "(xs @ y # ys)[length xs := z] = xs @ z # ys"
  by (rule list_update_length)

lemma take_Suc_drop_nth: "i < length xs \<Longrightarrow> take (Suc n) (drop i xs) = xs ! i # take n (drop (Suc i) xs)"
  by (simp add: Cons_nth_drop_Suc [symmetric])

lemma upt_glue: "i \<le> j \<Longrightarrow> j \<le> k \<Longrightarrow> [i..<j] @ [j..<k] = [i..<k]"
  using upt_add_eq_append [of i j "k - j"] by simp

end
