(* ===== verification/CText.thy ===== *)
theory CText
  imports Prelude
begin

text \<open>
  The C string functions the program uses (\<open>strcmp\<close>, \<open>strchr\<close>, \<open>atoi\<close>, \<open>%d\<close> and
  \<open>%.3f\<close> of \<open>sprintf\<close>) and the string helpers of \<open>src/header/mystring.h\<close>:
  \<open>strneq\<close>, \<open>strpos\<close>, \<open>copy_str\<close> and \<open>int2utf8\<close>. A pointer into a string is an
  index; a string is the list of its characters without the terminating NUL.
\<close>

section \<open>The standard library\<close>

text \<open>\<open>strcmp(a, b) == 0\<close> and \<open>strchr(s, c) != 0\<close> on strings without inner NUL.\<close>

definition strcmp_eq :: "string \<Rightarrow> string \<Rightarrow> bool" where
  "strcmp_eq a b \<longleftrightarrow> a = b"

definition has_char :: "string \<Rightarrow> char \<Rightarrow> bool" where
  "has_char s c \<longleftrightarrow> c \<in> set s"

definition digit :: "char \<Rightarrow> bool" where
  "digit c \<longleftrightarrow> 48 \<le> (of_char c :: nat) \<and> (of_char c :: nat) \<le> 57"

definition digit_val :: "char \<Rightarrow> int" where
  "digit_val c = of_char c - 48"

text \<open>
  \<open>atoi\<close>: white space, an optional sign, then decimal digits; the value saturates at the
  bounds of \<open>int\<close>, as the Microsoft runtime's does.
\<close>

definition is_space :: "char \<Rightarrow> bool" where
  "is_space c \<longleftrightarrow> (of_char c :: nat) \<in> {9, 10, 11, 12, 13, 32}"

fun digits_val :: "int \<Rightarrow> string \<Rightarrow> int" where
  "digits_val acc [] = acc"
| "digits_val acc (c # cs) = (if digit c then digits_val (acc * 10 + digit_val c) cs else acc)"

definition saturate :: "int \<Rightarrow> int" where
  "saturate x = max (- 2147483648) (min 2147483647 x)"

definition atoi :: "string \<Rightarrow> int" where
  "atoi s = (case dropWhile is_space s of
       [] \<Rightarrow> 0
     | c # cs \<Rightarrow> if c = CHR ''-'' then saturate (- digits_val 0 cs)
                 else if c = CHR ''+'' then saturate (digits_val 0 cs)
                 else saturate (digits_val 0 (c # cs)))"

text \<open>\<open>%u\<close> and \<open>%d\<close> of \<open>sprintf\<close>.\<close>

definition digit_char :: "nat \<Rightarrow> char" where
  "digit_char d = char_of (48 + d)"

fun dec_nat :: "nat \<Rightarrow> string" where
  "dec_nat n = (if n < 10 then [digit_char n] else dec_nat (n div 10) @ [digit_char (n mod 10)])"

declare dec_nat.simps [simp del]

definition dec_int :: "int \<Rightarrow> string" where
  "dec_int n = (if n < 0 then CHR ''-'' # dec_nat (nat (- n)) else dec_nat (nat n))"

lemma of_char_digit_char: "d < 10 \<Longrightarrow> (of_char (digit_char d) :: nat) = 48 + d"
  by (simp add: digit_char_def)

lemma of_char_int_nat: "(of_char c :: int) = int (of_char c)"
  by (simp add: of_char_def)

lemma digit_digit_char [simp]: "d < 10 \<Longrightarrow> digit (digit_char d)"
  by (simp add: digit_def of_char_digit_char)

lemma digit_val_digit_char [simp]: "d < 10 \<Longrightarrow> digit_val (digit_char d) = int d"
  by (simp add: digit_val_def of_char_int_nat of_char_digit_char)

lemma dec_nat_digits: "list_all digit (dec_nat n)"
proof (induction n rule: dec_nat.induct)
  case (1 n)
  then show ?case
    by (cases "n < 10") (simp_all add: dec_nat.simps [of n])
qed

lemma dec_nat_ne: "dec_nat n \<noteq> []"
  by (simp add: dec_nat.simps [of n])

lemma digits_val_append: "list_all digit xs \<Longrightarrow>
  digits_val acc (xs @ ys) = digits_val (digits_val acc xs) ys"
  by (induction xs arbitrary: acc) auto

lemma digits_val_stop: "list_all digit xs \<Longrightarrow> ys = [] \<or> \<not> digit (hd ys) \<Longrightarrow>
  digits_val acc (xs @ ys) = digits_val acc xs"
  by (simp add: digits_val_append) (cases ys, auto)

lemma digits_val_dec_nat: "digits_val 0 (dec_nat n) = int n"
proof (induction n rule: dec_nat.induct)
  case (1 n)
  show ?case
  proof (cases "n < 10")
    case True
    then show ?thesis by (simp add: dec_nat.simps [of n])
  next
    case False
    with 1 have "digits_val 0 (dec_nat (n div 10)) = int (n div 10)" by simp
    with False show ?thesis
      by (simp add: dec_nat.simps [of n] digits_val_append dec_nat_digits zdiv_int zmod_int)
  qed
qed

lemma digit_not_special: "digit c \<Longrightarrow> \<not> is_space c \<and> c \<noteq> CHR ''-'' \<and> c \<noteq> CHR ''+''"
  by (auto simp: digit_def is_space_def)

lemma atoi_digits:
  assumes "list_all digit xs" and "xs \<noteq> []"
  shows "atoi (xs @ ys) = saturate (digits_val 0 (xs @ ys))"
proof -
  from assms obtain c cs where xs: "xs = c # cs" and "digit c" by (cases xs) auto
  then show ?thesis using digit_not_special [of c]
    by (simp add: atoi_def)
qed

lemma atoi_neg_digits:
  "atoi (CHR ''-'' # xs) = saturate (- digits_val 0 xs)"
  by (simp add: atoi_def is_space_def)

lemma saturate_id: "- 2147483648 \<le> x \<Longrightarrow> x \<le> 2147483647 \<Longrightarrow> saturate x = x"
  by (simp add: saturate_def)

text \<open>Printing with \<open>%d\<close> and reading with \<open>atoi\<close> is the identity on \<open>int\<close>.\<close>

lemma atoi_dec_int:
  assumes "- 2147483648 \<le> n" and "n \<le> 2147483647"
  shows "atoi (dec_int n) = n"
proof (cases "n < 0")
  case True
  with assms show ?thesis
    by (simp add: dec_int_def atoi_neg_digits digits_val_dec_nat saturate_id)
next
  case False
  have "atoi (dec_nat (nat n) @ []) = saturate (digits_val 0 (dec_nat (nat n) @ []))"
    by (rule atoi_digits) (simp_all add: dec_nat_digits dec_nat_ne)
  with False assms show ?thesis
    by (simp add: dec_int_def digits_val_dec_nat saturate_id)
qed

lemma atoi_bounds: "- 2147483648 \<le> atoi s \<and> atoi s \<le> 2147483647"
  by (simp add: atoi_def saturate_def split: list.splits)

section \<open>strneq and strpos\<close>

text \<open>
  \<open>strneq(str_1, str_2, len)\<close> compares exactly \<open>len\<close> characters and does not stop at a
  NUL: it may read past the end of both strings when they agree up to there.
\<close>

fun strneq :: "string \<Rightarrow> nat \<Rightarrow> string \<Rightarrow> nat \<Rightarrow> nat \<Rightarrow> bool res" where
  "strneq s1 i s2 j 0 = Inr True"
| "strneq s1 i s2 j (Suc n) =
     rbind (rd s1 i) (\<lambda>a. rbind (rd s2 j) (\<lambda>b.
       if a \<noteq> b then Inr False else strneq s1 (Suc i) s2 (Suc j) n))"

lemma strneq_take:
  "i + n \<le> length s1 \<Longrightarrow> j + n \<le> length s2 \<Longrightarrow>
   strneq s1 i s2 j n = Inr (take n (drop i s1) = take n (drop j s2))"
  by (induction n arbitrary: i j) (auto simp: take_Suc_drop_nth)

text \<open>
  When the second operand holds no NUL the comparison stops at the end of the first: this
  is how \<open>strpos\<close> uses it.
\<close>

lemma strneq_prefix:
  assumes "c_string t"
  shows "i \<le> length s \<Longrightarrow> j + n = length t \<Longrightarrow>
    strneq s i t j n = Inr (take n (drop i s) = drop j t)"
proof (induction n arbitrary: i j)
  case 0
  then show ?case by simp
next
  case (Suc n)
  show ?case
  proof (cases "i = length s")
    case True
    from Suc.prems have "t ! j \<noteq> NUL" by (simp add: c_string_nth [OF assms])
    moreover from Suc.prems have "drop j t \<noteq> []" by simp
    ultimately show ?thesis using True Suc.prems by simp
  next
    case False
    with Suc.prems have "i < length s" by simp
    then show ?thesis
      using Suc.prems Suc.IH [of "Suc i" "Suc j"]
      by (auto simp: take_Suc_drop_nth Cons_nth_drop_Suc [symmetric])
  qed
qed

text \<open>
  \<open>strpos(text, need, start, end)\<close>: the first position of \<open>need\<close> in \<open>text\<close> from \<open>start\<close>
  on; an \<open>end\<close> other than 0 is the last position that may belong to the match. Positions are
  relative to \<open>text\<close>; the source adds the address of \<open>text\<close> to both sides of the
  comparison. The result is -1 when there is none. \<open>n\<close> is what is left of \<open>text\<close>.
\<close>

fun strpos_loop :: "string \<Rightarrow> string \<Rightarrow> nat \<Rightarrow> nat \<Rightarrow> nat \<Rightarrow> int res" where
  "strpos_loop hay need end' ptr 0 =
     rbind (rd hay ptr) (\<lambda>c. if c = NUL then Inr (- 1) else Inl OutOfBounds)"
| "strpos_loop hay need end' ptr (Suc n) =
     rbind (rd hay ptr) (\<lambda>c.
       if c = NUL then Inr (- 1)
       else if end' > 0 \<and> ptr + length need > end' then Inr (- 1)
       else rbind (strneq hay ptr need 0 (length need)) (\<lambda>eq.
         if eq then Inr (int ptr) else strpos_loop hay need end' (Suc ptr) n))"

definition strpos :: "string \<Rightarrow> string \<Rightarrow> nat \<Rightarrow> nat \<Rightarrow> int res" where
  "strpos hay need start end' =
     strpos_loop hay need (if end' > 0 then end' + 1 else 0) start (length hay - start)"

text \<open>The reference: the least admissible position where \<open>need\<close> occurs.\<close>

definition occurs_at :: "string \<Rightarrow> string \<Rightarrow> nat \<Rightarrow> bool" where
  "occurs_at hay need p \<longleftrightarrow> p < length hay \<and> take (length need) (drop p hay) = need"

lemma strpos_loop_spec:
  assumes t: "c_string hay" and n: "c_string need"
  shows "ptr + k = length hay \<Longrightarrow>
    \<exists>r. strpos_loop hay need e ptr k = Inr r \<and>
      (r = - 1 \<and> (\<forall>p. ptr \<le> p \<and> occurs_at hay need p \<longrightarrow> e > 0 \<and> p + length need > e)
       \<or> (\<exists>p. r = int p \<and> ptr \<le> p \<and> occurs_at hay need p \<and> (e = 0 \<or> p + length need \<le> e)
            \<and> (\<forall>q. ptr \<le> q \<and> q < p \<longrightarrow> \<not> occurs_at hay need q)))"
proof (induction k arbitrary: ptr)
  case 0
  then show ?case by (auto simp: occurs_at_def)
next
  case (Suc k)
  from Suc.prems have lt: "ptr < length hay" by simp
  with t have c: "rd hay ptr = Inr (hay ! ptr)" "hay ! ptr \<noteq> NUL"
    by (simp_all add: c_string_nth)
  have eq: "strneq hay ptr need 0 (length need) =
      Inr (take (length need) (drop ptr hay) = need)"
    using strneq_prefix [OF n, of ptr hay 0 "length need"] lt by simp
  show ?case
  proof (cases "e > 0 \<and> ptr + length need > e")
    case True
    then show ?thesis using c by auto
  next
    case False
    show ?thesis
    proof (cases "occurs_at hay need ptr")
      case True
      then show ?thesis using c eq False by (auto simp: occurs_at_def)
    next
      case no: False
      have step: "strpos_loop hay need e ptr (Suc k) = strpos_loop hay need e (Suc ptr) k"
        using c eq False no lt by (auto simp: occurs_at_def)
      have *: "ptr \<le> p \<and> occurs_at hay need p \<longleftrightarrow> Suc ptr \<le> p \<and> occurs_at hay need p" for p
        using no by (metis Suc_leD le_neq_implies_less not_less_eq_eq order_refl Suc_leI)
      from Suc.prems have "Suc ptr + k = length hay" by simp
      from Suc.IH [OF this] obtain r where r: "strpos_loop hay need e (Suc ptr) k = Inr r"
        and d: "r = - 1 \<and> (\<forall>p. Suc ptr \<le> p \<and> occurs_at hay need p \<longrightarrow> e > 0 \<and> p + length need > e)
          \<or> (\<exists>p. r = int p \<and> Suc ptr \<le> p \<and> occurs_at hay need p \<and> (e = 0 \<or> p + length need \<le> e)
              \<and> (\<forall>q. Suc ptr \<le> q \<and> q < p \<longrightarrow> \<not> occurs_at hay need q))"
        by blast
      show ?thesis
      proof (cases "r = - 1")
        case True
        with d have "\<forall>p. Suc ptr \<le> p \<and> occurs_at hay need p \<longrightarrow> e > 0 \<and> p + length need > e"
          by auto
        then show ?thesis using True r step * by auto
      next
        case False
        with d obtain p where p: "r = int p" "Suc ptr \<le> p" "occurs_at hay need p"
            "e = 0 \<or> p + length need \<le> e"
            "\<forall>q. Suc ptr \<le> q \<and> q < p \<longrightarrow> \<not> occurs_at hay need q"
          by auto
        have "\<forall>q. ptr \<le> q \<and> q < p \<longrightarrow> \<not> occurs_at hay need q"
          using p(5) no by (auto simp: Suc_le_eq dest: le_neq_implies_less)
        with p step r show ?thesis by auto
      qed
    qed
  qed
qed

section \<open>copy\_str\<close>

text \<open>
  \<open>copy_str(start, end)\<close> copies the characters between two positions and drops the
  backslash of an escape. A backslash that is the last character moves the write position
  without writing: the byte there is whatever the allocator left, \<open>junk\<close>.
\<close>

fun unescape :: "char \<Rightarrow> string \<Rightarrow> string" where
  "unescape junk [] = []"
| "unescape junk (c # cs) =
     (if c = CHR 0x5C then (case cs of [] \<Rightarrow> [junk] | d # ds \<Rightarrow> d # unescape junk ds)
      else c # unescape junk cs)"

definition copy_str :: "char \<Rightarrow> string \<Rightarrow> nat \<Rightarrow> nat \<Rightarrow> string option" where
  "copy_str junk s start end' =
     (if end' \<le> start then None else Some (unescape junk (take (end' - start) (drop start s))))"

lemma unescape_id: "CHR 0x5C \<notin> set s \<Longrightarrow> unescape junk s = s"
  by (induction s) auto

lemma length_unescape: "length (unescape junk s) \<le> length s"
  by (induction junk s rule: unescape.induct) (auto split: list.splits)

text \<open>An escaper that \<open>copy_str\<close> inverts, for quoting a string in a message.\<close>

fun escape :: "string \<Rightarrow> string" where
  "escape [] = []"
| "escape (c # cs) = (if c = CHR 0x5C \<or> c = CHR 0x27 \<or> c = CHR 0x22 then CHR 0x5C # c # escape cs
                      else c # escape cs)"

lemma unescape_escape: "unescape junk (escape s) = s"
  by (induction s) auto

section \<open>int2utf8\<close>

text \<open>
  \<open>int2utf8\<close> writes the code units held in each number: one byte below 128, else the three
  low bytes, high byte first.
\<close>

type_synonym bytes = "8 word list"

fun int2utf8 :: "32 word list \<Rightarrow> bytes" where
  "int2utf8 [] = []"
| "int2utf8 (n # ns) =
     (if sint n < 128 then [ucast n]
      else [ucast (drop_bit 16 n), ucast (drop_bit 8 n), ucast n]) @ int2utf8 ns"

text \<open>Text as bytes on the wire, and back.\<close>

definition bytes_of :: "string \<Rightarrow> bytes" where
  "bytes_of s = map of_char s"

definition text_of :: "bytes \<Rightarrow> string" where
  "text_of bs = map (\<lambda>b. char_of (unat b)) bs"

lemma unat_of_char: "unat (of_char c :: 8 word) = of_char c"
proof -
  have "unat (of_nat (of_char c) :: 8 word) = of_char c mod 256"
    by (simp add: unat_of_nat)
  then show ?thesis by (simp add: of_nat_of_char)
qed

lemma text_of_bytes_of [simp]: "text_of (bytes_of s) = s"
  by (induction s) (simp_all add: text_of_def bytes_of_def unat_of_char)

lemma length_bytes_of [simp]: "length (bytes_of s) = length s"
  by (simp add: bytes_of_def)

lemma length_int2utf8: "length (int2utf8 ns) \<le> 3 * length ns"
  by (induction ns) auto

text \<open>
  The loops that read decimal digits into an \<open>int\<close> (\<open>Setting::formatLine\<close>, \<open>Task::load\<close>):
  a digit enters the number, another character leaves it.
\<close>

definition digit_step :: "char \<Rightarrow> int \<Rightarrow> int" where
  "digit_step c n = (if digit c then i32 (n * 10 + digit_val c) else n)"

lemma digit_step_digits:
  "list_all digit ds \<Longrightarrow> 0 \<le> n \<Longrightarrow> digits_val n ds < 2147483648 \<Longrightarrow> fold digit_step ds n = digits_val n ds"
proof (induction ds arbitrary: n)
  case Nil
  then show ?case by simp
next
  case (Cons d ds)
  have d: "digit d" "list_all digit ds" using Cons.prems by auto
  have v: "0 \<le> digit_val d" using d by (simp add: digit_def digit_val_def of_char_int_nat)
  have mono: "m \<le> digits_val m es" if "list_all digit es" "0 \<le> m" for m es
    using that
  proof (induction es arbitrary: m)
    case (Cons e es)
    have "0 \<le> digit_val e" using Cons.prems by (simp add: digit_def digit_val_def of_char_int_nat)
    then show ?case using Cons.IH [of "m * 10 + digit_val e"] Cons.prems by simp
  qed simp
  have "digit_step d n = n * 10 + digit_val d"
    using mono [OF d(2), of "n * 10 + digit_val d"] Cons.prems v d by (simp add: digit_step_def i32_id)
  then show ?case using Cons.IH [OF d(2), of "n * 10 + digit_val d"] Cons.prems v d by simp
qed

lemma digit_step_dec:
  assumes "0 \<le> i" "i < 2147483648"
  shows "fold digit_step (dec_int i) 0 = i"
  using digit_step_digits [OF dec_nat_digits, of 0 "nat i"] digits_val_dec_nat [of "nat i"] assms
  by (simp add: dec_int_def)

section \<open>Properties\<close>

text \<open>
  \<open>strpos\<close> with no end bound answers the first occurrence at or after \<open>start\<close>, and -1
  exactly when there is none; it never reads outside the text.
\<close>

theorem strpos_first:
  assumes "c_string hay" "c_string need" "start \<le> length hay"
  shows "\<exists>r. strpos hay need start 0 = Inr r \<and>
     (if \<exists>p \<ge> start. occurs_at hay need p
      then r = int (LEAST p. start \<le> p \<and> occurs_at hay need p) else r = - 1)"
proof -
  obtain r where r: "strpos hay need start 0 = Inr r"
    and c: "r = - 1 \<and> (\<forall>p. start \<le> p \<and> occurs_at hay need p \<longrightarrow> False) \<or>
      (\<exists>p. r = int p \<and> start \<le> p \<and> occurs_at hay need p \<and> (\<forall>q. start \<le> q \<and> q < p \<longrightarrow> \<not> occurs_at hay need q))"
    using strpos_loop_spec [OF assms(1,2), of start "length hay - start" 0] assms(3)
    by (auto simp: strpos_def)
  have "(LEAST p. start \<le> p \<and> occurs_at hay need p) = p"
    if "start \<le> p" "occurs_at hay need p" "\<forall>q. start \<le> q \<and> q < p \<longrightarrow> \<not> occurs_at hay need q" for p
    using that by (intro Least_equality) (auto simp: not_less [symmetric])
  with r c show ?thesis by auto
qed

lemma strpos_first_witness:
  "\<exists>r. strpos ''ababc'' ''abc'' 0 0 = Inr r \<and>
     (if \<exists>p \<ge> 0. occurs_at ''ababc'' ''abc'' p
      then r = int (LEAST p. 0 \<le> p \<and> occurs_at ''ababc'' ''abc'' p) else r = - 1)"
  by (rule strpos_first) simp_all

end
