(* ===== verification/Frames.thy ===== *)
theory Frames
  imports CText
begin

unbundle bit_operations_syntax

text \<open>
  The WebSocket framing of \<open>src/header/mystring.h\<close>: \<open>fmsg\<close> takes a client frame out of the
  receive buffer and unmasks it, \<open>emsg\<close> builds a server frame. Both work on bytes; a
  \<open>char\<close> that takes part in integer arithmetic is sign-extended, as the build's \<open>char\<close> is.
  The reference side is RFC 6455: \<open>client_frame\<close>/\<open>client_frame16\<close> are the frames a client
  sends and \<open>server_frame_of\<close> is what a client reads back.
\<close>

section \<open>fmsg\<close>

text \<open>The integer promotion of a signed \<open>char\<close>.\<close>

definition promote :: "8 word \<Rightarrow> 32 word" where
  "promote b = scast b"

definition payload_len16 :: "8 word \<Rightarrow> 8 word \<Rightarrow> 32 word" where
  "payload_len16 a b = (0x0000ff00 AND promote a) OR (0x000000ff AND promote b)"

definition payload_len64 :: "8 word \<Rightarrow> 8 word \<Rightarrow> 8 word \<Rightarrow> 8 word \<Rightarrow> 32 word" where
  "payload_len64 a b c d = (0xff000000 AND promote a) OR (0x00ff0000 AND promote b)
     OR (0x0000ff00 AND promote c) OR (0x000000ff AND promote d)"

text \<open>The unmasking loop: byte \<open>i\<close> of the payload is exclusive-or'ed with byte \<open>i % 4\<close> of the key.\<close>

fun unmask :: "bytes \<Rightarrow> nat \<Rightarrow> bytes \<Rightarrow> nat \<Rightarrow> nat \<Rightarrow> bytes res" where
  "unmask msg p key i 0 = Inr []"
| "unmask msg p key i (Suc n) =
     rbind (rd_arr msg (p + i)) (\<lambda>b.
     rbind (unmask msg p key (Suc i) n) (\<lambda>bs. Inr ((b XOR key ! (i mod 4)) # bs)))"

text \<open>
  The two length extensions are tested one after the other, the second on the length the
  first one computed. \<open>_malloc\<close> takes an \<open>int\<close> and answers NULL below 1.
\<close>

definition fmsg_ext16 :: "bytes \<Rightarrow> 32 word \<Rightarrow> nat \<Rightarrow> (32 word \<times> nat) res" where
  "fmsg_ext16 msg len p =
     (if len = 126 then rbind (rd_arr msg p) (\<lambda>a. rbind (rd_arr msg (p + 1)) (\<lambda>b.
        Inr (payload_len16 a b, p + 2)))
      else Inr (len, p))"

definition fmsg_ext64 :: "bytes \<Rightarrow> 32 word \<Rightarrow> nat \<Rightarrow> (32 word \<times> nat) res" where
  "fmsg_ext64 msg len p =
     (if len = 127 then
        rbind (rd_arr msg (p + 4)) (\<lambda>a. rbind (rd_arr msg (p + 5)) (\<lambda>b.
        rbind (rd_arr msg (p + 6)) (\<lambda>c. rbind (rd_arr msg (p + 7)) (\<lambda>d.
        Inr (payload_len64 a b c d, p + 8)))))
      else Inr (len, p))"

definition fmsg_body :: "bytes \<Rightarrow> 32 word \<Rightarrow> nat \<Rightarrow> (int \<times> bytes option) res" where
  "fmsg_body msg len p =
     rbind (rd_arr msg (p + 3)) (\<lambda>_.
       if sint (len + 1) < 1 then Inl NullDeref
       else rbind (unmask msg (p + 4) (take 4 (drop p msg)) 0 (unat len)) (\<lambda>bs.
         Inr (1, Some bs)))"

definition fmsg :: "bytes \<Rightarrow> (int \<times> bytes option) res" where
  "fmsg msg =
     rbind (rd_arr msg 0) (\<lambda>b0.
       if b0 AND 0x0f = 8 then Inr (- 1, None)
       else rbind (rd_arr msg 1) (\<lambda>b1.
         if b1 AND 0x80 = 0 then Inr (- 1, None)
         else if b1 AND 0x7f = 0 then Inr (0, None)
         else rbind (fmsg_ext16 msg (ucast (b1 AND 0x7f)) 2) (\<lambda>(len, p).
           rbind (fmsg_ext64 msg len p) (\<lambda>(len, p). fmsg_body msg len p))))"

section \<open>emsg\<close>

text \<open>
  The block for \<open>len + 12\<close> bytes is taken to exist: the size is an \<open>int\<close>, negative from a text of
  2 GB on, which has no room beside it in a process of 32 bits.
\<close>

definition emsg :: "8 word \<Rightarrow> 8 word \<Rightarrow> bytes \<Rightarrow> bytes" where
  "emsg fin open_code msg =
     (let len = (of_nat (length msg) :: 32 word);
          b0 = (push_bit 7 fin AND 0x80) OR (open_code AND 0x0f)
      in if len < 126 then [b0, ucast len] @ msg
         else if len < 0x10000 then [b0, 126, ucast (drop_bit 8 len AND 0xff), ucast (len AND 0xff)] @ msg
         else [b0, 0])"

text \<open>
  \<open>emsg2\<close> sets its array of rows to NULL and writes through it on both branches: below 127
  bytes to store the first row, above it in the final \<open>memcpy\<close> and terminator.
\<close>

definition emsg2 :: "8 word \<Rightarrow> 8 word \<Rightarrow> bytes \<Rightarrow> 32 word \<Rightarrow> bytes list res" where
  "emsg2 fin open_code msg len =
     (let nmsg = (None :: bytes list option)
      in case nmsg of
           None \<Rightarrow> Inl NullDeref
         | Some rows \<Rightarrow>
             if len \<le> 126 then Inr (rows[0 := (0x80 OR (open_code AND 0x0f)) # msg])
             else Inr (rows[0 := msg]))"

section \<open>The reference framing\<close>

definition mask_with :: "bytes \<Rightarrow> bytes \<Rightarrow> bytes" where
  "mask_with key payload = map (\<lambda>i. payload ! i XOR key ! (i mod 4)) [0..<length payload]"

definition client_frame :: "8 word \<Rightarrow> bytes \<Rightarrow> bytes \<Rightarrow> bytes" where
  "client_frame b0 key payload =
     b0 # (0x80 OR of_nat (length payload)) # key @ mask_with key payload"

definition client_frame16 :: "8 word \<Rightarrow> bytes \<Rightarrow> bytes \<Rightarrow> bytes" where
  "client_frame16 b0 key payload =
     [b0, 0x80 OR 126, of_nat (length payload div 256), of_nat (length payload mod 256)]
       @ key @ mask_with key payload"

definition server_frame_of :: "bytes \<Rightarrow> (bool \<times> 8 word \<times> bytes) option" where
  "server_frame_of bs =
     (case bs of
        b0 # b1 # rest \<Rightarrow>
          if unat b1 < 126 \<and> length rest = unat b1 then Some (bit b0 7, b0 AND 0x0f, rest)
          else if b1 = 126 then
            (case rest of hi # lo # data \<Rightarrow>
               if length data = unat hi * 256 + unat lo then Some (bit b0 7, b0 AND 0x0f, data) else None
             | _ \<Rightarrow> None)
          else None
      | _ \<Rightarrow> None)"

lemma length_mask_with [simp]: "length (mask_with key payload) = length payload"
  by (simp add: mask_with_def)

lemma nth_mask_with: "i < length payload \<Longrightarrow> mask_with key payload ! i = payload ! i XOR key ! (i mod 4)"
  by (simp add: mask_with_def)

section \<open>Facts about the loops\<close>

lemma unmask_spec:
  "p + i + n \<le> length msg \<Longrightarrow>
   unmask msg p key i n = Inr (map (\<lambda>k. msg ! (p + k) XOR key ! (k mod 4)) [i..<i + n])"
  by (induction n arbitrary: i) (simp_all add: upt_conv_Cons del: upt_Suc)

lemma unmask_out:
  "length msg < p + i + n \<Longrightarrow> 0 < n \<Longrightarrow> unmask msg p key i n = Inl OutOfBounds"
proof (induction n arbitrary: i)
  case 0
  then show ?case by simp
next
  case (Suc n)
  then show ?case
    by (cases "p + i < length msg"; cases "n = 0") auto
qed

lemma unmask_mask:
  assumes "n \<le> length payload" and "length key = 4"
  shows "unmask (pre @ key @ mask_with key payload @ rest) (length pre + 4) key 0 n = Inr (take n payload)"
proof -
  let ?m = "pre @ key @ mask_with key payload @ rest"
  have "unmask ?m (length pre + 4) key 0 n =
      Inr (map (\<lambda>k. ?m ! (length pre + 4 + k) XOR key ! (k mod 4)) [0..<n])"
    using unmask_spec [of "length pre + 4" 0 n ?m key] assms by simp
  moreover have "?m ! (length pre + 4 + k) XOR key ! (k mod 4) = payload ! k" if "k < n" for k
  proof -
    have "?m ! (length pre + 4 + k) = mask_with key payload ! k"
      using assms that by (simp add: nth_append)
    then show ?thesis using assms that by (simp add: nth_mask_with ac_simps)
  qed
  then have "map (\<lambda>k. ?m ! (length pre + 4 + k) XOR key ! (k mod 4)) [0..<n] = take n payload"
    using assms by (intro nth_equalityI) auto
  ultimately show ?thesis by simp
qed

lemma masked_len_bits:
  assumes "n < 128"
  shows "(0x80 OR of_nat n) AND (0x80 :: 8 word) \<noteq> 0"
    and "(0x80 OR of_nat n) AND (0x7f :: 8 word) = of_nat n"
proof -
  have m: "(of_nat n :: 8 word) AND 0x7f = of_nat n"
  proof -
    have "(of_nat n :: 8 word) AND 0x7f = of_nat n AND mask 7" by (simp add: mask_eq_exp_minus_1)
    also have "\<dots> = take_bit 7 (of_nat n)" by (simp add: take_bit_eq_mask)
    also have "\<dots> = of_nat (take_bit 7 n)" by (simp add: unsigned_of_nat take_bit_of_nat flip: of_nat_take_bit)
    also have "take_bit 7 n = n" using assms by (simp add: take_bit_nat_eq_self)
    finally show ?thesis .
  qed
  have c: "(0x80 :: 8 word) AND 0x7f = 0" by simp
  have "((0x80 OR of_nat n) AND (0x80 :: 8 word)) = 0x80"
    by (simp add: bit.conj_disj_distrib2)
  then show "(0x80 OR of_nat n) AND (0x80 :: 8 word) \<noteq> 0" by simp
  show "(0x80 OR of_nat n) AND (0x7f :: 8 word) = of_nat n"
    by (simp add: bit.conj_disj_distrib2 m c)
qed

section \<open>Client frames of at most 125 bytes\<close>

lemma fmsg_ext_short: "len \<noteq> 126 \<Longrightarrow> len \<noteq> 127 \<Longrightarrow>
  rbind (fmsg_ext16 msg len p) (\<lambda>(len, p). rbind (fmsg_ext64 msg len p) (\<lambda>(len, p). f len p)) = f len p"
  by (simp add: fmsg_ext16_def fmsg_ext64_def)

lemma fmsg_body_masked:
  assumes "length key = 4" and "length pre = p" and "unat len \<le> length payload" and "unat len < 2 ^ 30"
  shows "fmsg_body (pre @ key @ mask_with key payload @ rest) len p =
    Inr (1, Some (take (unat len) payload))"
proof -
  have "unat (len + 1) = unat len + 1"
    using assms(4) by (simp add: unat_word_ariths)
  then have "sint (len + 1) = int (unat len + 1)"
    using assms(4) by (simp add: sint_small)
  moreover have "take 4 (drop p (pre @ key @ mask_with key payload @ rest)) = key"
    using assms(1,2) by simp
  moreover have "p + 3 < length (pre @ key @ mask_with key payload @ rest)"
    using assms(1,2) by simp
  ultimately show ?thesis
    using unmask_mask [OF assms(3,1), of pre rest] assms(2) by (simp add: fmsg_body_def)
qed

lemma fmsg_client_frame:
  assumes "length key = 4" and "payload \<noteq> []" and "length payload \<le> 125" and "b0 AND 0x0f \<noteq> 8"
  shows "fmsg (client_frame b0 key payload @ rest) = Inr (1, Some payload)"
proof -
  let ?n = "length payload" and ?b1 = "0x80 OR of_nat (length payload) :: 8 word"
  have n: "?n < 128" "?n \<noteq> 0" using assms(2,3) by auto
  note bits = masked_len_bits [OF n(1)]
  have u: "unat (of_nat ?n :: 8 word) = ?n" using n by (simp add: unat_of_nat)
  then have nz: "(of_nat ?n :: 8 word) \<noteq> 0" using n by (metis unat_0)
  have len: "(ucast (of_nat ?n :: 8 word) :: 32 word) = of_nat ?n"
    using n by (simp add: ucast_of_nat8)
  have u32: "unat (of_nat ?n :: 32 word) = ?n" using n by (simp add: unat_of_nat)
  have ne: "(of_nat ?n :: 32 word) \<noteq> 126" "(of_nat ?n :: 32 word) \<noteq> 127"
    using u32 assms(3) by auto
  have body: "fmsg_body ([b0, ?b1] @ key @ mask_with key payload @ rest) (of_nat ?n) 2 = Inr (1, Some payload)"
    using fmsg_body_masked [OF assms(1), of "[b0, ?b1]" 2 "of_nat ?n" payload rest] u32 n by simp
  show ?thesis
    using body bits nz ne assms(4) by (simp add: fmsg_def client_frame_def len fmsg_ext_short)
qed

section \<open>Client frames with a 16-bit length\<close>

lemma payload_len16_eq:
  "payload_len16 a b = (if bit a 7 then 0xff00 else 0) OR ucast b"
proof -
  have m: "(0x0000ff00 :: 32 word) = push_bit 8 (mask 8)" "(0x000000ff :: 32 word) = mask 8"
    by (simp_all add: mask_eq_exp_minus_1)
  have l: "bit c n \<Longrightarrow> n < 8" for c :: "8 word" and n
    using bit_imp_le_length [of c n] by simp
  show ?thesis unfolding m payload_len16_def promote_def
    by (rule bit_word_eqI)
      (auto simp: bit_and_iff bit_or_iff bit_push_bit_iff bit_mask_iff bit_word_scast_iff
        bit_word_ucast_iff dest: l)
qed

lemma not_bit7_of_nat: "n < 128 \<Longrightarrow> \<not> bit (of_nat n :: 8 word) 7"
proof -
  assume n: "n < 128"
  then have "unat (of_nat n :: 8 word) = n" by (simp add: unat_of_nat)
  moreover have "\<not> bit n 7" using n by (simp add: bit_iff_odd)
  moreover have "bit (unat (of_nat n :: 8 word)) 7 = bit (of_nat n :: 8 word) 7"
    by (simp add: bit_unsigned_iff)
  ultimately show ?thesis by simp
qed

text \<open>
  The high byte of a 16-bit length is masked with \<open>0xff00\<close> but never shifted: below 128 it
  contributes nothing, so the decoded length is the low byte alone.
\<close>

lemma payload_len16_low:
  assumes "n < 128" and "m < 256"
  shows "payload_len16 (of_nat n) (of_nat m) = of_nat m"
  using assms by (simp add: payload_len16_eq not_bit7_of_nat ucast_of_nat8)

lemma fmsg_client_frame16:
  assumes "length key = 4" and "length payload < 32768" and "length payload mod 256 \<noteq> 127"
    and "b0 AND 0x0f \<noteq> 8"
  shows "fmsg (client_frame16 b0 key payload @ rest) =
    Inr (1, Some (take (length payload mod 256) payload))"
proof -
  let ?L = "length payload"
  let ?a = "of_nat (?L div 256) :: 8 word" and ?b = "of_nat (?L mod 256) :: 8 word"
  let ?h = "[b0, 0x80 OR 126, ?a, ?b]"
  let ?m = "?h @ key @ mask_with key payload @ rest"
  have hi: "?L div 256 < 128" using assms(2) by simp
  have len: "payload_len16 ?a ?b = of_nat (?L mod 256)"
    by (rule payload_len16_low [OF hi]) simp
  have e16: "fmsg_ext16 ?m 126 2 = Inr (of_nat (?L mod 256), 4)"
    using len by (simp add: fmsg_ext16_def)
  have u: "unat (of_nat (?L mod 256) :: 32 word) = ?L mod 256"
    by (simp add: unat_of_nat)
  have "unat (of_nat (?L mod 256) :: 32 word) \<noteq> unat (127 :: 32 word)"
    unfolding u using assms(3) by simp
  then have "(of_nat (?L mod 256) :: 32 word) \<noteq> 127" by metis
  then have e64: "fmsg_ext64 ?m (of_nat (?L mod 256)) 4 = Inr (of_nat (?L mod 256), 4)"
    by (simp add: fmsg_ext64_def)
  have le: "?L mod 256 \<le> ?L" by simp
  have body: "fmsg_body ?m (of_nat (?L mod 256)) 4 = Inr (1, Some (take (?L mod 256) payload))"
    using fmsg_body_masked [OF assms(1), of ?h 4 "of_nat (?L mod 256)" payload rest]
    by (simp add: u le order_less_trans [of _ 256])
  show ?thesis
    using assms(4) e16 e64 body by (simp add: fmsg_def client_frame16_def)
qed

section \<open>Reads outside the buffer\<close>

lemma fmsg_short_in_bounds:
  assumes "131 \<le> length msg" and "unat (msg ! Suc 0 AND 0x7f) \<le> 125"
  shows "\<exists>r. fmsg msg = Inr r"
proof -
  let ?l = "msg ! Suc 0 AND 0x7f"
  have u: "unat (ucast ?l :: 32 word) = unat ?l"
    by (simp add: unsigned_ucast_eq take_bit_nat_eq_self order_less_trans [OF unsigned_less])
  have ne: "(ucast ?l :: 32 word) \<noteq> 126" "(ucast ?l :: 32 word) \<noteq> 127"
    using u assms(2) by auto
  have "unat ((ucast ?l :: 32 word) + 1) = unat ?l + 1"
    using u assms(2) by (simp add: unat_word_ariths)
  then have "sint ((ucast ?l :: 32 word) + 1) = int (unat ?l + 1)"
    using assms(2) by (simp add: sint_small)
  moreover have "\<exists>bs. unmask msg 6 (take 4 (drop 2 msg)) 0 (unat ?l) = Inr bs"
    using unmask_spec [of 6 0 "unat ?l" msg] assms by simp
  ultimately have "\<exists>r. fmsg_body msg (ucast ?l) 2 = Inr r"
    using assms(1) by (auto simp: fmsg_body_def u)
  then obtain r where "fmsg_body msg (ucast ?l) 2 = Inr r" by blast
  moreover have "rd_arr msg 0 = Inr (msg ! 0)" "rd_arr msg 1 = Inr (msg ! Suc 0)"
    by (rule rd_arr_in, use assms(1) in linarith) (use assms(1) in \<open>simp add: rd_arr_def\<close>)
  ultimately show ?thesis
    using ne by (simp add: fmsg_def fmsg_ext_short)
qed

section \<open>Server frames\<close>

lemma of_nat_less32: "n < 4294967296 \<Longrightarrow> k < 4294967296 \<Longrightarrow>
    ((of_nat n :: 32 word) < of_nat k) = (n < k)"
  by (simp add: word_less_nat_alt unat_of_nat)

lemma emsg_first_bits:
  "bit ((push_bit 7 fin AND 0x80) OR (op AND 0x0f) :: 8 word) 7 = bit fin 0"
  "((push_bit 7 fin AND 0x80) OR (op AND 0x0f) :: 8 word) AND 0x0f = op AND 0x0f"
proof -
  have m: "(0x80 :: 8 word) = push_bit 7 1" "(0x0f :: 8 word) = mask 4"
    by (simp_all add: mask_eq_exp_minus_1)
  show "bit ((push_bit 7 fin AND 0x80) OR (op AND 0x0f) :: 8 word) 7 = bit fin 0"
    unfolding m by (simp add: bit_simps)
  show "((push_bit 7 fin AND 0x80) OR (op AND 0x0f) :: 8 word) AND 0x0f = op AND 0x0f"
    unfolding m by (rule bit_word_eqI) (auto simp: bit_simps)
qed

lemma emsg_short:
  "length msg < 126 \<Longrightarrow> emsg fin op msg =
     ((push_bit 7 fin AND 0x80) OR (op AND 0x0f)) # of_nat (length msg) # msg"
  using of_nat_less32 [of "length msg" 126]
  by (simp add: emsg_def Let_def ucast_of_nat8 unsigned_of_nat take_bit_nat_eq_self)

lemma emsg_medium:
  assumes "126 \<le> length msg" and "length msg < 65536"
  shows "emsg fin op msg =
     ((push_bit 7 fin AND 0x80) OR (op AND 0x0f)) # 126
       # of_nat (length msg div 256) # of_nat (length msg mod 256) # msg"
proof -
  let ?n = "of_nat (length msg) :: 32 word"
  have lt: "\<not> ?n < 126" "?n < 0x10000"
    using of_nat_less32 [of "length msg" 126] of_nat_less32 [of "length msg" 65536] assms
    by simp_all
  have u: "unat ?n = length msg" using assms by (simp add: unat_of_nat)
  have m: "w AND (0xff :: 32 word) = take_bit 8 w" for w
    by (simp add: take_bit_eq_mask mask_eq_exp_minus_1)
  have "unat (drop_bit 8 ?n) = length msg div 256"
    unfolding unsigned_drop_bit_eq u using assms
    by (simp add: take_bit_nat_eq_self drop_bit_eq_div)
  then have "unat (ucast (drop_bit 8 ?n AND 0xff) :: 8 word) = length msg div 256"
    unfolding m using assms
    by (simp add: unsigned_ucast_eq unsigned_take_bit_eq take_bit_nat_eq_self del: drop_bit_eq_div)
  moreover have "unat (take_bit 8 ?n) = length msg mod 256"
    unfolding unsigned_take_bit_eq u by (simp add: take_bit_eq_mod)
  then have "unat (ucast (?n AND 0xff) :: 8 word) = length msg mod 256"
    unfolding m by (simp add: unsigned_ucast_eq take_bit_nat_eq_self)
  moreover have "unat (of_nat (length msg div 256) :: 8 word) = length msg div 256"
    and "unat (of_nat (length msg mod 256) :: 8 word) = length msg mod 256"
    using assms by (simp_all add: unat_of_nat)
  ultimately show ?thesis
    using lt by (simp add: emsg_def Let_def word_unat_eq_iff)
qed

lemma emsg_long:
  assumes "65536 \<le> length msg" and "length msg < 4294967296"
  shows "emsg fin op msg = [(push_bit 7 fin AND 0x80) OR (op AND 0x0f), 0]"
  using of_nat_less32 [of "length msg" 126] of_nat_less32 [of "length msg" 65536] assms
  by (simp add: emsg_def Let_def)

lemma emsg_decodes:
  assumes "length msg < 65536"
  shows "server_frame_of (emsg fin op msg) = Some (bit fin 0, op AND 0x0f, msg)"
proof (cases "length msg < 126")
  case True
  then have "unat (of_nat (length msg) :: 8 word) = length msg" by (simp add: unat_of_nat)
  with True show ?thesis
    by (simp add: emsg_short server_frame_of_def emsg_first_bits)
next
  case False
  then have "unat (of_nat (length msg div 256) :: 8 word) = length msg div 256"
    and "unat (of_nat (length msg mod 256) :: 8 word) = length msg mod 256"
    using assms by (simp_all add: unat_of_nat)
  with False assms show ?thesis
    by (simp add: emsg_medium server_frame_of_def emsg_first_bits)
qed

section \<open>Properties\<close>

text \<open>
  C16: \<open>fmsg\<close> inverts the client's framing for every payload of 1 to 125 bytes: whatever
  the mask key and whatever follows the frame in the receive buffer, the payload comes back
  unmasked with code 1, unless the opcode is 8: a close frame gives code -1 and no message,
  whatever reason it carries.
\<close>

theorem fmsg_unmasks:
  assumes "length key = 4" and "payload \<noteq> []" and "length payload \<le> 125"
  shows "fmsg (client_frame b0 key payload @ rest) =
    (if b0 AND 0x0f = 8 then Inr (- 1, None) else Inr (1, Some payload))"
proof (cases "b0 AND 0x0f = 8")
  case True
  then show ?thesis by (simp add: fmsg_def client_frame_def)
next
  case False
  then show ?thesis using fmsg_client_frame [OF assms False] by simp
qed

lemma fmsg_unmasks_witness:
  "fmsg (client_frame 0x81 [1, 2, 3, 4] [104, 105, 33, 10, 7] @ [9, 9]) = Inr (1, Some [104, 105, 33, 10, 7]) \<and>
   fmsg (client_frame 0x88 [1, 2, 3, 4] [3, 232] @ []) = Inr (- 1, None)"
  using fmsg_unmasks [of "[1, 2, 3, 4]" "[104, 105, 33, 10, 7]" "0x81" "[9, 9]"]
    fmsg_unmasks [of "[1, 2, 3, 4]" "[3, 232]" "0x88" "[]"] by simp

text \<open>
  With the 16-bit length form \<open>fmsg\<close> masks the high byte of the length instead of
  shifting it, so every payload shorter than 32768 bytes comes back cut to its length modulo
  256; a message of 256 bytes comes back empty.
\<close>

theorem fmsg_truncates_16:
  assumes "length key = 4" and "length payload < 32768" and "length payload mod 256 \<noteq> 127"
    and "b0 AND 0x0f \<noteq> 8"
  shows "fmsg (client_frame16 b0 key payload @ rest) =
    Inr (1, Some (take (length payload mod 256) payload))"
  by (rule fmsg_client_frame16 [OF assms])

lemma fmsg_truncates_16_witness:
  "fmsg (client_frame16 0x81 [1, 2, 3, 4] (replicate 300 (65 :: 8 word)) @ []) =
    Inr (1, Some (replicate 44 65))"
  using fmsg_truncates_16 [of "[1, 2, 3, 4]" "replicate 300 65" "129" "[]"] by simp

text \<open>
  C19: the frames the server sends decode to what was put in: FIN flag, opcode and payload,
  for every payload below 65536 bytes; at 65536 and above the frame is the two header bytes
  of an empty message.
\<close>

theorem emsg_roundtrip:
  assumes "length msg < 4294967296"
  shows "server_frame_of (emsg fin op msg) =
    Some (bit fin 0, op AND 0x0f, if length msg < 65536 then msg else [])"
  using assms emsg_decodes [of msg fin op] emsg_long [of msg fin op]
  by (auto simp: server_frame_of_def emsg_first_bits)

lemma emsg_roundtrip_witness:
  "server_frame_of (emsg 1 1 (replicate 300 (65 :: 8 word))) = Some (True, 1, replicate 300 65)"
  using emsg_roundtrip [of "replicate 300 65" 1 1] by (simp add: bit_0)

end
