(* ===== verification/Base64.thy ===== *)
theory Base64
  imports Frames
begin

text \<open>
  \<open>base64_encode\<close> of \<open>src/header/base64.h\<close>, and the RFC 4648 decoder it is checked
  against. The shifts of the source act on sign-extended characters and are cut back to a
  byte, as written here.
\<close>

section \<open>The encoder\<close>

definition base64char :: string where
  "base64char = ''ABCDEFGHIJKLMNOPQRSTUVWXYZabcdefghijklmnopqrstuvwxyz0123456789+/''"

definition shr :: "nat \<Rightarrow> 8 word \<Rightarrow> 8 word" where
  "shr n b = ucast (signed_drop_bit n (promote b))"

definition shl :: "nat \<Rightarrow> 8 word \<Rightarrow> 8 word" where
  "shl n b = ucast (push_bit n (promote b))"

definition sextet_char :: "8 word \<Rightarrow> char" where
  "sextet_char current = base64char ! unat current"

text \<open>The argument is the \<open>binlength\<close> bytes the loop of the source walks over, three at a time.\<close>

fun base64_encode :: "bytes \<Rightarrow> string" where
  "base64_encode [] = []"
| "base64_encode [a] =
     [sextet_char (shr 2 a AND 0x3F),
      sextet_char (shl 4 a AND 0x30), CHR ''='', CHR ''='']"
| "base64_encode [a, b] =
     [sextet_char (shr 2 a AND 0x3F),
      sextet_char ((shl 4 a AND 0x30) OR (shr 4 b AND 0x0F)),
      sextet_char (shl 2 b AND 0x3C), CHR ''='']"
| "base64_encode (a # b # c # rest) =
     [sextet_char (shr 2 a AND 0x3F),
      sextet_char ((shl 4 a AND 0x30) OR (shr 4 b AND 0x0F)),
      sextet_char ((shl 2 b AND 0x3C) OR (shr 6 c AND 0x03)),
      sextet_char (c AND 0x3F)] @ base64_encode rest"

section \<open>The RFC 4648 decoder\<close>

definition char_sextet :: "char \<Rightarrow> 8 word option" where
  "char_sextet c = (let n = (of_char c :: nat) in
     if 65 \<le> n \<and> n \<le> 90 then Some (of_nat (n - 65))
     else if 97 \<le> n \<and> n \<le> 122 then Some (of_nat (n - 71))
     else if 48 \<le> n \<and> n \<le> 57 then Some (of_nat (n + 4))
     else if n = 43 then Some 62
     else if n = 47 then Some 63 else None)"

definition join4 :: "8 word \<Rightarrow> 8 word \<Rightarrow> 8 word \<Rightarrow> 8 word \<Rightarrow> bytes" where
  "join4 p q r s = [push_bit 2 p OR drop_bit 4 q, push_bit 4 q OR drop_bit 2 r, push_bit 6 r OR s]"

fun base64_decode :: "string \<Rightarrow> bytes option" where
  "base64_decode [] = Some []"
| "base64_decode (w # x # y # z # rest) =
     (case (char_sextet w, char_sextet x) of
        (Some p, Some q) \<Rightarrow>
          if y = CHR ''='' \<and> z = CHR ''='' then (if rest = [] then Some (take 1 (join4 p q 0 0)) else None)
          else (case char_sextet y of None \<Rightarrow> None | Some r \<Rightarrow>
            if z = CHR ''='' then (if rest = [] then Some (take 2 (join4 p q r 0)) else None)
            else (case char_sextet z of None \<Rightarrow> None | Some s \<Rightarrow>
              map_option (\<lambda>bs. join4 p q r s @ bs) (base64_decode rest)))
      | _ \<Rightarrow> None)"
| "base64_decode _ = None"

section \<open>Facts\<close>

lemma byte_bit_less: "bit (b :: 8 word) n \<Longrightarrow> n < 8"
  using bit_imp_le_length [of b n] by simp

lemma byte_eqI:
  assumes "\<And>n. n \<in> {0, 1, 2, 3, 4, 5, 6, 7} \<Longrightarrow> bit a n = bit b n"
  shows "a = (b :: 8 word)"
proof (rule bit_word_eqI)
  fix n assume "n < LENGTH(8)"
  then have "n \<in> {0, 1, 2, 3, 4, 5, 6, 7}" by auto
  then show "bit a n = bit b n" by (rule assms)
qed

lemma bit_promote: "bit (promote b) n \<longleftrightarrow> n < 32 \<and> (if n < 8 then bit b n else bit b 7)"
  by (auto simp: promote_def bit_word_scast_iff dest: byte_bit_less)

lemma shr_mask:
  assumes "n + k \<le> 8"
  shows "shr n b AND mask k = drop_bit n b AND mask k"
  unfolding shr_def
  by (rule bit_word_eqI) (use assms in \<open>auto simp: bit_simps bit_promote dest: byte_bit_less\<close>)

lemma shl_eq: "shl n b = push_bit n b"
  unfolding shl_def
  by (rule bit_word_eqI) (auto simp: bit_simps bit_promote dest: byte_bit_less)

lemma masks:
  "(0x3F :: 8 word) = mask 6" "(0x30 :: 8 word) = push_bit 4 (mask 2)"
  "(0x0F :: 8 word) = mask 4" "(0x3C :: 8 word) = push_bit 2 (mask 4)" "(0x03 :: 8 word) = mask 2"
  by (simp_all add: mask_eq_exp_minus_1)

lemma sextets_list:
  "list_all2 (\<lambda>c n. char_sextet c = Some (of_nat n) \<and> c \<noteq> CHR ''='') base64char [0..<64]"
  by (simp add: base64char_def char_sextet_def upt_rec)

lemma sextets_char:
  "n < 64 \<Longrightarrow> char_sextet (base64char ! n) = Some (of_nat n) \<and> base64char ! n \<noteq> CHR ''=''"
  using list_all2_nthD2 [OF sextets_list, of n] by simp

lemma char_sextet_sextet_char:
  assumes "unat s < 64"
  shows "char_sextet (sextet_char s) = Some s" and "sextet_char s \<noteq> CHR ''=''"
  using sextets_char [OF assms] by (simp_all add: sextet_char_def)

lemma less_64_mask: "w AND mask 6 = w \<Longrightarrow> unat (w :: 8 word) < 64"
proof -
  assume "w AND mask 6 = w"
  then have "take_bit 6 w = w" by (simp add: take_bit_eq_mask)
  then have "unat (take_bit 6 w) = unat w" by simp
  then have "take_bit 6 (unat w) = unat w" by (simp only: unsigned_take_bit_eq)
  then show ?thesis using take_bit_nat_less_exp [of 6 "unat w"] by simp
qed

lemma sextets_less:
  "unat (shr 2 a AND 0x3F) < 64"
  "unat (shl 4 a AND 0x30) < 64"
  "unat ((shl 4 a AND 0x30) OR (shr 4 b AND 0x0F)) < 64"
  "unat (shl 2 b AND 0x3C) < 64"
  "unat ((shl 2 b AND 0x3C) OR (shr 6 c AND 0x03)) < 64"
  "unat (c AND (0x3F :: 8 word)) < 64"
  unfolding masks
  by (rule less_64_mask, rule bit_word_eqI, auto simp: bit_simps)+

lemma join4_triple:
  "join4 (shr 2 a AND 0x3F) ((shl 4 a AND 0x30) OR (shr 4 b AND 0x0F))
     ((shl 2 b AND 0x3C) OR (shr 6 c AND 0x03)) (c AND 0x3F) = [a, b, c]"
  unfolding masks
  by (simp add: join4_def shr_mask shl_eq) (intro conjI byte_eqI; auto simp: bit_simps simp flip: numeral_2_eq_2 numeral_3_eq_3)

lemma base64_decode_encode: "base64_decode (base64_encode bs) = Some bs"
proof (induction bs rule: base64_encode.induct)
  case (2 a)
  have "take 1 (join4 (shr 2 a AND 0x3F) (shl 4 a AND 0x30) 0 0) = take 1 [a, 0, 0]"
    using join4_triple [of a 0 0] by (simp add: shr_def shl_eq promote_def join4_def)
  then show ?case by (simp add: char_sextet_sextet_char sextets_less)
next
  case (3 a b)
  have "take 2 (join4 (shr 2 a AND 0x3F) ((shl 4 a AND 0x30) OR (shr 4 b AND 0x0F))
      (shl 2 b AND 0x3C) 0) = take 2 [a, b, 0]"
    using join4_triple [of a b 0] by (simp add: shr_def promote_def join4_def)
  then show ?case by (simp add: char_sextet_sextet_char sextets_less)
next
  case (4 a b c rest)
  then show ?case
    by (simp add: char_sextet_sextet_char sextets_less join4_triple)
qed simp

lemma length_base64_encode: "length (base64_encode bs) = 4 * ((length bs + 2) div 3)"
proof (induction bs rule: base64_encode.induct)
  case (4 a b c rest)
  have "(length rest + 3 + 2) div 3 = Suc ((length rest + 2) div 3)" by simp
  with 4 show ?case by simp
qed simp_all

section \<open>Properties\<close>

text \<open>
  C20: \<open>base64_encode\<close> is the encoding of RFC 4648 on every byte string, bytes above 127
  included (the source shifts signed characters): decoding gives the input back, and the
  output has four characters for every three bytes begun.
\<close>

theorem base64_roundtrip:
  "base64_decode (base64_encode bs) = Some bs \<and> length (base64_encode bs) = 4 * ((length bs + 2) div 3)"
  by (simp add: base64_decode_encode length_base64_encode)

end
