(* ===== verification/Sha1.thy ===== *)
theory Sha1
  imports CText
begin

unbundle bit_operations_syntax

text \<open>
  The SHA-1 of \<open>src/header/sha1.h\<close>: the context record, the byte-by-byte \<open>SHA1Input\<close>, the
  block function with its four loops, the padding on both branches, and \<open>sha1_hash\<close>. The
  reference side is FIPS 180, written apart from it with the library's \<open>word_rotl\<close>: pad the
  whole message, cut it into 64-byte blocks, fold one uniform 80-round compression over them.
  The property is the equivalence of the two; the digest of "abc" is computed.
\<close>

section \<open>The implementation\<close>

type_synonym u32w = "32 word"

record SHA1Context =
  Message_Digest :: "u32w list"
  Length_Low :: u32w
  Length_High :: u32w
  Message_Block :: bytes
  Message_Block_Index :: nat
  Computed :: bool
  Corrupted :: bool

text \<open>\<open>SHA1CircularShift(bits, word)\<close>; \<open>unsigned\<close> has 32 bits, so the mask of the macro is the identity.\<close>

definition SHA1CircularShift :: "nat \<Rightarrow> u32w \<Rightarrow> u32w" where
  "SHA1CircularShift bits w = push_bit bits w OR drop_bit (32 - bits) w"

definition SHA1Reset :: "SHA1Context \<Rightarrow> SHA1Context" where
  "SHA1Reset ctx = ctx\<lparr>
     Length_Low := 0, Length_High := 0, Message_Block_Index := 0,
     Message_Digest := [0x67452301, 0xEFCDAB89, 0x98BADCFE, 0x10325476, 0xC3D2E1F0],
     Computed := False, Corrupted := False\<rparr>"

text \<open>One word of the schedule's first 16, then the other 64 from the ones before.\<close>

definition block_word :: "bytes \<Rightarrow> nat \<Rightarrow> u32w" where
  "block_word b t = push_bit 24 (ucast (b ! (t * 4))) OR push_bit 16 (ucast (b ! (t * 4 + 1)))
     OR push_bit 8 (ucast (b ! (t * 4 + 2))) OR ucast (b ! (t * 4 + 3))"

fun schedule :: "u32w list \<Rightarrow> nat \<Rightarrow> u32w list" where
  "schedule W 0 = W"
| "schedule W (Suc n) =
     (let t = length W in
      schedule (W @ [SHA1CircularShift 1 (W ! (t - 3) XOR W ! (t - 8) XOR W ! (t - 14) XOR W ! (t - 16))]) n)"

type_synonym regs = "u32w \<times> u32w \<times> u32w \<times> u32w \<times> u32w"

text \<open>The body the four loops share, with the loop's function of \<open>B\<close>, \<open>C\<close>, \<open>D\<close> and its constant.\<close>

definition round_body :: "u32w \<Rightarrow> u32w \<Rightarrow> u32w \<Rightarrow> regs \<Rightarrow> regs" where
  "round_body f k w r = (case r of (A, B, C, D, E) \<Rightarrow>
     (SHA1CircularShift 5 A + f + E + w + k, A, SHA1CircularShift 30 B, C, D))"

definition round1 :: "u32w list \<Rightarrow> nat \<Rightarrow> regs \<Rightarrow> regs" where
  "round1 W t r = (case r of (A, B, C, D, E) \<Rightarrow>
     round_body ((B AND C) OR ((NOT B) AND D)) 0x5A827999 (W ! t) r)"

definition round2 :: "u32w list \<Rightarrow> nat \<Rightarrow> regs \<Rightarrow> regs" where
  "round2 W t r = (case r of (A, B, C, D, E) \<Rightarrow>
     round_body (B XOR C XOR D) 0x6ED9EBA1 (W ! t) r)"

definition round3 :: "u32w list \<Rightarrow> nat \<Rightarrow> regs \<Rightarrow> regs" where
  "round3 W t r = (case r of (A, B, C, D, E) \<Rightarrow>
     round_body ((B AND C) OR (B AND D) OR (C AND D)) 0x8F1BBCDC (W ! t) r)"

definition round4 :: "u32w list \<Rightarrow> nat \<Rightarrow> regs \<Rightarrow> regs" where
  "round4 W t r = (case r of (A, B, C, D, E) \<Rightarrow>
     round_body (B XOR C XOR D) 0xCA62C1D6 (W ! t) r)"

definition SHA1ProcessMessageBlock :: "SHA1Context \<Rightarrow> SHA1Context" where
  "SHA1ProcessMessageBlock ctx =
     (let W = schedule (map (block_word (Message_Block ctx)) [0..<16]) 64;
          H = Message_Digest ctx;
          r0 = (H ! 0, H ! 1, H ! 2, H ! 3, H ! 4);
          r1 = fold (round1 W) [0..<20] r0;
          r2 = fold (round2 W) [20..<40] r1;
          r3 = fold (round3 W) [40..<60] r2;
          r4 = fold (round4 W) [60..<80] r3
      in case r4 of (A, B, C, D, E) \<Rightarrow>
        ctx\<lparr>Message_Digest := [H ! 0 + A, H ! 1 + B, H ! 2 + C, H ! 3 + D, H ! 4 + E],
            Message_Block_Index := 0\<rparr>)"

text \<open>\<open>Message_Block[Message_Block_Index++] = b\<close>.\<close>

definition put_byte :: "8 word \<Rightarrow> SHA1Context \<Rightarrow> SHA1Context" where
  "put_byte b ctx = ctx\<lparr>Message_Block := (Message_Block ctx)[Message_Block_Index ctx := b],
     Message_Block_Index := Message_Block_Index ctx + 1\<rparr>"

definition count_bits :: "SHA1Context \<Rightarrow> SHA1Context" where
  "count_bits ctx =
     (let ctx1 = ctx\<lparr>Length_Low := Length_Low ctx + 8\<rparr> in
      if Length_Low ctx1 = 0 then
        (let ctx2 = ctx1\<lparr>Length_High := Length_High ctx1 + 1\<rparr> in
         if Length_High ctx2 = 0 then ctx2\<lparr>Corrupted := True\<rparr> else ctx2)
      else ctx1)"

definition SHA1Input_byte :: "8 word \<Rightarrow> SHA1Context \<Rightarrow> SHA1Context" where
  "SHA1Input_byte b ctx =
     (let ctx1 = count_bits (put_byte b ctx) in
      if Message_Block_Index ctx1 = 64 then SHA1ProcessMessageBlock ctx1 else ctx1)"

fun SHA1Input_loop :: "SHA1Context \<Rightarrow> bytes \<Rightarrow> SHA1Context" where
  "SHA1Input_loop ctx [] = ctx"
| "SHA1Input_loop ctx (b # bs) =
     (if Corrupted ctx then ctx else SHA1Input_loop (SHA1Input_byte b ctx) bs)"

definition SHA1Input :: "SHA1Context \<Rightarrow> bytes \<Rightarrow> SHA1Context" where
  "SHA1Input ctx message =
     (if message = [] then ctx
      else if Computed ctx \<or> Corrupted ctx then ctx\<lparr>Corrupted := True\<rparr>
      else SHA1Input_loop ctx message)"

text \<open>\<open>while (Message_Block_Index < lim) Message_Block[Message_Block_Index++] = 0\<close>.\<close>

function zero_fill :: "nat \<Rightarrow> SHA1Context \<Rightarrow> SHA1Context" where
  "zero_fill lim ctx =
     (if Message_Block_Index ctx < lim then zero_fill lim (put_byte 0 ctx) else ctx)"
  by pat_completeness auto
termination
  by (relation "measure (\<lambda>(lim, ctx). lim - Message_Block_Index ctx)") (auto simp: put_byte_def)

declare zero_fill.simps [simp del]

definition length_bytes :: "u32w \<Rightarrow> u32w \<Rightarrow> bytes" where
  "length_bytes hi lo =
     [ucast (drop_bit 24 hi AND 0xFF), ucast (drop_bit 16 hi AND 0xFF), ucast (drop_bit 8 hi AND 0xFF), ucast (hi AND 0xFF),
      ucast (drop_bit 24 lo AND 0xFF), ucast (drop_bit 16 lo AND 0xFF), ucast (drop_bit 8 lo AND 0xFF), ucast (lo AND 0xFF)]"

definition SHA1PadMessage :: "SHA1Context \<Rightarrow> SHA1Context" where
  "SHA1PadMessage ctx =
     (let ctx1 = (if Message_Block_Index ctx > 55
                  then zero_fill 56 (SHA1ProcessMessageBlock (zero_fill 64 (put_byte 0x80 ctx)))
                  else zero_fill 56 (put_byte 0x80 ctx));
          ctx2 = ctx1\<lparr>Message_Block := take 56 (Message_Block ctx1)
                        @ length_bytes (Length_High ctx1) (Length_Low ctx1)\<rparr>
      in SHA1ProcessMessageBlock ctx2)"

definition SHA1Result :: "SHA1Context \<Rightarrow> SHA1Context \<times> int" where
  "SHA1Result ctx =
     (if Corrupted ctx then (ctx, 0)
      else if \<not> Computed ctx then ((SHA1PadMessage ctx)\<lparr>Computed := True\<rparr>, 1)
      else (ctx, 1))"

text \<open>The four bytes of a word in memory order on the little-endian target.\<close>

definition le_bytes :: "u32w \<Rightarrow> bytes" where
  "le_bytes w = [ucast w, ucast (drop_bit 8 w), ucast (drop_bit 16 w), ucast (drop_bit 24 w)]"

text \<open>
  \<open>sha1_hash(source, buf)\<close>: \<open>block\<close> is what the uninitialised \<open>Message_Block\<close> of the local
  context holds. The result is the return value and the 20 bytes of \<open>buf\<close>; the caller
  passes no \<open>buf_str\<close>.
\<close>

definition sha1_hash :: "bytes \<Rightarrow> bytes \<Rightarrow> int \<times> bytes option" where
  "sha1_hash block source =
     (let sha = SHA1Reset \<lparr>Message_Digest = [], Length_Low = 0, Length_High = 0,
                  Message_Block = block, Message_Block_Index = 0, Computed = False, Corrupted = False\<rparr>;
          (sha', ok) = SHA1Result (SHA1Input sha source)
      in if ok = 0 then (- 1, None)
         else let tmp = concat (map le_bytes (Message_Digest sha')) in
           (2, Some (concat (map (\<lambda>i. [tmp ! (i * 4 + 3), tmp ! (i * 4 + 2), tmp ! (i * 4 + 1), tmp ! (i * 4)]) [0..<5]))))"

section \<open>The reference\<close>

definition fips_f :: "nat \<Rightarrow> u32w \<Rightarrow> u32w \<Rightarrow> u32w \<Rightarrow> u32w" where
  "fips_f t x y z = (if t < 20 then (x AND y) OR (NOT x AND z)
     else if 40 \<le> t \<and> t < 60 then (x AND y) OR (x AND z) OR (y AND z)
     else x XOR y XOR z)"

definition fips_k :: "nat \<Rightarrow> u32w" where
  "fips_k t = [0x5A827999, 0x6ED9EBA1, 0x8F1BBCDC, 0xCA62C1D6] ! (t div 20)"

fun fips_w :: "u32w list \<Rightarrow> nat \<Rightarrow> u32w" where
  "fips_w M t = (if t < 16 then M ! t
     else word_rotl 1 (fips_w M (t - 3) XOR fips_w M (t - 8) XOR fips_w M (t - 14) XOR fips_w M (t - 16)))"

declare fips_w.simps [simp del]

definition be_word :: "bytes \<Rightarrow> u32w" where
  "be_word b = push_bit 24 (ucast (b ! 0)) OR push_bit 16 (ucast (b ! 1)) OR push_bit 8 (ucast (b ! 2)) OR ucast (b ! 3)"

definition fips_round :: "u32w list \<Rightarrow> nat \<Rightarrow> regs \<Rightarrow> regs" where
  "fips_round M t r = (case r of (a, b, c, d, e) \<Rightarrow>
     (word_rotl 5 a + fips_f t b c d + e + fips_k t + fips_w M t, a, word_rotl 30 b, c, d))"

definition fips_compress :: "regs \<Rightarrow> bytes \<Rightarrow> regs" where
  "fips_compress h block =
     (let M = map (\<lambda>t. be_word (take 4 (drop (4 * t) block))) [0..<16] in
      case h of (h0, h1, h2, h3, h4) \<Rightarrow>
      case fold (fips_round M) [0..<80] h of (a, b, c, d, e) \<Rightarrow>
        (h0 + a, h1 + b, h2 + c, h3 + d, h4 + e))"

function fips_fold :: "regs \<Rightarrow> bytes \<Rightarrow> regs" where
  "fips_fold h bs = (if length bs < 64 then h else fips_fold (fips_compress h (take 64 bs)) (drop 64 bs))"
  by pat_completeness auto
termination by (relation "measure (\<lambda>(h, bs). length bs)") auto

declare fips_fold.simps [simp del]

definition be_bytes :: "nat \<Rightarrow> nat \<Rightarrow> bytes" where
  "be_bytes k n = map (\<lambda>i. of_nat (n div 256 ^ (k - 1 - i))) [0..<k]"

text \<open>A word in four bytes, the most significant first.\<close>

definition fips_bytes :: "u32w \<Rightarrow> bytes" where
  "fips_bytes w = [ucast (drop_bit 24 w), ucast (drop_bit 16 w), ucast (drop_bit 8 w), ucast w]"

text \<open>The padding: a one bit, zeros up to 56 modulo 64 bytes, the bit length in 8 bytes.\<close>

definition fips_pad :: "bytes \<Rightarrow> bytes" where
  "fips_pad m = m @ 0x80 # replicate ((119 - length m mod 64) mod 64) 0 @ be_bytes 8 (8 * length m)"

definition fips_h0 :: regs where
  "fips_h0 = (0x67452301, 0xEFCDAB89, 0x98BADCFE, 0x10325476, 0xC3D2E1F0)"

definition fips_sha1 :: "bytes \<Rightarrow> bytes" where
  "fips_sha1 m = (case fips_fold fips_h0 (fips_pad m) of (a, b, c, d, e) \<Rightarrow>
     concat (map fips_bytes [a, b, c, d, e]))"

section \<open>The block function\<close>

text \<open>The macro is the rotation to the left that the standard speaks of.\<close>

lemma circular_shift_rotl:
  assumes "0 < n" "n < 32"
  shows "SHA1CircularShift n w = word_rotl n w"
proof (rule bit_word_eqI)
  fix i assume i: "i < LENGTH(32)"
  have far: "\<not> bit w j" if "32 \<le> j" for j using that bit_imp_le_length [of w j] by auto
  show "bit (SHA1CircularShift n w) i = bit (word_rotl n w) i"
  proof (cases "n \<le> i")
    case True
    then have "(i + 32 - n) mod 32 = i - n" using i by (simp add: mod_if)
    then show ?thesis using assms i True by (auto simp: SHA1CircularShift_def bit_simps far)
  next
    case False
    then have "(i + 32 - n) mod 32 = 32 + i - n" using assms i by simp
    then show ?thesis using assms i False by (auto simp: SHA1CircularShift_def bit_simps)
  qed
qed

lemma fips_bytes_rev: "fips_bytes w = rev (le_bytes w)"
  by (simp add: fips_bytes_def le_bytes_def)

fun regs_of :: "u32w list \<Rightarrow> regs" where
  "regs_of H = (H ! 0, H ! 1, H ! 2, H ! 3, H ! 4)"

fun list_of_regs :: "regs \<Rightarrow> u32w list" where
  "list_of_regs (a, b, c, d, e) = [a, b, c, d, e]"

lemma regs_of_list_of_regs [simp]: "regs_of (list_of_regs r) = r"
  by (cases r) simp

lemma length_list_of_regs [simp]: "length (list_of_regs r) = 5"
  by (cases r) simp

lemma schedule_correct:
  assumes "length M = 16"
  shows "16 \<le> length W \<Longrightarrow> (\<forall>t < length W. W ! t = fips_w M t) \<Longrightarrow>
    length (schedule W n) = length W + n \<and> (\<forall>t < length W + n. schedule W n ! t = fips_w M t)"
proof (induction n arbitrary: W)
  case 0
  then show ?case by simp
next
  case (Suc n)
  let ?t = "length W"
  let ?x = "SHA1CircularShift 1 (W ! (?t - 3) XOR W ! (?t - 8) XOR W ! (?t - 14) XOR W ! (?t - 16))"
  have x: "?x = fips_w M ?t"
    using Suc.prems by (simp add: fips_w.simps [of M ?t] circular_shift_rotl del: One_nat_def)
  have "\<forall>t < length (W @ [?x]). (W @ [?x]) ! t = fips_w M t"
    using Suc.prems(2) x by (simp add: nth_append less_Suc_eq)
  from Suc.IH [OF _ this] Suc.prems(1) show ?case by (simp add: Let_def)
qed

lemma schedule_nth:
  assumes "length M = 16" and "t < 80"
  shows "schedule M 64 ! t = fips_w M t"
  using schedule_correct [OF assms(1), of M 64] assms by (simp add: fips_w.simps)

lemma fold_cong_range:
  "(\<And>t r. t \<in> set ts \<Longrightarrow> f t r = g t r) \<Longrightarrow> fold f ts r = fold g ts r"
  by (induction ts arbitrary: r) auto

lemma rounds_eq:
  assumes "length M = 16"
  defines "W \<equiv> schedule M 64"
  shows "fold (round4 W) [60..<80] (fold (round3 W) [40..<60]
      (fold (round2 W) [20..<40] (fold (round1 W) [0..<20] r))) = fold (fips_round M) [0..<80] r"
proof -
  have W: "W ! t = fips_w M t" if "t < 80" for t
    unfolding W_def by (rule schedule_nth [OF assms(1) that])
  note defs = circular_shift_rotl round_body_def fips_round_def fips_f_def fips_k_def W ac_simps
  have 1: "fold (round1 W) [0..<20] r = fold (fips_round M) [0..<20] r" for r
    by (rule fold_cong_range) (auto simp: round1_def defs split: prod.split)
  have 2: "fold (round2 W) [20..<40] r = fold (fips_round M) [20..<40] r" for r
  proof (rule fold_cong_range)
    fix t r assume "t \<in> set [20..<40]"
    moreover from this have "t div 20 = 1" by auto
    ultimately show "round2 W t r = fips_round M t r"
      by (auto simp: round2_def defs split: prod.split)
  qed
  have 3: "fold (round3 W) [40..<60] r = fold (fips_round M) [40..<60] r" for r
  proof (rule fold_cong_range)
    fix t r assume "t \<in> set [40..<60]"
    moreover from this have "t div 20 = 2" by auto
    ultimately show "round3 W t r = fips_round M t r"
      by (auto simp: round3_def defs split: prod.split)
  qed
  have 4: "fold (round4 W) [60..<80] r = fold (fips_round M) [60..<80] r" for r
  proof (rule fold_cong_range)
    fix t r assume "t \<in> set [60..<80]"
    moreover from this have "t div 20 = 3" by auto
    ultimately show "round4 W t r = fips_round M t r"
      by (auto simp: round4_def defs split: prod.split)
  qed
  have g: "[40..<60] @ [60..<80] = [40..<80::nat]" "[20..<40] @ [40..<80] = [20..<80::nat]"
      "[0..<20] @ [20..<80] = [0..<80::nat]"
    by (rule upt_glue; simp only: numeral_le_iff semiring_norm zero_le_numeral)+
  have "[0..<80::nat] = [0..<20] @ [20..<40] @ [40..<60] @ [60..<80]"
    by (simp only: g)
  then show ?thesis by (simp only: 1 2 3 4 fold_append o_apply)
qed

lemma block_words:
  assumes "length b = 64"
  shows "map (block_word b) [0..<16] = map (\<lambda>t. be_word (take 4 (drop (4 * t) b))) [0..<16]"
  using assms by (auto simp: block_word_def be_word_def ac_simps)

lemma process_compress:
  assumes "length (Message_Block ctx) = 64" and "Message_Digest ctx = list_of_regs h"
  shows "SHA1ProcessMessageBlock ctx =
    ctx\<lparr>Message_Digest := list_of_regs (fips_compress h (Message_Block ctx)), Message_Block_Index := 0\<rparr>"
proof -
  obtain h0 h1 h2 h3 h4 where h: "h = (h0, h1, h2, h3, h4)" by (cases h)
  let ?M = "map (\<lambda>t. be_word (take 4 (drop (4 * t) (Message_Block ctx)))) [0..<16]"
  have len: "length ?M = 16" by simp
  have n: "[h0, h1, h2, h3, h4] ! 0 = h0" "[h0, h1, h2, h3, h4] ! 1 = h1"
      "[h0, h1, h2, h3, h4] ! 2 = h2" "[h0, h1, h2, h3, h4] ! 3 = h3" "[h0, h1, h2, h3, h4] ! 4 = h4"
    by simp_all
  obtain a b c d e where r: "fold (fips_round ?M) [0..<80] (h0, h1, h2, h3, h4) = (a, b, c, d, e)"
    by (cases "fold (fips_round ?M) [0..<80] (h0, h1, h2, h3, h4)")
  show ?thesis
    unfolding SHA1ProcessMessageBlock_def fips_compress_def Let_def block_words [OF assms(1)] assms(2) h
      list_of_regs.simps n rounds_eq [OF len] r prod.case by (rule refl)
qed

section \<open>Folding over the blocks\<close>

lemma fips_fold_short [simp]: "length bs < 64 \<Longrightarrow> fips_fold h bs = h"
  by (simp add: fips_fold.simps [of h bs])

lemma fips_fold_block:
  "length b = 64 \<Longrightarrow> fips_fold h (b @ bs) = fips_fold (fips_compress h b) bs"
  by (simp add: fips_fold.simps [of h "b @ bs"])

lemma fips_fold_append:
  "64 dvd length xs \<Longrightarrow> fips_fold h (xs @ ys) = fips_fold (fips_fold h xs) ys"
proof (induction h xs rule: fips_fold.induct)
  case (1 h xs)
  show ?case
  proof (cases "length xs < 64")
    case True
    with "1.prems" have "xs = []" by (auto dest: dvd_imp_le)
    then show ?thesis by simp
  next
    case False
    let ?b = "take 64 xs" and ?r = "drop 64 xs"
    have b: "length ?b = 64" using False by simp
    have "64 dvd length ?r" using "1.prems" False by simp
    with "1.IH" False have IH: "fips_fold (fips_compress h ?b) (?r @ ys)
        = fips_fold (fips_fold (fips_compress h ?b) ?r) ys" by simp
    have "fips_fold h ((?b @ ?r) @ ys) = fips_fold (fips_fold h (?b @ ?r)) ys"
      using IH by (simp only: append_assoc fips_fold_block [OF b])
    then show ?thesis by simp
  qed
qed

section \<open>SHA1Input\<close>

text \<open>
  After the bytes \<open>done @ rest\<close>, with \<open>done\<close> a whole number of blocks, the digest is the fold over
  \<open>done\<close>, \<open>rest\<close> is at the front of the block buffer and the counters agree.
\<close>

definition sha_inv :: "SHA1Context \<Rightarrow> bytes \<Rightarrow> bytes \<Rightarrow> bool" where
  "sha_inv ctx blocks rest \<longleftrightarrow>
     64 dvd length blocks \<and> length rest < 64 \<and> length (Message_Block ctx) = 64 \<and>
     Message_Block_Index ctx = length rest \<and> take (length rest) (Message_Block ctx) = rest \<and>
     Message_Digest ctx = list_of_regs (fips_fold fips_h0 blocks) \<and>
     Length_Low ctx = of_nat (8 * length (blocks @ rest)) \<and> Length_High ctx = 0 \<and>
     \<not> Computed ctx \<and> \<not> Corrupted ctx"

lemma of_nat32_nonzero: "0 < n \<Longrightarrow> n < 4294967296 \<Longrightarrow> (of_nat n :: 32 word) \<noteq> 0"
  by (simp add: word_unat_eq_iff unat_of_nat)

lemma count_bits_small:
  assumes "Length_Low ctx = of_nat (8 * n)" and "8 * (n + 1) < 4294967296"
  shows "count_bits ctx = ctx\<lparr>Length_Low := of_nat (8 * (n + 1))\<rparr>"
proof -
  have e: "(of_nat (8 * n) :: 32 word) + 8 = of_nat (8 * (n + 1))" by simp
  have "(of_nat (8 * (n + 1)) :: 32 word) \<noteq> 0" using assms(2) by (intro of_nat32_nonzero) auto
  then show ?thesis unfolding count_bits_def assms(1) e by (simp add: Let_def)
qed

lemma sha_input_byte:
  assumes inv: "sha_inv ctx blocks rest" and small: "8 * (length (blocks @ rest) + 1) < 4294967296"
  shows "\<exists>blocks' rest'. blocks' @ rest' = blocks @ rest @ [b] \<and> sha_inv (SHA1Input_byte b ctx) blocks' rest'"
proof -
  let ?blk = "(Message_Block ctx)[length rest := b]"
  let ?c = "count_bits (put_byte b ctx)"
  have c: "?c = ctx\<lparr>Message_Block := ?blk, Message_Block_Index := length rest + 1,
      Length_Low := of_nat (8 * (length (blocks @ rest) + 1))\<rparr>"
    using count_bits_small [of "put_byte b ctx" "length (blocks @ rest)"] inv small
    by (simp add: put_byte_def sha_inv_def)
  have front: "take (Suc (length rest)) ?blk = rest @ [b]"
    using inv by (simp add: sha_inv_def take_Suc_conv_app_nth)
  show ?thesis
  proof (cases "length rest + 1 = 64")
    case False
    have "sha_inv (SHA1Input_byte b ctx) blocks (rest @ [b])"
      using False inv front unfolding SHA1Input_byte_def Let_def c
      by (simp add: sha_inv_def)
    then show ?thesis by (intro exI [of _ blocks] exI [of _ "rest @ [b]"]) simp
  next
    case True
    with front inv have blk: "?blk = rest @ [b]" by (simp add: sha_inv_def)
    have len: "length (rest @ [b]) = 64" using True by simp
    have fold: "fips_fold fips_h0 (blocks @ rest @ [b]) = fips_compress (fips_fold fips_h0 blocks) (rest @ [b])"
      using fips_fold_append [of blocks fips_h0 "rest @ [b]"]
        fips_fold_block [OF len, of "fips_fold fips_h0 blocks" "[]"] inv
      by (simp add: sha_inv_def)
    have "SHA1Input_byte b ctx = ?c\<lparr>Message_Digest := list_of_regs (fips_compress (fips_fold fips_h0 blocks) (rest @ [b])),
        Message_Block_Index := 0\<rparr>"
      using True inv len unfolding SHA1Input_byte_def Let_def c blk
      by (simp add: process_compress [of _ "fips_fold fips_h0 blocks"] sha_inv_def)
    then have "sha_inv (SHA1Input_byte b ctx) (blocks @ rest @ [b]) []"
      using inv len fold True by (simp add: c sha_inv_def dvd_add)
    then show ?thesis by (intro exI [of _ "blocks @ rest @ [b]"] exI [of _ "[]"]) simp
  qed
qed

lemma sha_input_loop:
  "sha_inv ctx blocks rest \<Longrightarrow> 8 * (length (blocks @ rest) + length bs) < 4294967296 \<Longrightarrow>
   \<exists>blocks' rest'. blocks' @ rest' = blocks @ rest @ bs \<and> sha_inv (SHA1Input_loop ctx bs) blocks' rest'"
proof (induction bs arbitrary: ctx blocks rest)
  case Nil
  then show ?case by auto
next
  case (Cons b bs)
  from Cons.prems have "8 * (length (blocks @ rest) + 1) < 4294967296" by simp
  from sha_input_byte [OF Cons.prems(1) this, of b] obtain blocks1 rest1
    where e: "blocks1 @ rest1 = blocks @ rest @ [b]" and i: "sha_inv (SHA1Input_byte b ctx) blocks1 rest1"
    by blast
  have "length (blocks1 @ rest1) = length (blocks @ rest) + 1" using arg_cong [OF e, of length] by simp
  with Cons.prems have "8 * (length (blocks1 @ rest1) + length bs) < 4294967296" by simp
  from Cons.IH [OF i this] obtain blocks2 rest2
    where "blocks2 @ rest2 = blocks1 @ rest1 @ bs" and "sha_inv (SHA1Input_loop (SHA1Input_byte b ctx) bs) blocks2 rest2"
    by blast
  moreover have "\<not> Corrupted ctx" using Cons.prems(1) by (simp add: sha_inv_def)
  moreover have "blocks1 @ rest1 @ bs = blocks @ rest @ b # bs"
    using e by (metis append.assoc append_Cons append_Nil)
  ultimately show ?case by auto
qed

section \<open>Padding\<close>

lemma zero_fill_eq:
  "lim \<le> length (Message_Block ctx) \<Longrightarrow> Message_Block_Index ctx \<le> lim \<Longrightarrow>
   zero_fill lim ctx = ctx\<lparr>
     Message_Block := take (Message_Block_Index ctx) (Message_Block ctx)
       @ replicate (lim - Message_Block_Index ctx) 0 @ drop lim (Message_Block ctx),
     Message_Block_Index := lim\<rparr>"
proof (induction lim ctx rule: zero_fill.induct)
  case (1 lim ctx)
  let ?i = "Message_Block_Index ctx" and ?b = "Message_Block ctx"
  show ?case
  proof (cases "?i < lim")
    case True
    have r: "replicate (lim - ?i) (0 :: 8 word) = 0 # replicate (lim - Suc ?i) 0"
      using True by (simp add: Suc_diff_Suc flip: replicate_Suc)
    have t: "take (Suc ?i) (?b[?i := 0]) = take ?i ?b @ [0]"
      using True "1.prems" by (simp add: take_Suc_conv_app_nth)
    show ?thesis
      using "1.IH" [OF True] True "1.prems" r t
      by (simp add: zero_fill.simps [of lim ctx] put_byte_def)
  next
    case False
    with "1.prems" show ?thesis by (simp add: zero_fill.simps [of lim ctx])
  qed
qed

lemma length_bytes_be:
  assumes "n < 4294967296"
  shows "length_bytes 0 (of_nat n) = be_bytes 8 n"
proof -
  have u: "unat (of_nat n :: 32 word) = n" using assms by (simp add: unat_of_nat)
  have m: "w AND (0xFF :: 32 word) = take_bit 8 w" for w
    by (simp add: take_bit_eq_mask mask_eq_exp_minus_1)
  have b: "ucast (drop_bit k (of_nat n :: 32 word) AND 0xFF) = (of_nat (n div 2 ^ k) :: 8 word)" for k
    unfolding word_unat_eq_iff m unsigned_ucast_eq unsigned_take_bit_eq unsigned_drop_bit_eq u
    using assms by (simp add: unat_of_nat take_bit_eq_mod drop_bit_eq_div)
  have b0: "ucast ((of_nat n :: 32 word) AND 0xFF) = (of_nat n :: 8 word)"
    using b [of 0] by simp
  have z: "n div 256 ^ 7 = 0" "n div 256 ^ 6 = 0" "n div 256 ^ 5 = 0" "n div 256 ^ 4 = 0"
    using assms by simp_all
  show ?thesis
    using z by (simp add: length_bytes_def be_bytes_def b b0 upt_rec)
qed

lemma length_be_bytes [simp]: "length (be_bytes k n) = k"
  by (simp add: be_bytes_def)

lemma pad_digest:
  assumes inv: "sha_inv ctx blocks rest" and small: "8 * length (blocks @ rest) < 4294967296"
  shows "Message_Digest (SHA1PadMessage ctx) = list_of_regs (fips_fold fips_h0 (fips_pad (blocks @ rest)))"
proof -
  let ?h = "fips_fold fips_h0 blocks" and ?r = "length rest"
  let ?L = "be_bytes 8 (8 * length (blocks @ rest))"
  have r: "length (blocks @ rest) mod 64 = ?r" "?r < 64" "64 dvd length blocks"
    using inv by (auto simp: sha_inv_def elim!: dvdE)
  have L: "length_bytes (Length_High ctx) (Length_Low ctx) = ?L"
    using inv length_bytes_be [OF small] by (simp add: sha_inv_def)
  have front: "take (Suc ?r) ((Message_Block ctx)[?r := 0x80]) = rest @ [0x80]"
    using inv by (simp add: sha_inv_def take_Suc_conv_app_nth)
  define c1 where "c1 = put_byte 0x80 ctx"
  have c1: "Message_Block_Index c1 = Suc ?r" "length (Message_Block c1) = 64"
      "Message_Digest c1 = list_of_regs ?h" "take (Suc ?r) (Message_Block c1) = rest @ [0x80]"
      "Length_High c1 = Length_High ctx" "Length_Low c1 = Length_Low ctx"
    using inv front by (simp_all add: c1_def put_byte_def sha_inv_def)
  show ?thesis
  proof (cases "?r > 55")
    case True
    define b1 where "b1 = rest @ 0x80 # replicate (63 - ?r) 0"
    have b1: "length b1 = 64" using r(2) by (simp add: b1_def)
    have z1: "zero_fill 64 c1 = c1\<lparr>Message_Block := b1, Message_Block_Index := 64\<rparr>"
      using zero_fill_eq [of 64 c1] c1 r(2) by (simp add: b1_def)
    have p1: "SHA1ProcessMessageBlock (zero_fill 64 c1) = c1\<lparr>Message_Block := b1,
        Message_Digest := list_of_regs (fips_compress ?h b1), Message_Block_Index := 0\<rparr>"
      using process_compress [of "zero_fill 64 c1" ?h] b1 c1 by (simp add: z1)
    let ?b2 = "replicate 56 0 @ ?L"
    have z2: "zero_fill 56 (SHA1ProcessMessageBlock (zero_fill 64 c1)) = c1\<lparr>
        Message_Block := replicate 56 0 @ drop 56 b1,
        Message_Digest := list_of_regs (fips_compress ?h b1), Message_Block_Index := 56\<rparr>"
      unfolding p1 using zero_fill_eq [of 56 "c1\<lparr>Message_Block := b1,
        Message_Digest := list_of_regs (fips_compress ?h b1), Message_Block_Index := 0\<rparr>"] b1 by simp
    have d: "Message_Digest (SHA1PadMessage ctx) = list_of_regs (fips_compress (fips_compress ?h b1) ?b2)"
    proof -
      have idx: "Message_Block_Index ctx > 55" using True inv by (simp add: sha_inv_def)
      have "SHA1PadMessage ctx = SHA1ProcessMessageBlock (c1\<lparr>
          Message_Digest := list_of_regs (fips_compress ?h b1), Message_Block_Index := 56, Message_Block := ?b2\<rparr>)"
        unfolding SHA1PadMessage_def Let_def if_P [OF idx] c1_def [symmetric] z2
        by (simp add: c1 L)
      then show ?thesis
        by (simp add: process_compress [of _ "fips_compress ?h b1"])
    qed
    have "(119 - ?r) mod 64 = (63 - ?r) + 56" using True r(2) by simp
    then have "fips_pad (blocks @ rest) = blocks @ b1 @ ?b2"
      by (simp only: fips_pad_def r(1) replicate_add) (simp add: b1_def)
    then have "fips_fold fips_h0 (fips_pad (blocks @ rest)) = fips_compress (fips_compress ?h b1) ?b2"
      using fips_fold_block [of ?b2 "fips_compress ?h b1" "[]"]
      by (simp add: fips_fold_append [OF r(3)] fips_fold_block [OF b1])
    then show ?thesis by (simp add: d)
  next
    case False
    let ?b = "rest @ 0x80 # replicate (55 - ?r) 0 @ ?L"
    have z: "zero_fill 56 c1 = c1\<lparr>Message_Block := rest @ 0x80 # replicate (55 - ?r) 0 @ drop 56 (Message_Block c1),
        Message_Block_Index := 56\<rparr>"
      using zero_fill_eq [of 56 c1] c1 False by simp
    have t: "take 56 (Message_Block (zero_fill 56 c1)) = rest @ 0x80 # replicate (55 - ?r) 0"
    proof -
      have "56 - ?r = Suc (55 - ?r)" using False by simp
      then show ?thesis using False by (simp add: z)
    qed
    have d: "Message_Digest (SHA1PadMessage ctx) = list_of_regs (fips_compress ?h ?b)"
    proof -
      have idx: "\<not> Message_Block_Index ctx > 55" using False inv by (simp add: sha_inv_def)
      have "SHA1PadMessage ctx = SHA1ProcessMessageBlock (c1\<lparr>Message_Block_Index := 56, Message_Block := ?b\<rparr>)"
        unfolding SHA1PadMessage_def Let_def if_not_P [OF idx] c1_def [symmetric] t
        by (simp add: c1 L z)
      then show ?thesis
        using False by (simp add: process_compress [of _ ?h] c1)
    qed
    have "(119 - ?r) mod 64 = 55 - ?r"
    proof -
      have "119 - ?r = (55 - ?r) + 64" using False by simp
      then show ?thesis using False by (metis mod_add_self2 mod_less not_less_eq less_imp_diff_less
            numeral_less_iff semiring_norm(76) semiring_norm(78) semiring_norm(81))
    qed
    then have "fips_pad (blocks @ rest) = blocks @ ?b"
      by (simp only: fips_pad_def r(1)) simp
    then have "fips_fold fips_h0 (fips_pad (blocks @ rest)) = fips_compress ?h ?b"
      using fips_fold_block [of ?b ?h "[]"] False by (simp add: fips_fold_append [OF r(3)])
    then show ?thesis by (simp add: d)
  qed
qed

section \<open>sha1\_hash\<close>

lemma reorder_digest:
  "concat (map (\<lambda>i. [concat (map le_bytes (list_of_regs r)) ! (i * 4 + 3), concat (map le_bytes (list_of_regs r)) ! (i * 4 + 2),
      concat (map le_bytes (list_of_regs r)) ! (i * 4 + 1), concat (map le_bytes (list_of_regs r)) ! (i * 4)]) [0..<5])
   = concat (map (rev \<circ> le_bytes) (list_of_regs r))"
  by (cases r) (simp add: le_bytes_def upt_rec)

lemma sha_inv_reset:
  assumes "length block = 64"
  shows "sha_inv (SHA1Reset \<lparr>Message_Digest = [], Length_Low = 0, Length_High = 0,
    Message_Block = block, Message_Block_Index = 0, Computed = False, Corrupted = False\<rparr>) [] []"
  using assms by (simp add: sha_inv_def SHA1Reset_def fips_h0_def)

lemma sha1_hash_fips:
  assumes "length block = 64" and small: "8 * length source < 4294967296"
  shows "sha1_hash block source = (2, Some (fips_sha1 source))"
proof -
  let ?c = "SHA1Reset \<lparr>Message_Digest = [], Length_Low = 0, Length_High = 0,
    Message_Block = block, Message_Block_Index = 0, Computed = False, Corrupted = False\<rparr>"
  have i0: "sha_inv ?c [] []" by (rule sha_inv_reset [OF assms(1)])
  have "\<exists>blocks rest. blocks @ rest = source \<and> sha_inv (SHA1Input ?c source) blocks rest"
  proof (cases "source = []")
    case True
    with i0 show ?thesis by (simp add: SHA1Input_def)
  next
    case False
    have "\<not> Computed ?c" "\<not> Corrupted ?c" by (simp_all add: SHA1Reset_def)
    with False sha_input_loop [OF i0, of source] small show ?thesis
      by (simp add: SHA1Input_def)
  qed
  then obtain blocks rest where e: "blocks @ rest = source" and i: "sha_inv (SHA1Input ?c source) blocks rest"
    by blast
  have res: "SHA1Result (SHA1Input ?c source) = ((SHA1PadMessage (SHA1Input ?c source))\<lparr>Computed := True\<rparr>, 1)"
    using i by (simp add: SHA1Result_def sha_inv_def)
  let ?r = "fips_fold fips_h0 (fips_pad source)"
  have "Message_Digest (SHA1PadMessage (SHA1Input ?c source)) = list_of_regs ?r"
    using pad_digest [OF i] small by (simp only: e)
  then have dig: "Message_Digest ((SHA1PadMessage (SHA1Input ?c source))\<lparr>Computed := True\<rparr>) = list_of_regs ?r"
    by simp
  have fin: "concat (map (rev \<circ> le_bytes) (list_of_regs ?r)) = fips_sha1 source"
    by (cases ?r) (simp add: fips_sha1_def fips_bytes_rev)
  show ?thesis
    unfolding sha1_hash_def Let_def res prod.case
    by (simp only: dig reorder_digest fin) simp
qed

lemma length_fips_sha1 [simp]: "length (fips_sha1 m) = 20"
  by (simp add: fips_sha1_def fips_bytes_def split: prod.split)

section \<open>A test vector\<close>

text \<open>
  The digest of "abc" in the standard. Words are numerals under \<open>as_word\<close>, so that the simplifier
  computes with integers.
\<close>

definition as_word :: "int \<Rightarrow> u32w" where "as_word x = word_of_int x"

lemma as_word_num: "(numeral k :: u32w) = as_word (numeral k)" "(0 :: u32w) = as_word 0"
  by (simp_all add: as_word_def)

lemma as_word_ops: "as_word a XOR as_word b = as_word (a XOR b)" "as_word a AND as_word b = as_word (a AND b)" "as_word a OR as_word b = as_word (a OR b)"
  "NOT (as_word a) = as_word (4294967295 - a)" "as_word a + as_word b = as_word ((a + b) mod 4294967296)"
proof -
  show "as_word a + as_word b = as_word ((a + b) mod 4294967296)"
    unfolding as_word_def by transfer (simp add: take_bit_eq_mod mod_simps)
  have "(4294967295 :: u32w) = - 1" by simp
  then show "NOT (as_word a) = as_word (4294967295 - a)" unfolding as_word_def not_eq_complement by (simp only: wi_hom_syms) simp
qed (simp_all add: as_word_def bit_eq_iff bit_simps)

lemma as_word_shift:
  assumes "0 \<le> a" "a < 4294967296" "0 < n" "n < 32"
  shows "SHA1CircularShift n (as_word a) = as_word ((a * 2 ^ n) mod 4294967296 OR a div 2 ^ (32 - n))"
proof -
  have "push_bit n (as_word a) = as_word (a * 2 ^ n mod 4294967296)"
    unfolding as_word_def by transfer (simp add: push_bit_eq_mult take_bit_eq_mod mod_mult_left_eq)
  moreover have "drop_bit (32 - n) (as_word a) = as_word (a div 2 ^ (32 - n))"
    using assms unfolding as_word_def by transfer (simp add: take_bit_int_eq_self drop_bit_eq_div)
  ultimately show ?thesis unfolding SHA1CircularShift_def as_word_ops(3) [symmetric] by simp
qed


lemma sched_step:
  "length W = t \<Longrightarrow> W ! (t - 3) = as_word a \<Longrightarrow> W ! (t - 8) = as_word b \<Longrightarrow> W ! (t - 14) = as_word c \<Longrightarrow> W ! (t - 16) = as_word d \<Longrightarrow>
   0 \<le> (a XOR b XOR c XOR d) \<Longrightarrow> (a XOR b XOR c XOR d) < 4294967296 \<Longrightarrow>
   schedule W (Suc n) = schedule (W @ [as_word (((a XOR b XOR c XOR d) * 2) mod 4294967296 OR (a XOR b XOR c XOR d) div 2147483648)]) n"
  by (simp add: as_word_ops as_word_shift Let_def del: One_nat_def)


lemma upt_20: "[0..<20] = [0, 1, 2, 3, 4, 5, 6, 7, 8, 9, 10, 11, 12, 13, 14, 15, 16, 17, 18, 19]"
  by (simp add: upt_rec)

lemma fold_later: "fold f [20..<40] r = fold (\<lambda>t. f (20 + t)) [0..<20] r" "fold f [40..<60] r = fold (\<lambda>t. f (40 + t)) [0..<20] r"
  "fold f [60..<80] r = fold (\<lambda>t. f (60 + t)) [0..<20] r"
  by (simp_all add: upt_rec)


lemma abc_pad: "fips_pad [97, 98, 99] = [97, 98, 99, 128] @ replicate 52 0 @ [0, 0, 0, 0, 0, 0, 0, 24]"
  by (simp add: fips_pad_def be_bytes_def upt_rec flip: replicate_add)

lemma abc_words: "map (\<lambda>t. be_word (take 4 (drop (4 * t) (fips_pad [97, 98, 99])))) [0..<16] = map as_word ([1633837952] @ replicate 14 0 @ [24])"
  unfolding abc_pad
  by code_simp

text \<open>The schedule is computed first, then the eighty rounds over it.\<close>

lemma abc_rounds:
  "\<exists>W. W = schedule (map as_word ([1633837952] @ replicate 14 0 @ [24])) 64 \<and>
  fold (round4 W) [60..<80] (fold (round3 W) [40..<60] (fold (round2 W) [20..<40] (fold (round1 W) [0..<20] fips_h0))) =
   (as_word 1112808245, as_word 1463342561, as_word 562251891, as_word 1746824694, as_word 3640522413)"
  apply (simp add: eval_nat_numeral sched_step schedule.simps(1) del: schedule.simps(2))
  by (simp add: fips_h0_def fold_later upt_20 round1_def round2_def round3_def round4_def round_body_def as_word_ops as_word_num as_word_shift)

lemma abc_digest:
  "fips_sha1 [97, 98, 99] = [0xa9, 0x99, 0x3e, 0x36, 0x47, 0x06, 0x81, 0x6a, 0xba, 0x3e, 0x25, 0x71, 0x78, 0x50, 0xc2, 0x6c, 0x9c, 0xd0, 0xd8, 0x9d]"
proof -
  let ?M = "map as_word ([1633837952] @ replicate 14 0 @ [24])"
  have l: "length (fips_pad [97, 98, 99]) = 64" by (simp add: abc_pad)
  have "fold (fips_round ?M) [0..<80] fips_h0 = (as_word 1112808245, as_word 1463342561, as_word 562251891, as_word 1746824694, as_word 3640522413)"
    using abc_rounds rounds_eq [of ?M fips_h0] by simp
  then have "fips_compress fips_h0 (fips_pad [97, 98, 99]) = (0xa9993e36, 0x4706816a, 0xba3e2571, 0x7850c26c, 0x9cd0d89d)"
    unfolding fips_compress_def Let_def abc_words by (simp add: fips_h0_def as_word_def)
  moreover have "fips_fold fips_h0 (fips_pad [97, 98, 99]) = fips_compress fips_h0 (fips_pad [97, 98, 99])"
    using fips_fold_block [OF l, of fips_h0 "[]"] by (simp add: fips_fold.simps)
  ultimately have "fips_fold fips_h0 (fips_pad [97, 98, 99]) = (0xa9993e36, 0x4706816a, 0xba3e2571, 0x7850c26c, 0x9cd0d89d)" by simp
  then show ?thesis unfolding fips_sha1_def by (simp add: fips_bytes_def)
qed

section \<open>Properties\<close>

text \<open>
  C17: \<open>sha1_hash\<close> computes SHA-1 as FIPS 180 defines it, on every message whose bit length
  fits the low counter word, whatever the uninitialised block buffer holds; the result code
  is 2 and the digest is 20 bytes, most significant byte first. The reference shares neither the
  rotation nor the words' order with the code, and gives "abc" the digest of the standard.
\<close>

theorem sha1_hash_is_fips:
  assumes "length block = 64" and "8 * length source < 4294967296"
  shows "sha1_hash block source = (2, Some (fips_sha1 source)) \<and> length (fips_sha1 source) = 20"
  by (simp add: sha1_hash_fips [OF assms])

lemma sha1_hash_is_fips_witness:
  "sha1_hash (replicate 64 7) [97, 98, 99] = (2, Some
    [0xa9, 0x99, 0x3e, 0x36, 0x47, 0x06, 0x81, 0x6a, 0xba, 0x3e, 0x25, 0x71, 0x78, 0x50, 0xc2, 0x6c, 0x9c, 0xd0, 0xd8, 0x9d])"
  using sha1_hash_is_fips [of "replicate 64 7" "[97, 98, 99]"] abc_digest by simp

end
