(* ===== verification/Explode.thy ===== *)
theory Explode
  imports CText
begin

text \<open>
  The splitter of \<open>src/header/explode.hpp\<close> with its two constructors. Positions are indices
  into the string; \<open>ptrs\<close> is the used part of \<open>_ptrs\<close>, at most nine (start, end) pairs, and
  \<open>_array\<close> holds a copy of each piece, NULL for an empty one. The reference is the ordinary
  splitting of a string.
\<close>

record Explode =
  array :: "string option list"
  len :: nat

text \<open>\<open>copy\<close>: one entry per recorded pair, NULL where start and end coincide.\<close>

definition copy :: "string \<Rightarrow> (nat \<times> nat) list \<Rightarrow> string option list" where
  "copy s ptrs = map (\<lambda>(a, b). if a = b then None else Some (take (b - a) (drop a s))) ptrs"

definition push_piece :: "(nat \<times> nat) list \<Rightarrow> nat \<Rightarrow> nat \<Rightarrow> (nat \<times> nat) list" where
  "push_piece ptrs a b = (if length ptrs < 9 then ptrs @ [(a, b)] else ptrs)"

definition explode_done :: "string \<Rightarrow> nat \<Rightarrow> nat \<Rightarrow> (nat \<times> nat) list \<Rightarrow> Explode" where
  "explode_done s start str ptrs =
     (let ps = push_piece ptrs start str in \<lparr>array = copy s ps, len = length ps\<rparr>)"

definition empty_explode :: Explode where
  "empty_explode = \<lparr>array = [], len = 0\<rparr>"

section \<open>A single delimiter\<close>

text \<open>The loop over the characters that are left; \<open>str\<close> is the current position.\<close>

fun explode_char_loop :: "char \<Rightarrow> string \<Rightarrow> nat \<Rightarrow> nat \<Rightarrow> (nat \<times> nat) list \<Rightarrow> nat \<times> nat \<times> (nat \<times> nat) list" where
  "explode_char_loop d [] start str ptrs = (start, str, ptrs)"
| "explode_char_loop d (c # cs) start str ptrs =
     (if c = d then explode_char_loop d cs (Suc str) (Suc str) (push_piece ptrs start str)
      else explode_char_loop d cs start (Suc str) ptrs)"

definition explode_char :: "char \<Rightarrow> string option \<Rightarrow> Explode" where
  "explode_char delimiter str =
     (case str of
        None \<Rightarrow> empty_explode
      | Some s \<Rightarrow>
          if s = [] then empty_explode
          else (case explode_char_loop delimiter s 0 0 [] of (start, e, ptrs) \<Rightarrow> explode_done s start e ptrs))"

section \<open>A string delimiter\<close>

text \<open>
  The inner loop walks delimiter and string together; on a mismatch the string pointer
  stays where the mismatch was found, and the outer loop goes on from the character after it.
\<close>

fun match_delim :: "string \<Rightarrow> nat \<Rightarrow> string \<Rightarrow> (bool \<times> nat) res" where
  "match_delim s str [] = Inr (True, str)"
| "match_delim s str (d # ds) =
     rbind (rd s str) (\<lambda>c. if c \<noteq> d then Inr (False, str) else match_delim s (Suc str) ds)"

lemma match_delim_ge: "match_delim s str ds = Inr (f, p) \<Longrightarrow> str \<le> p"
proof (induction ds arbitrary: str)
  case Nil
  then show ?case by simp
next
  case (Cons d ds)
  then show ?case
    by (auto simp: rbind_eq_Inr split: if_splits dest!: Cons.IH)
qed

lemma match_delim_True: "match_delim s str ds = Inr (True, p) \<Longrightarrow> p = str + length ds"
proof (induction ds arbitrary: str)
  case (Cons d ds)
  then have "match_delim s (Suc str) ds = Inr (True, p)"
    by (auto simp: rbind_eq_Inr split: if_splits)
  from Cons.IH [OF this] show ?case by simp
qed simp

function explode_str_loop :: "string \<Rightarrow> string \<Rightarrow> nat \<Rightarrow> nat \<Rightarrow> (nat \<times> nat) list
    \<Rightarrow> (nat \<times> nat \<times> (nat \<times> nat) list) res" where
  "explode_str_loop delim s start str ptrs =
     rbind (rd s str) (\<lambda>c.
       if c = NUL \<or> delim = [] then Inr (start, str, ptrs)
       else if c = hd delim then
         rbind (match_delim s str delim) (\<lambda>(find, p).
           if find then explode_str_loop delim s p p (push_piece ptrs start (p - length delim))
           else explode_str_loop delim s start (Suc p) ptrs)
       else explode_str_loop delim s start (Suc str) ptrs)"
  by pat_completeness auto
termination
proof (relation "measure (\<lambda>(delim, s, start, str, ptrs). Suc (length s) - str)", goal_cases)
  case 1
  then show ?case by simp
next
  case (2 delim s start str ptrs c x find p)
  then have "str \<le> length s" and "p = str + length delim" and "delim \<noteq> []"
    by (auto dest: rd_Inr_le match_delim_True)
  then show ?case by (cases delim) auto
next
  case (3 delim s start str ptrs c x find p)
  then have "str \<le> length s" and "str \<le> p"
    by (auto dest: rd_Inr_le match_delim_ge)
  then show ?case by auto
next
  case (4 delim s start str ptrs c)
  then show ?case by (auto dest: rd_Inr_le)
qed

declare explode_str_loop.simps [simp del]

definition explode_str :: "string \<Rightarrow> string option \<Rightarrow> Explode res" where
  "explode_str delimiter str =
     (case str of
        None \<Rightarrow> Inr empty_explode
      | Some s \<Rightarrow>
          if s = [] \<or> length delimiter = 0 then Inr empty_explode
          else rbind (explode_str_loop delimiter s 0 0 []) (\<lambda>(start, e, ptrs).
            Inr (explode_done s start e ptrs)))"

section \<open>Access\<close>

definition explode_nth :: "Explode \<Rightarrow> nat \<Rightarrow> string option" where
  "explode_nth x index = (if len x \<le> index then None else array x ! index)"

definition explode_getInt :: "Explode \<Rightarrow> nat \<Rightarrow> int" where
  "explode_getInt x index = (case explode_nth x index of None \<Rightarrow> 0 | Some s \<Rightarrow> atoi s)"

text \<open>
  The destructor frees the pieces; the block of \<open>_array\<close> itself, one more than the pieces
  that are not NULL, is not given back. Both lists name blocks by position, \<open>None\<close> for
  \<open>_array\<close>.
\<close>

definition explode_blocks :: "Explode \<Rightarrow> nat option list" where
  "explode_blocks x = None # map Some (filter (\<lambda>i. array x ! i \<noteq> None) [0..<len x])"

definition explode_destroy :: "Explode \<Rightarrow> nat option list" where
  "explode_destroy x = map Some (filter (\<lambda>i. array x ! i \<noteq> None) [0..<len x])"

section \<open>The reference\<close>

fun split_on :: "char \<Rightarrow> string \<Rightarrow> string list" where
  "split_on d [] = [[]]"
| "split_on d (c # cs) =
     (if c = d then [] # split_on d cs
      else (case split_on d cs of [] \<Rightarrow> [[c]] | p # ps \<Rightarrow> (c # p) # ps))"

definition piece :: "string \<Rightarrow> string option" where
  "piece p = (if p = [] then None else Some p)"

definition join :: "string \<Rightarrow> string list \<Rightarrow> string" where
  "join sep ps = concat (map (\<lambda>p. p @ sep) (butlast ps)) @ last ps"

definition prepend :: "string \<Rightarrow> string list \<Rightarrow> string list" where
  "prepend cur ps = (case ps of [] \<Rightarrow> [] | p # qs \<Rightarrow> (cur @ p) # qs)"

lemma prepend_simps [simp]:
  "prepend [] ps = ps" "prepend cur (p # qs) = (cur @ p) # qs"
  by (simp_all add: prepend_def split: list.split)

lemma split_on_ne: "split_on d s \<noteq> []"
  by (cases s) (auto split: list.splits)

lemma copy_append: "copy s (ps @ qs) = copy s ps @ copy s qs"
  by (simp add: copy_def)

lemma copy_piece: "copy s [(a, a + length p)] = [piece p]" if "take (length p) (drop a s) = p"
  using that by (auto simp: copy_def piece_def)

text \<open>
  Where \<open>s = pre @ cur @ cs\<close>, \<open>start\<close> is the end of \<open>pre\<close> and the current position is the end of
  \<open>cur\<close>: the pieces still to come are those of splitting \<open>cs\<close>, the first prolonged by \<open>cur\<close>.
\<close>

lemma explode_char_loop_split:
  assumes "explode_char_loop d cs (length pre) (length pre + length cur) ptrs = (start, e, ptrs')"
  shows "array (explode_done (pre @ cur @ cs) start e ptrs') =
    take 9 (copy (pre @ cur @ cs) ptrs @
      map piece (prepend cur (split_on d cs))) \<or> 9 < length ptrs"
  using assms
proof (induction cs arbitrary: pre cur ptrs)
  case Nil
  then have "start = length pre" "e = length pre + length cur" "ptrs' = ptrs" by auto
  moreover have "copy (pre @ cur) [(length pre, length pre + length cur)] = [piece cur]"
    by (rule copy_piece) simp
  moreover have "length (copy (pre @ cur) ptrs) = length ptrs" by (simp add: copy_def)
  ultimately show ?case
    by (auto simp: explode_done_def push_piece_def Let_def copy_append)
next
  case (Cons c cs)
  show ?case
  proof (cases "c = d")
    case True
    let ?ps = "push_piece ptrs (length pre) (length pre + length cur)"
    from Cons.prems True have
      "explode_char_loop d cs (length (pre @ cur @ [d])) (length (pre @ cur @ [d]) + length ([] :: string)) ?ps
        = (start, e, ptrs')" by simp
    from Cons.IH [OF this] have IH: "array (explode_done (pre @ cur @ d # cs) start e ptrs') =
        take 9 (copy (pre @ cur @ d # cs) ?ps @ map piece (split_on d cs)) \<or> 9 < length ?ps"
      by simp
    have c: "copy (pre @ cur @ d # cs) [(length pre, length pre + length cur)] = [piece cur]"
      by (rule copy_piece) simp
    have l: "length (copy (pre @ cur @ d # cs) ptrs) = length ptrs" by (simp add: copy_def)
    show ?thesis
      using IH c l True by (cases "length ptrs < 9") (auto simp: push_piece_def copy_append)
  next
    case False
    from Cons.prems False have
      "explode_char_loop d cs (length pre) (length pre + length (cur @ [c])) ptrs = (start, e, ptrs')" by simp
    from Cons.IH [OF this] show ?thesis
      using False split_on_ne [of d cs] by (auto split: list.splits)
  qed
qed

lemma explode_char_split:
  assumes "s \<noteq> []"
  shows "array (explode_char d (Some s)) = map piece (take 9 (split_on d s))"
proof -
  obtain start e ptrs where l: "explode_char_loop d s 0 0 [] = (start, e, ptrs)"
    by (cases "explode_char_loop d s 0 0 []")
  have "array (explode_done s start e ptrs) = take 9 (map piece (split_on d s))"
    using explode_char_loop_split [of d s "[]" "[]" "[]" start e ptrs] l by (simp add: copy_def)
  also have "\<dots> = map piece (take 9 (split_on d s))"
    by (simp add: take_map)
  finally show ?thesis using assms l by (simp add: explode_char_def)
qed

lemma len_array: "len (explode_done s a b ps) = length (array (explode_done s a b ps))"
  by (simp add: explode_done_def Let_def copy_def)

lemma len_explode_char: "len (explode_char d t) = length (array (explode_char d t))"
  by (auto simp: explode_char_def empty_explode_def len_array split: option.split prod.split)

section \<open>Joining and splitting with a string delimiter\<close>

lemma match_delim_prefix:
  "match_delim (pre @ ds @ t) (length pre) ds = Inr (True, length pre + length ds)"
proof (induction ds arbitrary: pre)
  case (Cons d ds)
  from Cons.IH [of "pre @ [d]"] show ?case by (simp add: rd_append_hd)
qed simp

lemma explode_str_skip:
  assumes "delim \<noteq> []" and "hd delim \<notin> set p" and "c_string p"
  shows "explode_str_loop delim (pre @ p @ t) start (length pre) ptrs =
    explode_str_loop delim (pre @ p @ t) start (length pre + length p) ptrs"
  using assms
proof (induction p arbitrary: pre)
  case (Cons c p)
  from Cons.prems Cons.IH [of "pre @ [c]"] have
    "explode_str_loop delim (pre @ (c # p) @ t) start (Suc (length pre)) ptrs =
     explode_str_loop delim (pre @ (c # p) @ t) start (length pre + length (c # p)) ptrs" by simp
  moreover have "explode_str_loop delim (pre @ (c # p) @ t) start (length pre) ptrs =
      explode_str_loop delim (pre @ (c # p) @ t) start (Suc (length pre)) ptrs"
    using Cons.prems by (subst explode_str_loop.simps) (auto simp: rd_append_hd)
  ultimately show ?case by simp
qed simp

lemma explode_str_at_end:
  "explode_str_loop delim s start (length s) ptrs = Inr (start, length s, ptrs)"
  by (subst explode_str_loop.simps) simp

lemma explode_str_at_delim:
  assumes "delim \<noteq> []" and "c_string delim"
  shows "explode_str_loop delim (pre @ delim @ t) start (length pre) ptrs =
    explode_str_loop delim (pre @ delim @ t) (length (pre @ delim)) (length (pre @ delim))
      (push_piece ptrs start (length pre))"
proof -
  have r: "rd (pre @ delim @ t) (length pre) = Inr (hd delim)"
    using assms(1) by (cases delim) (simp_all add: rd_append_hd)
  have "hd delim \<noteq> NUL" using assms by (cases delim) auto
  then show ?thesis
    by (subst explode_str_loop.simps) (simp add: r assms(1) match_delim_prefix)
qed

lemma join_Cons: "ps \<noteq> [] \<Longrightarrow> join sep (p # ps) = p @ sep @ join sep ps"
  by (simp add: join_def)

lemma join_single [simp]: "join sep [p] = p"
  by (simp add: join_def)

lemma explode_str_loop_join:
  assumes d: "delim \<noteq> []" "c_string delim"
  shows "\<forall>q \<in> set (p # ps). hd delim \<notin> set q \<and> c_string q \<Longrightarrow> s = pre @ join delim (p # ps) \<Longrightarrow>
    \<exists>start e ptrs'. explode_str_loop delim s (length pre) (length pre) ptrs = Inr (start, e, ptrs') \<and>
      (array (explode_done s start e ptrs') = take 9 (copy s ptrs @ map piece (p # ps)) \<or> 9 < length ptrs)"
proof (induction ps arbitrary: p pre ptrs)
  case Nil
  then have s: "s = pre @ p @ []" by simp
  have "explode_str_loop delim s (length pre) (length pre) ptrs =
      explode_str_loop delim s (length pre) (length s) ptrs"
    unfolding s using explode_str_skip [OF d(1), of p pre "[]"] Nil.prems(1) by simp
  moreover have "copy s [(length pre, length s)] = [piece p]"
    using copy_piece [of p "length pre" s] s by simp
  moreover have "length (copy s ptrs) = length ptrs" by (simp add: copy_def)
  ultimately show ?case
    by (auto simp: explode_str_at_end explode_done_def push_piece_def Let_def copy_append)
next
  case (Cons q qs)
  let ?pre = "pre @ p @ delim"
  have s: "s = pre @ p @ delim @ join delim (q # qs)" using Cons.prems(2) by (simp add: join_Cons)
  let ?ps = "push_piece ptrs (length pre) (length (pre @ p))"
  have "explode_str_loop delim s (length pre) (length pre) ptrs =
      explode_str_loop delim s (length pre) (length (pre @ p)) ptrs"
    unfolding s using explode_str_skip [OF d(1), of p pre] Cons.prems(1) by simp
  also have "\<dots> = explode_str_loop delim s (length ?pre) (length ?pre) ?ps"
    using explode_str_at_delim [OF d, of "pre @ p" "join delim (q # qs)"] s by simp
  finally have step: "explode_str_loop delim s (length pre) (length pre) ptrs =
      explode_str_loop delim s (length ?pre) (length ?pre) ?ps" .
  have c: "copy s [(length pre, length (pre @ p))] = [piece p]"
    using copy_piece [of p "length pre" s] s by simp
  have l: "length (copy s ptrs) = length ptrs" by (simp add: copy_def)
  from Cons.prems(1) have "\<forall>r \<in> set (q # qs). hd delim \<notin> set r \<and> c_string r" by simp
  moreover have "s = ?pre @ join delim (q # qs)" using s by simp
  ultimately obtain start e ptrs'
    where r: "explode_str_loop delim s (length ?pre) (length ?pre) ?ps = Inr (start, e, ptrs')"
      and a: "array (explode_done s start e ptrs') = take 9 (copy s ?ps @ map piece (q # qs)) \<or> 9 < length ?ps"
    using Cons.IH by blast
  have t: "take (9 - length ptrs) (x # xs) = x # take (8 - length ptrs) xs"
    if "length ptrs < 9" for x :: "string option" and xs
  proof -
    have "9 - length ptrs = Suc (8 - length ptrs)" using that by simp
    then show ?thesis by simp
  qed
  show ?case
    using step r a c l t [of "piece p"]
    by (cases "length ptrs < 9") (auto simp: push_piece_def copy_append)
qed

lemma explode_str_join:
  assumes "delim \<noteq> []" and "c_string delim" and "ps \<noteq> []" and "join delim ps \<noteq> []"
    and "\<forall>q \<in> set ps. hd delim \<notin> set q \<and> c_string q"
  shows "\<exists>x. explode_str delim (Some (join delim ps)) = Inr x \<and> array x = map piece (take 9 ps) \<and> len x = length (array x)"
proof -
  from assms(3) obtain q qs where ps: "ps = q # qs" by (cases ps) auto
  with assms(5) obtain start e ptrs'
    where r: "explode_str_loop delim (join delim ps) 0 0 [] = Inr (start, e, ptrs')"
      and a: "array (explode_done (join delim ps) start e ptrs') = take 9 (map piece ps)"
    using explode_str_loop_join [OF assms(1,2), of q qs "join delim ps" "[]" "[]"]
    by (auto simp: copy_def)
  show ?thesis
    using assms(1,4) r a by (simp add: explode_str_def len_array take_map)
qed

section \<open>Properties\<close>

text \<open>
  Splitting at a character gives the first nine of the fields between its occurrences,
  in order, an empty field as NULL, and \<open>_len\<close> is the number of them.
\<close>

theorem explode_char_fields:
  assumes "s \<noteq> []"
  shows "array (explode_char d (Some s)) = map piece (take 9 (split_on d s)) \<and>
    len (explode_char d (Some s)) = length (array (explode_char d (Some s)))"
  by (simp add: explode_char_split [OF assms] len_explode_char)

lemma explode_char_fields_witness:
  "array (explode_char CHR ''|'' (Some ''a||bc'')) = [Some ''a'', None, Some ''bc'']"
  using explode_char_fields [of "''a||bc''" "CHR ''|''"] by (simp add: piece_def)

text \<open>
  Splitting at a string inverts joining with it, up to nine fields, when no field holds
  the delimiter's first character.
\<close>

theorem explode_str_inverts_join:
  assumes "delim \<noteq> []" and "c_string delim" and "ps \<noteq> []" and "join delim ps \<noteq> []"
    and "\<forall>q \<in> set ps. hd delim \<notin> set q \<and> c_string q"
  shows "\<exists>x. explode_str delim (Some (join delim ps)) = Inr x \<and> array x = map piece (take 9 ps) \<and>
    len x = length (array x)"
  by (rule explode_str_join [OF assms])

lemma explode_str_inverts_join_witness:
  "\<exists>x. explode_str ''||'' (Some ''ab||c||||d'') = Inr x \<and>
    array x = [Some ''ab'', Some ''c'', None, Some ''d''] \<and> len x = length (array x)"
  using explode_str_inverts_join [of "''||''" "[''ab'', ''c'', [], ''d'']"]
  by (simp add: join_def piece_def)

text \<open>
  A string that ends with a proper, non-empty part of the delimiter makes \<open>Explode\<close>
  step over the terminating NUL and read outside the string.
\<close>

theorem explode_str_partial_overrun:
  assumes "c_string delim" "c_string s" "hd delim \<notin> set s" "0 < k" "k < length delim"
  shows "explode_str delim (Some (s @ take k delim)) = Inl OutOfBounds"
proof -
  let ?t = "s @ take k delim"
  have ne: "delim \<noteq> []" "take k delim \<noteq> []" using assms by auto
  have len: "length ?t = length s + k" using assms by simp
  have m: "match_delim ?t (length s + i) (drop i delim) = Inr (False, length ?t)" if "i \<le> k" for i
    using that
  proof (induction i rule: inc_induct)
    case base
    have d: "drop k delim = delim ! k # drop (Suc k) delim" using assms by (simp add: Cons_nth_drop_Suc)
    have "delim ! k \<noteq> NUL" using assms c_string_nth by blast
    then show ?case unfolding d using len by (simp add: rd_def)
  next
    case (step i)
    have d: "drop i delim = delim ! i # drop (Suc i) delim" using assms step by (simp add: Cons_nth_drop_Suc)
    have "rd ?t (length s + i) = Inr (delim ! i)" using step assms by (simp add: rd_def nth_append)
    then show ?case unfolding d using step by simp
  qed
  have c: "rd ?t (length s) = Inr (hd delim)" using assms ne by (simp add: rd_def nth_append hd_conv_nth)
  have nz: "hd delim \<noteq> NUL" using assms ne by (cases delim) auto
  have o: "explode_str_loop delim ?t 0 (Suc (length ?t)) [] = Inl OutOfBounds"
  proof -
    have "rd ?t (Suc (length ?t)) = Inl OutOfBounds" by (simp only: rd_def) simp
    then show ?thesis by (subst explode_str_loop.simps) (simp only: rbind_Inl)
  qed
  have l: "explode_str_loop delim ?t 0 (length s) [] = Inl OutOfBounds"
    using c nz ne m [of 0] o by (subst explode_str_loop.simps) simp
  have "explode_str_loop delim ?t 0 0 [] = explode_str_loop delim ?t 0 (length s) []"
    using explode_str_skip [OF ne(1) assms(3,2), of "[]" "take k delim" 0 "[]"] by simp
  with l show ?thesis using ne assms by (simp add: explode_str_def)
qed

text \<open>The start-up code of \<open>src/main.cpp\<close> splits such a literal.\<close>

lemma explode_str_partial_overrun_witness:
  "explode_str ''||'' (Some (''a'' @ take 1 ''||'')) = Inl OutOfBounds"
  by (rule explode_str_partial_overrun) simp_all

end
