(* ===== verification/Memory.thy ===== *)
theory Memory
  imports Prelude
begin

text \<open>
  The memory pool of \<open>src/init/memory.hpp\<close>: three classes of fixed-size blocks in one
  region, one flag bit per block in a second region. \<open>con\<close> is the table \<open>_memory_con_\<close>
  (row, class), \<open>flags\<close> the bytes at \<open>use_ptr\<close>. What \<open>new\<close> returns is an argument of the
  operations that call it. All arithmetic is at the width of the source.
\<close>

section \<open>State\<close>

record mem =
  con :: "nat \<Rightarrow> nat \<Rightarrow> int"
  first_ptr :: int
  end_ptr :: int
  use_ptr :: int
  flags :: "8 word list"
  mem_use :: int
  mem_total :: int
  system_use :: int
  malloc_count :: int
  free_count :: int

definition m_con_len :: nat where
  "m_con_len = 3"

definition memory_con0 :: "nat \<Rightarrow> nat \<Rightarrow> int" where
  "memory_con0 r i =
     (if r = 0 then [50, 200, 1000] ! i else if r = 1 then [1, 2, 3] ! i else 0)"

definition mem0 :: mem where
  "mem0 = \<lparr>con = memory_con0, first_ptr = 0, end_ptr = 0, use_ptr = 0, flags = [],
     mem_use = 0, mem_total = 0, system_use = 0, malloc_count = 0, free_count = 0\<rparr>"

definition set_con :: "nat \<Rightarrow> nat \<Rightarrow> int \<Rightarrow> mem \<Rightarrow> mem" where
  "set_con r i v m = m\<lparr>con := (con m)(r := (con m r)(i := i32 v))\<rparr>"

definition u64 :: "int \<Rightarrow> int" where
  "u64 x = x mod 18446744073709551616"

section \<open>memory\_init\<close>

text \<open>
  One turn of the layout loop: the share of class \<open>i\<close>, rounded up to whole blocks, its range
  of addresses (still relative) and its range of flag bits. The tuple is \<open>size\<close>,
  \<open>bit_size\<close>, \<open>end\<close>.
\<close>

definition init_class :: "int \<Rightarrow> int \<Rightarrow> nat \<Rightarrow> mem \<times> int \<times> int \<times> int \<Rightarrow> mem \<times> int \<times> int \<times> int" where
  "init_class byte sum_bili i st = (case st of (mem, sz, bit_size, en) \<Rightarrow>
     (let blk = con mem 0 i;
          m0 = u32 (byte * con mem 1 i) div sum_bili;
          md = m0 mod blk;
          m = (if md \<noteq> 0 then u32 (m0 + (blk - md)) else m0);
          bit = m div blk;
          start = en;
          en' = u32 (en + bit)
      in (set_con 5 i en' (set_con 4 i start (set_con 3 i (u32 (m + sz)) (set_con 2 i sz mem))),
          u32 (sz + m), u32 (bit_size + bit), en')))"

definition rebase_class :: "int \<Rightarrow> nat \<Rightarrow> mem \<Rightarrow> mem" where
  "rebase_class base i mem =
     (let m1 = set_con 2 i (con mem 2 i + base) mem
      in set_con 3 i (con m1 3 i + base) m1)"

definition memory_init :: "int \<Rightarrow> int \<Rightarrow> int \<Rightarrow> mem \<Rightarrow> bool \<times> mem" where
  "memory_init byte0 new_first new_use mem =
     (let one_m = sum_list (map (con mem 0) [0..<m_con_len]);
          sum_bili = sum_list (map (con mem 1) [0..<m_con_len]);
          byte = (if byte0 < one_m then one_m else byte0);
          (mem1, sz, bit_size, e) = fold (init_class byte sum_bili) [0..<m_con_len] (mem, 0, 0, 0);
          bit_m = bit_size div 8 + (if bit_size mod 8 \<noteq> 0 then 1 else 0);
          mem2 = mem1\<lparr>first_ptr := new_first, use_ptr := new_use,
                      end_ptr := i32 (new_first + sz - 1), mem_use := 0, mem_total := sz,
                      flags := replicate (nat bit_m) 0\<rparr>;
          mem3 = fold (rebase_class new_first) [0..<m_con_len] mem2
      in (new_first \<noteq> 0 \<and> new_use \<noteq> 0, mem3))"

section \<open>Flag bits\<close>

text \<open>Bit \<open>i\<close> is bit \<open>i & 7\<close> of the byte \<open>i >> 3\<close>; an index outside the region is a fault.\<close>

definition flag_at :: "8 word list \<Rightarrow> nat \<Rightarrow> bool" where
  "flag_at fl i = bit (fl ! (i div 8)) (i mod 8)"

definition test_flag :: "8 word list \<Rightarrow> int \<Rightarrow> bool res" where
  "test_flag fl i =
     (if i < 0 then Inl OutOfBounds
      else rbind (rd_arr fl (nat i div 8)) (\<lambda>b. Inr (bit b (nat i mod 8))))"

definition set_flag :: "nat \<Rightarrow> 8 word list \<Rightarrow> 8 word list" where
  "set_flag i fl = fl[i div 8 := set_bit (i mod 8) (fl ! (i div 8))]"

definition clear_flag :: "nat \<Rightarrow> 8 word list \<Rightarrow> 8 word list" where
  "clear_flag i fl = fl[i div 8 := unset_bit (i mod 8) (fl ! (i div 8))]"

section \<open>memory\_alloc\<close>

definition class_of :: "mem \<Rightarrow> int \<Rightarrow> nat option" where
  "class_of mem sz = List.find (\<lambda>i. sz \<le> con mem 0 i) [0..<m_con_len]"

text \<open>\<open>for (i = bit_pos; i < end; i++)\<close> and \<open>for (i = bit_pos; i > start; i--)\<close>.\<close>

function scan_up :: "8 word list \<Rightarrow> int \<Rightarrow> int \<Rightarrow> int option res" where
  "scan_up fl i lim =
     (if i < lim then rbind (test_flag fl i) (\<lambda>b. if \<not> b then Inr (Some i) else scan_up fl (i + 1) lim)
      else Inr None)"
  by pat_completeness auto
termination by (relation "measure (\<lambda>(fl, i, lim). nat (lim - i))") auto

function scan_down :: "8 word list \<Rightarrow> int \<Rightarrow> int \<Rightarrow> int option res" where
  "scan_down fl i lim =
     (if i > lim then rbind (test_flag fl i) (\<lambda>b. if \<not> b then Inr (Some i) else scan_down fl (i - 1) lim)
      else Inr None)"
  by pat_completeness auto
termination by (relation "measure (\<lambda>(fl, i, lim). nat (i - lim))") auto

declare scan_up.simps [simp del] scan_down.simps [simp del]

definition alloc_bit_pos :: "mem \<Rightarrow> nat \<Rightarrow> int" where
  "alloc_bit_pos mem index =
     (let bit_pos = i32 (con mem 6 index + con mem 4 index)
      in if bit_pos \<ge> con mem 5 index then con mem 4 index else bit_pos)"

definition find_free :: "mem \<Rightarrow> nat \<Rightarrow> int option res" where
  "find_free mem index =
     rbind (scan_up (flags mem) (alloc_bit_pos mem index) (con mem 5 index)) (\<lambda>r.
       case r of Some i \<Rightarrow> Inr (Some i)
       | None \<Rightarrow> scan_down (flags mem) (alloc_bit_pos mem index) (con mem 4 index))"

text \<open>
  The block's address, or \<open>new_ptr\<close>, the address the run-time's \<open>new\<close> answers, when the size
  is above the largest class or no free block is found. A size below 1 yields NULL.
\<close>

definition memory_alloc :: "int \<Rightarrow> int \<Rightarrow> mem \<Rightarrow> (int \<times> mem) res" where
  "memory_alloc sz new_ptr mem =
     (if sz < 1 then Inr (0, mem)
      else let mem1 = mem\<lparr>malloc_count := u64 (malloc_count mem + 1)\<rparr> in
        case class_of mem1 sz of
          None \<Rightarrow> Inr (new_ptr, mem1\<lparr>system_use := u64 (system_use mem1 + sz)\<rparr>)
        | Some index \<Rightarrow>
            let mem2 = mem1\<lparr>mem_use := u32 (mem_use mem1 + con mem1 0 index)\<rparr>;
                mem3 = set_con 7 index (con mem2 7 index + 1) mem2
            in rbind (find_free mem3 index) (\<lambda>r.
                 case r of
                   None \<Rightarrow> Inr (new_ptr, mem3)
                 | Some free_index \<Rightarrow>
                     let offset_ptr = u32 ((free_index - con mem3 4 index) * con mem3 0 index)
                     in Inr (i32 (con mem3 2 index + offset_ptr),
                             set_con 6 index (con mem3 6 index + 1)
                               (mem3\<lparr>flags := set_flag (nat free_index) (flags mem3)\<rparr>))))"

section \<open>memory\_free\<close>

text \<open>The result's first component is the pointer handed to \<open>delete[]\<close>, if any.\<close>

definition free_class :: "mem \<Rightarrow> int \<Rightarrow> nat option" where
  "free_class mem p = List.find (\<lambda>i. con mem 2 i \<le> p \<and> p < con mem 3 i) [0..<m_con_len]"

definition memory_free :: "int \<Rightarrow> mem \<Rightarrow> (int option \<times> mem) res" where
  "memory_free ptr mem =
     (let mem1 = mem\<lparr>free_count := u64 (free_count mem + 1)\<rparr> in
      if u32 ptr \<ge> u32 (first_ptr mem1) \<and> u32 ptr \<le> u32 (end_ptr mem1) then
        (case free_class mem1 (i32 ptr) of
           None \<Rightarrow> Inr (None, mem1)
         | Some i \<Rightarrow>
             let mem2 = set_con 7 i (con mem1 7 i - 1) (mem1\<lparr>mem_use := u32 (mem_use mem1 - con mem1 0 i)\<rparr>);
                 start = u32 (c_div (i32 ptr - con mem2 2 i) (con mem2 0 i));
                 bit_pos = u32 (start + con mem2 4 i)
             in rbind (rd_arr (flags mem2) (nat bit_pos div 8)) (\<lambda>_.
                  Inr (None, mem2\<lparr>flags := clear_flag (nat bit_pos) (flags mem2)\<rparr>)))
      else Inr (Some ptr, mem1))"

definition memory_destroy :: "mem \<Rightarrow> int list" where
  "memory_destroy mem =
     (if first_ptr mem \<noteq> 0 then [first_ptr mem] else []) @ (if use_ptr mem \<noteq> 0 then [use_ptr mem] else [])"

text \<open>\<open>memory_con()\<close> hands the table out as a flat array of 24 integers.\<close>

definition memory_con :: "mem \<Rightarrow> nat \<Rightarrow> int" where
  "memory_con mem k = con mem (k div 3) (k mod 3)"

section \<open>Basic facts\<close>

lemma con_set_con [simp]: "con (set_con r i v m) r' i' = (if r' = r \<and> i' = i then i32 v else con m r' i')"
  by (simp add: set_con_def)

lemma set_con_frame [simp]:
  "first_ptr (set_con r i v m) = first_ptr m" "end_ptr (set_con r i v m) = end_ptr m"
  "use_ptr (set_con r i v m) = use_ptr m" "flags (set_con r i v m) = flags m"
  "mem_use (set_con r i v m) = mem_use m" "mem_total (set_con r i v m) = mem_total m"
  "system_use (set_con r i v m) = system_use m" "malloc_count (set_con r i v m) = malloc_count m"
  "free_count (set_con r i v m) = free_count m"
  by (simp_all add: set_con_def)

lemma flag_at_set_flag:
  assumes "i div 8 < length fl"
  shows "flag_at (set_flag i fl) j = (flag_at fl j \<or> i = j)"
proof (cases "i div 8 = j div 8")
  case True
  then have "i = j \<longleftrightarrow> i mod 8 = j mod 8" by (metis div_mod_decomp)
  then show ?thesis using True assms
    by (auto simp: flag_at_def set_flag_def bit_set_bit_iff)
next
  case False
  then show ?thesis by (auto simp: flag_at_def set_flag_def)
qed

lemma flag_at_clear_flag:
  assumes "i div 8 < length fl"
  shows "flag_at (clear_flag i fl) j = (flag_at fl j \<and> i \<noteq> j)"
proof (cases "i div 8 = j div 8")
  case True
  then have "i = j \<longleftrightarrow> i mod 8 = j mod 8" by (metis div_mod_decomp)
  then show ?thesis using True assms
    by (auto simp: flag_at_def clear_flag_def bit_unset_bit_iff)
next
  case False
  then show ?thesis by (auto simp: flag_at_def clear_flag_def)
qed

lemma length_set_flag [simp]: "length (set_flag i fl) = length fl"
  by (simp add: set_flag_def)

lemma length_clear_flag [simp]: "length (clear_flag i fl) = length fl"
  by (simp add: clear_flag_def)

lemma test_flag_in: "0 \<le> i \<Longrightarrow> i < 8 * int (length fl) \<Longrightarrow> test_flag fl i = Inr (flag_at fl (nat i))"
  by (simp add: test_flag_def flag_at_def nat_div_distrib zdiv_int)

lemma scan_up_spec:
  "0 \<le> i \<Longrightarrow> lim \<le> 8 * int (length fl) \<Longrightarrow>
   \<exists>r. scan_up fl i lim = Inr r \<and>
     (case r of Some k \<Rightarrow> i \<le> k \<and> k < lim \<and> \<not> flag_at fl (nat k)
      | None \<Rightarrow> \<forall>k. i \<le> k \<and> k < lim \<longrightarrow> flag_at fl (nat k))"
proof (induction fl i lim rule: scan_up.induct)
  case (1 fl i lim)
  show ?case
  proof (cases "i < lim")
    case True
    then have t: "test_flag fl i = Inr (flag_at fl (nat i))" using "1.prems" by (simp add: test_flag_in)
    show ?thesis
    proof (cases "flag_at fl (nat i)")
      case f: True
      with "1.IH" [OF True t] "1.prems" obtain r where r: "scan_up fl (i + 1) lim = Inr r"
        and s: "case r of Some k \<Rightarrow> i + 1 \<le> k \<and> k < lim \<and> \<not> flag_at fl (nat k)
          | None \<Rightarrow> \<forall>k. i + 1 \<le> k \<and> k < lim \<longrightarrow> flag_at fl (nat k)" by auto
      have e: "scan_up fl i lim = Inr r"
        using True t f r by (simp add: scan_up.simps [of fl i lim])
      show ?thesis
      proof (cases r)
        case None
        have "flag_at fl (nat k)" if "i \<le> k \<and> k < lim" for k
          using that s None f by (cases "k = i") auto
        with e None show ?thesis by simp
      next
        case (Some k)
        with e s show ?thesis by simp
      qed
    next
      case False
      then show ?thesis using True t by (simp add: scan_up.simps [of fl i lim])
    qed
  next
    case False
    then show ?thesis by (auto simp: scan_up.simps [of fl i lim])
  qed
qed

lemma scan_down_spec:
  "0 \<le> lim \<Longrightarrow> i < 8 * int (length fl) \<Longrightarrow>
   \<exists>r. scan_down fl i lim = Inr r \<and>
     (case r of Some k \<Rightarrow> lim < k \<and> k \<le> i \<and> \<not> flag_at fl (nat k)
      | None \<Rightarrow> \<forall>k. lim < k \<and> k \<le> i \<longrightarrow> flag_at fl (nat k))"
proof (induction fl i lim rule: scan_down.induct)
  case (1 fl i lim)
  show ?case
  proof (cases "i > lim")
    case True
    then have t: "test_flag fl i = Inr (flag_at fl (nat i))" using "1.prems" by (simp add: test_flag_in)
    show ?thesis
    proof (cases "flag_at fl (nat i)")
      case f: True
      with "1.IH" [OF True t] "1.prems" obtain r where r: "scan_down fl (i - 1) lim = Inr r"
        and s: "case r of Some k \<Rightarrow> lim < k \<and> k \<le> i - 1 \<and> \<not> flag_at fl (nat k)
          | None \<Rightarrow> \<forall>k. lim < k \<and> k \<le> i - 1 \<longrightarrow> flag_at fl (nat k)" by auto
      have e: "scan_down fl i lim = Inr r"
        using True t f r by (simp add: scan_down.simps [of fl i lim])
      show ?thesis
      proof (cases r)
        case None
        have "flag_at fl (nat k)" if "lim < k \<and> k \<le> i" for k
          using that s None f by (cases "k = i") auto
        with e None show ?thesis by simp
      next
        case (Some k)
        with e s show ?thesis by simp
      qed
    next
      case False
      then show ?thesis using True t by (simp add: scan_down.simps [of fl i lim])
    qed
  next
    case False
    then show ?thesis by (auto simp: scan_down.simps [of fl i lim])
  qed
qed


section \<open>The invariant of the pool\<close>

text \<open>
  \<open>class_ok\<close>: the blocks of class \<open>i\<close> fill its address range and each has its bit.
  \<open>mem_layout\<close>: the three classes follow one another, in addresses and in bits, inside the
  region. \<open>mem_inv\<close> adds the cursors (row 6), bounded by the number of allocations.
\<close>

definition class_ok :: "mem \<Rightarrow> nat \<Rightarrow> bool" where
  "class_ok m i \<longleftrightarrow>
     con m 0 i = [50, 200, 1000] ! i \<and>
     0 \<le> con m 4 i \<and> con m 4 i \<le> con m 5 i \<and> con m 5 i < 134217728 \<and>
     con m 5 i \<le> 8 * int (length (flags m)) \<and>
     con m 3 i = con m 2 i + con m 0 i * (con m 5 i - con m 4 i) \<and>
     first_ptr m \<le> con m 2 i \<and> con m 3 i \<le> end_ptr m + 1"

definition mem_layout :: "mem \<Rightarrow> bool" where
  "mem_layout m \<longleftrightarrow>
     class_ok m 0 \<and> class_ok m 1 \<and> class_ok m 2 \<and>
     con m 5 0 = con m 4 1 \<and> con m 5 1 = con m 4 2 \<and>
     con m 3 0 = con m 2 1 \<and> con m 3 1 = con m 2 2 \<and>
     0 < first_ptr m \<and> end_ptr m < 2147483647"

definition mem_inv :: "mem \<Rightarrow> bool" where
  "mem_inv m \<longleftrightarrow> mem_layout m \<and> 0 \<le> malloc_count m \<and> (\<forall>i < 3. 0 \<le> con m 6 i \<and> con m 6 i \<le> malloc_count m)"

text \<open>What the pool promises, without bits and rows: the set of the blocks handed out.\<close>

definition block_addr :: "mem \<Rightarrow> nat \<Rightarrow> int \<Rightarrow> int" where
  "block_addr m i k = con m 2 i + con m 0 i * (k - con m 4 i)"

definition live :: "mem \<Rightarrow> int set" where
  "live m = {p. \<exists>i < 3. \<exists>k. con m 4 i \<le> k \<and> k < con m 5 i \<and> flag_at (flags m) (nat k) \<and> p = block_addr m i k}"

definition block_size :: "mem \<Rightarrow> int \<Rightarrow> int" where
  "block_size m p = (case free_class m p of Some i \<Rightarrow> con m 0 i | None \<Rightarrow> 0)"

lemma less3: "i < (3 :: nat) \<longleftrightarrow> i = 0 \<or> i = 1 \<or> i = 2"
  by auto

lemma find_upt3: "List.find P [0..<m_con_len] =
    (if P 0 then Some 0 else if P (Suc 0) then Some 1 else if P 2 then Some 2 else None)"
  by (simp add: m_con_len_def upt_rec numeral_2_eq_2)

lemma mem_layout_class: "mem_layout m \<Longrightarrow> i < 3 \<Longrightarrow> class_ok m i"
  by (auto simp: mem_layout_def less3)

lemma class_ok_blk: "class_ok m i \<Longrightarrow> i < 3 \<Longrightarrow> 50 \<le> con m 0 i \<and> con m 0 i \<le> 1000"
  by (auto simp: class_ok_def less3)

text \<open>A block lies in the range of its own class, wholly.\<close>

lemma block_in_class:
  assumes "mem_layout m" "i < 3" "con m 4 i \<le> k" "k < con m 5 i"
  shows "con m 2 i \<le> block_addr m i k \<and> block_addr m i k + con m 0 i \<le> con m 3 i"
proof -
  have c: "class_ok m i" using assms by (simp add: mem_layout_class)
  then have b: "0 < con m 0 i" using class_ok_blk [OF c] assms by simp
  have "con m 0 i * (k - con m 4 i + 1) \<le> con m 0 i * (con m 5 i - con m 4 i)"
    using b assms by (intro mult_left_mono) auto
  moreover have "0 \<le> con m 0 i * (k - con m 4 i)" using b assms by simp
  moreover have "con m 3 i = con m 2 i + con m 0 i * (con m 5 i - con m 4 i)"
    using c by (simp add: class_ok_def)
  ultimately show ?thesis by (simp add: block_addr_def distrib_left)
qed

lemma layout_order:
  "mem_layout m \<Longrightarrow> con m 2 0 \<le> con m 3 0 \<and> con m 3 0 \<le> con m 3 1 \<and> con m 3 1 \<le> con m 3 2"
  by (auto simp: mem_layout_def class_ok_def)

lemma free_class_block:
  assumes "mem_layout m" "i < 3" "con m 4 i \<le> k" "k < con m 5 i"
    and "block_addr m i k \<le> p" "p < block_addr m i k + con m 0 i"
  shows "free_class m p = Some i"
proof -
  have r: "con m 2 i \<le> p" "p < con m 3 i" using block_in_class [OF assms(1-4)] assms(5,6) by auto
  have e: "con m 3 0 = con m 2 1" "con m 3 1 = con m 2 2" using assms(1) by (auto simp: mem_layout_def)
  show ?thesis using r e layout_order [OF assms(1)] assms(2)
    by (auto simp: free_class_def find_upt3 less3)
qed

lemma block_addr_inj:
  assumes "mem_layout m" "i < 3" "con m 4 i \<le> k" "k < con m 5 i"
    and "j < 3" "con m 4 j \<le> l" "l < con m 5 j"
    and "block_addr m i k = block_addr m j l"
  shows "i = j \<and> k = l"
proof -
  have ci: "class_ok m i" using assms by (simp add: mem_layout_class)
  have cj: "class_ok m j" using assms by (simp add: mem_layout_class)
  have b: "0 < con m 0 i" "0 < con m 0 j"
    using class_ok_blk [OF ci] class_ok_blk [OF cj] assms by auto
  have "free_class m (block_addr m i k) = Some i" by (rule free_class_block [OF assms(1-4)]) (use b in auto)
  moreover have "free_class m (block_addr m j l) = Some j"
    by (rule free_class_block [OF assms(1) assms(5-7)]) (use b in auto)
  ultimately have "i = j" using assms(8) by simp
  then show ?thesis using assms(8) b by (simp add: block_addr_def)
qed

text \<open>Distinct blocks do not share a byte.\<close>

lemma live_disjoint:
  assumes "mem_layout m" "p \<in> live m" "q \<in> live m" "p \<noteq> q"
  shows "{p ..< p + block_size m p} \<inter> {q ..< q + block_size m q} = {}"
proof -
  obtain i k where i: "i < 3" "con m 4 i \<le> k" "k < con m 5 i" "p = block_addr m i k"
    using assms(2) by (auto simp: live_def)
  obtain j l where j: "j < 3" "con m 4 j \<le> l" "l < con m 5 j" "q = block_addr m j l"
    using assms(3) by (auto simp: live_def)
  have b: "0 < con m 0 i" "0 < con m 0 j"
    using class_ok_blk [OF mem_layout_class [OF assms(1) i(1)] i(1)]
      class_ok_blk [OF mem_layout_class [OF assms(1) j(1)] j(1)] by auto
  have p: "block_size m p = con m 0 i"
    using free_class_block [OF assms(1) i(1-3), of p] b i by (simp add: block_size_def)
  have q: "block_size m q = con m 0 j"
    using free_class_block [OF assms(1) j(1-3), of q] b j by (simp add: block_size_def)
  show ?thesis
  proof (rule ccontr)
    assume "\<not> ?thesis"
    then obtain x where "x \<in> {p ..< p + block_size m p} \<inter> {q ..< q + block_size m q}" by blast
    then have x: "p \<le> x" "x < p + con m 0 i" "q \<le> x" "x < q + con m 0 j" using p q by simp_all
    have "free_class m x = Some i" using free_class_block [OF assms(1) i(1-3), of x] i x by simp
    moreover have "free_class m x = Some j" using free_class_block [OF assms(1) j(1-3), of x] j x by simp
    ultimately have ij: "i = j" by simp
    define d where "d = con m 0 i"
    have x1: "d * (k - con m 4 i) \<le> x - con m 2 i" "x - con m 2 i < d * (k - con m 4 i + 1)"
      and x2: "d * (l - con m 4 i) \<le> x - con m 2 i" "x - con m 2 i < d * (l - con m 4 i + 1)"
      using x i j ij by (simp_all add: block_addr_def d_def algebra_simps)
    have d: "0 < d" using b by (simp add: d_def)
    have "d * (k - con m 4 i) < d * (l - con m 4 i + 1)" "d * (l - con m 4 i) < d * (k - con m 4 i + 1)"
      using x1 x2 by linarith+
    then have "k = l" using d by simp
    then show False using i j ij assms(4) by simp
  qed
qed


section \<open>Allocation and release keep the invariant\<close>

text \<open>The geometry of the pool is the part of the state no allocation changes.\<close>

definition same_geometry :: "mem \<Rightarrow> mem \<Rightarrow> bool" where
  "same_geometry m m' \<longleftrightarrow>
     (\<forall>r i. r \<le> 5 \<longrightarrow> con m' r i = con m r i) \<and> first_ptr m' = first_ptr m \<and>
     end_ptr m' = end_ptr m \<and> length (flags m') = length (flags m)"

lemma same_geometry_layout: "same_geometry m m' \<Longrightarrow> mem_layout m' = mem_layout m"
  by (simp add: same_geometry_def mem_layout_def class_ok_def)

lemma same_geometry_addr: "same_geometry m m' \<Longrightarrow> block_addr m' i k = block_addr m i k"
  by (simp add: same_geometry_def block_addr_def)

lemma same_geometry_size: "same_geometry m m' \<Longrightarrow> block_size m' p = block_size m p"
  by (simp add: same_geometry_def block_size_def free_class_def find_upt3 split: option.split)

lemma same_geometry_live:
  "same_geometry m m' \<Longrightarrow>
   live m' = {p. \<exists>i < 3. \<exists>k. con m 4 i \<le> k \<and> k < con m 5 i \<and> flag_at (flags m') (nat k) \<and> p = block_addr m i k}"
  by (simp add: same_geometry_def live_def block_addr_def)

lemma mem_invI:
  "mem_layout m' \<Longrightarrow> 0 \<le> malloc_count m' \<Longrightarrow>
   (\<And>i. i < 3 \<Longrightarrow> 0 \<le> con m' 6 i \<and> con m' 6 i \<le> malloc_count m') \<Longrightarrow> mem_inv m'"
  by (simp add: mem_inv_def)

lemma alloc_bit_pos_eq:
  assumes "mem_layout m" "i < 3" "0 \<le> con m 6 i" "con m 6 i < 1073741824"
  shows "con m 4 i \<le> alloc_bit_pos m i \<and> (alloc_bit_pos m i < con m 5 i \<or> alloc_bit_pos m i = con m 4 i)"
proof -
  have c: "class_ok m i" using assms by (simp add: mem_layout_class)
  then have "i32 (con m 6 i + con m 4 i) = con m 6 i + con m 4 i"
    using assms by (intro i32_id) (auto simp: class_ok_def)
  then show ?thesis using assms c by (auto simp: alloc_bit_pos_def class_ok_def Let_def)
qed

text \<open>
  The search answers a free block of the class, or none when every block is in use but
  perhaps the first, which the search downwards does not look at.
\<close>

lemma find_free_spec:
  assumes "mem_layout m" "i < 3" "0 \<le> con m 6 i" "con m 6 i < 1073741824"
  shows "\<exists>r. find_free m i = Inr r \<and>
     (case r of Some k \<Rightarrow> con m 4 i \<le> k \<and> k < con m 5 i \<and> \<not> flag_at (flags m) (nat k)
      | None \<Rightarrow> \<forall>k. con m 4 i < k \<and> k < con m 5 i \<longrightarrow> flag_at (flags m) (nat k))"
proof -
  define b where "b = alloc_bit_pos m i"
  have b: "con m 4 i \<le> b" "b < con m 5 i \<or> b = con m 4 i" using alloc_bit_pos_eq [OF assms] by (auto simp: b_def)
  have c: "class_ok m i" using assms by (simp add: mem_layout_class)
  then have p: "0 \<le> con m 4 i" "con m 5 i \<le> 8 * int (length (flags m))" by (auto simp: class_ok_def)
  obtain r where r: "scan_up (flags m) b (con m 5 i) = Inr r"
    "case r of Some k \<Rightarrow> b \<le> k \<and> k < con m 5 i \<and> \<not> flag_at (flags m) (nat k)
      | None \<Rightarrow> \<forall>k. b \<le> k \<and> k < con m 5 i \<longrightarrow> flag_at (flags m) (nat k)"
    using scan_up_spec [of b "con m 5 i" "flags m"] b p by auto
  show ?thesis
  proof (cases r)
    case (Some k)
    then show ?thesis using r b by (auto simp: find_free_def b_def [symmetric])
  next
    case None
    show ?thesis
    proof (cases "b = con m 4 i")
      case True
      then have "scan_down (flags m) b (con m 4 i) = Inr None" by (simp add: scan_down.simps)
      then show ?thesis using None r True by (auto simp: find_free_def b_def [symmetric])
    next
      case False
      then have "b < 8 * int (length (flags m))" using b p by auto
      then obtain r' where r': "scan_down (flags m) b (con m 4 i) = Inr r'"
        "case r' of Some k \<Rightarrow> con m 4 i < k \<and> k \<le> b \<and> \<not> flag_at (flags m) (nat k)
          | None \<Rightarrow> \<forall>k. con m 4 i < k \<and> k \<le> b \<longrightarrow> flag_at (flags m) (nat k)"
        using scan_down_spec [of "con m 4 i" b "flags m"] p by auto
      show ?thesis
      proof (cases r')
        case (Some k)
        then show ?thesis using None r r' b False by (auto simp: find_free_def b_def [symmetric])
      next
        case n: None
        have "flag_at (flags m) (nat k)" if "con m 4 i < k \<and> k < con m 5 i" for k
          using that r r' None n by (cases "k \<le> b") auto
        then show ?thesis using None n r r' by (auto simp: find_free_def b_def [symmetric])
      qed
    qed
  qed
qed

lemma class_of_Some: "class_of m sz = Some i \<Longrightarrow> i < 3 \<and> sz \<le> con m 0 i"
  by (auto simp: class_of_def find_upt3 split: if_splits)

text \<open>A slot is in the live set when its bit is set, and only slots are.\<close>

definition slot :: "mem \<Rightarrow> nat \<Rightarrow> int \<Rightarrow> bool" where
  "slot m i k \<longleftrightarrow> i < 3 \<and> con m 4 i \<le> k \<and> k < con m 5 i"

lemma live_slot: "p \<in> live m \<Longrightarrow> \<exists>i k. slot m i k \<and> p = block_addr m i k"
  by (auto simp: live_def slot_def)

lemma slot_nonneg: "mem_layout m \<Longrightarrow> slot m i k \<Longrightarrow> 0 \<le> k \<and> nat k div 8 < length (flags m)"
  using mem_layout_class [of m i] by (auto simp: class_ok_def slot_def)

lemma slot_inj:
  "mem_layout m \<Longrightarrow> slot m i k \<Longrightarrow> slot m j l \<Longrightarrow> block_addr m i k = block_addr m j l \<Longrightarrow> i = j \<and> k = l"
  unfolding slot_def by (rule block_addr_inj) auto

lemma slot_class: "mem_layout m \<Longrightarrow> slot m i k \<Longrightarrow> slot m j k \<Longrightarrow> i = j"
  by (auto simp: slot_def mem_layout_def class_ok_def less3)

lemma slot_live:
  assumes "mem_layout m" "slot m i k"
  shows "block_addr m i k \<in> live m \<longleftrightarrow> flag_at (flags m) (nat k)"
proof
  assume "block_addr m i k \<in> live m"
  then obtain j l where "slot m j l" "flag_at (flags m) (nat l)" "block_addr m i k = block_addr m j l"
    by (auto simp: live_def slot_def)
  then show "flag_at (flags m) (nat k)" using slot_inj [OF assms] by blast
next
  assume "flag_at (flags m) (nat k)"
  then show "block_addr m i k \<in> live m" using assms(2) by (auto simp: live_def slot_def)
qed

lemma same_geometry_slot: "same_geometry m m' \<Longrightarrow> slot m' i k = slot m i k"
  by (simp add: same_geometry_def slot_def)

lemma live_update:
  assumes "mem_layout m" "same_geometry m m'"
    and "\<And>i k. slot m i k \<Longrightarrow> (flag_at (flags m') (nat k) \<longleftrightarrow> block_addr m i k \<in> S)"
    and "\<And>p. p \<in> S \<Longrightarrow> \<exists>i k. slot m i k \<and> p = block_addr m i k"
  shows "live m' = S"
proof (rule set_eqI)
  fix p
  have l': "mem_layout m'" using assms by (simp add: same_geometry_layout)
  show "p \<in> live m' \<longleftrightarrow> p \<in> S"
  proof (cases "\<exists>i k. slot m i k \<and> p = block_addr m i k")
    case True
    then obtain i k where s: "slot m i k" "p = block_addr m i k" by blast
    then show ?thesis
      using slot_live [OF l', of i k] assms(3) [OF s(1)]
      by (simp add: same_geometry_slot [OF assms(2)] same_geometry_addr [OF assms(2)])
  next
    case False
    then show ?thesis
      using live_slot [of p m'] assms(4) [of p]
      by (auto simp: same_geometry_slot [OF assms(2)] same_geometry_addr [OF assms(2)])
  qed
qed

lemma live_set_flag:
  assumes "mem_layout m" "slot m i k" "same_geometry m m'" "flags m' = set_flag (nat k) (flags m)"
  shows "live m' = insert (block_addr m i k) (live m)"
proof (rule live_update [OF assms(1) assms(3)])
  fix j l assume s: "slot m j l"
  have "nat k = nat l \<longleftrightarrow> k = l"
    using slot_nonneg [OF assms(1) s] slot_nonneg [OF assms(1,2)] by auto
  then show "flag_at (flags m') (nat l) = (block_addr m j l \<in> insert (block_addr m i k) (live m))"
    using slot_live [OF assms(1) s] slot_inj [OF assms(1) s assms(2)]
      slot_nonneg [OF assms(1) s] slot_nonneg [OF assms(1,2)] assms(4) slot_class [OF assms(1,2), of j] s
    by (auto simp: flag_at_set_flag slot_live [OF assms(1) assms(2)])
next
  fix p assume "p \<in> insert (block_addr m i k) (live m)"
  then show "\<exists>i k. slot m i k \<and> p = block_addr m i k" using live_slot assms(2) by auto
qed

lemma live_clear_flag:
  assumes "mem_layout m" "slot m i k" "same_geometry m m'" "flags m' = clear_flag (nat k) (flags m)"
  shows "live m' = live m - {block_addr m i k}"
proof (rule live_update [OF assms(1) assms(3)])
  fix j l assume s: "slot m j l"
  have "nat k = nat l \<longleftrightarrow> k = l"
    using slot_nonneg [OF assms(1) s] slot_nonneg [OF assms(1,2)] by auto
  then show "flag_at (flags m') (nat l) = (block_addr m j l \<in> live m - {block_addr m i k})"
    using slot_live [OF assms(1) s] slot_inj [OF assms(1) s assms(2)]
      slot_class [OF assms(1,2), of j] s slot_nonneg [OF assms(1,2)] assms(4)
    by (auto simp: flag_at_clear_flag)
next
  fix p assume "p \<in> live m - {block_addr m i k}"
  then show "\<exists>i k. slot m i k \<and> p = block_addr m i k" using live_slot by auto
qed

lemma live_same: "mem_layout m \<Longrightarrow> same_geometry m m' \<Longrightarrow> flags m' = flags m \<Longrightarrow> live m' = live m"
  by (simp add: live_def same_geometry_def block_addr_def)


lemma same_geometry_class: "same_geometry m m' \<Longrightarrow> i < 3 \<Longrightarrow> class_ok m' i = class_ok m i"
  by (simp add: same_geometry_def class_ok_def)

lemma block_addr_range:
  assumes "mem_layout m" "slot m i k"
  shows "0 < block_addr m i k \<and> first_ptr m \<le> block_addr m i k \<and>
         block_addr m i k + con m 0 i \<le> end_ptr m + 1 \<and>
         0 \<le> (k - con m 4 i) * con m 0 i \<and> (k - con m 4 i) * con m 0 i < 2147483648"
proof -
  have s: "i < 3" "con m 4 i \<le> k" "k < con m 5 i" using assms(2) by (auto simp: slot_def)
  have c: "class_ok m i" using assms s by (simp add: mem_layout_class)
  have b: "0 < con m 0 i" using class_ok_blk [OF c s(1)] by simp
  note r = block_in_class [OF assms(1) s]
  have f: "0 < first_ptr m" "end_ptr m < 2147483647" using assms(1) by (auto simp: mem_layout_def)
  have c2: "first_ptr m \<le> con m 2 i" "con m 3 i \<le> end_ptr m + 1" using c by (auto simp: class_ok_def)
  have e: "(k - con m 4 i) * con m 0 i = block_addr m i k - con m 2 i"
    by (simp add: block_addr_def mult.commute)
  show ?thesis unfolding e using r f c2 b by linarith
qed

lemma block_size_slot: "mem_layout m \<Longrightarrow> slot m i k \<Longrightarrow> block_size m (block_addr m i k) = con m 0 i"
  using free_class_block [of m i k "block_addr m i k"] class_ok_blk [OF mem_layout_class, of m i]
  by (simp add: block_size_def slot_def)

text \<open>
  One allocation: either the run-time's block with the pool's live set untouched, or a
  block of the pool that was free, that is large enough, and that is live from now on.
\<close>

lemma memory_alloc_spec:
  assumes inv: "mem_inv m" and n: "malloc_count m < 1073741824" and sz: "1 \<le> sz"
  shows "\<exists>p m'. memory_alloc sz np m = Inr (p, m') \<and> mem_inv m' \<and> same_geometry m m' \<and>
     malloc_count m' = malloc_count m + 1 \<and>
     (p = np \<and> live m' = live m \<or>
      p \<notin> live m \<and> live m' = insert p (live m) \<and> sz \<le> block_size m p \<and>
      first_ptr m \<le> p \<and> p + block_size m p \<le> end_ptr m + 1)"
proof -
  have L: "mem_layout m" and mc: "0 \<le> malloc_count m"
    and cur: "\<And>i. i < 3 \<Longrightarrow> 0 \<le> con m 6 i \<and> con m 6 i \<le> malloc_count m"
    using inv by (auto simp: mem_inv_def)
  have cur1: "0 \<le> con m 6 i \<and> con m 6 i \<le> malloc_count m + 1" if "i < 3" for i
    using cur [OF that] by auto
  define m1 where "m1 = m\<lparr>malloc_count := malloc_count m + 1\<rparr>"
  have u: "u64 (malloc_count m + 1) = malloc_count m + 1" using mc n by (simp add: u64_def)
  show ?thesis
  proof (cases "class_of m1 sz")
    case None
    define m' where "m' = m1\<lparr>system_use := u64 (system_use m1 + sz)\<rparr>"
    have r: "memory_alloc sz np m = Inr (np, m')"
      using sz None u by (simp add: memory_alloc_def m1_def m'_def Let_def)
    have g: "same_geometry m m'" by (simp add: same_geometry_def m'_def m1_def)
    have "mem_inv m'"
      by (rule mem_invI) (use g L mc cur1 in \<open>auto simp: same_geometry_layout m'_def m1_def\<close>)
    moreover have "live m' = live m" by (rule live_same [OF L g]) (simp add: m'_def m1_def)
    moreover have "malloc_count m' = malloc_count m + 1" by (simp add: m'_def m1_def)
    ultimately show ?thesis using r g by blast
  next
    case (Some i)
    then have i: "i < 3" "sz \<le> con m 0 i" using class_of_Some [of m1 sz i] by (auto simp: m1_def)
    define m3 where "m3 = set_con 7 i (con m1 7 i + 1) (m1\<lparr>mem_use := u32 (mem_use m1 + con m1 0 i)\<rparr>)"
    have g3: "same_geometry m m3" by (simp add: same_geometry_def m3_def m1_def)
    have L3: "mem_layout m3" using g3 L by (simp add: same_geometry_layout)
    have c6: "con m3 6 j = con m 6 j" for j by (simp add: m3_def m1_def)
    have fl3: "flags m3 = flags m" and mc3: "malloc_count m3 = malloc_count m + 1"
      by (simp_all add: m3_def m1_def)
    have geo: "con m3 0 i = con m 0 i" "con m3 2 i = con m 2 i" "con m3 4 i = con m 4 i" "con m3 5 i = con m 5 i"
      by (simp_all add: m3_def m1_def)
    obtain r where r: "find_free m3 i = Inr r"
      and rs: "case r of Some k \<Rightarrow> con m3 4 i \<le> k \<and> k < con m3 5 i \<and> \<not> flag_at (flags m3) (nat k)
        | None \<Rightarrow> \<forall>k. con m3 4 i < k \<and> k < con m3 5 i \<longrightarrow> flag_at (flags m3) (nat k)"
      using find_free_spec [OF L3 i(1)] cur [OF i(1)] n unfolding c6 by force
    show ?thesis
    proof (cases r)
      case None
      have e: "memory_alloc sz np m = Inr (np, m3)"
        using sz Some r None u by (simp add: memory_alloc_def m1_def m3_def Let_def)
      have "mem_inv m3"
        by (rule mem_invI) (use L3 mc cur1 in \<open>auto simp: c6 mc3\<close>)
      moreover have "live m3 = live m" by (rule live_same [OF L g3 fl3])
      ultimately show ?thesis using e g3 mc3 by blast
    next
      case k: (Some k)
      then have s: "slot m i k" "\<not> flag_at (flags m) (nat k)" using rs i geo fl3 by (auto simp: slot_def)
      define m' where "m' = set_con 6 i (con m3 6 i + 1) (m3\<lparr>flags := set_flag (nat k) (flags m3)\<rparr>)"
      note br = block_addr_range [OF L s(1)]
      have p: "i32 (con m3 2 i + u32 ((k - con m3 4 i) * con m3 0 i)) = block_addr m i k"
      proof -
        have "u32 ((k - con m 4 i) * con m 0 i) = (k - con m 4 i) * con m 0 i"
          using br by (intro u32_id) auto
        moreover have "con m 2 i + (k - con m 4 i) * con m 0 i = block_addr m i k"
          by (simp add: block_addr_def mult.commute)
        moreover have "i32 (block_addr m i k) = block_addr m i k"
          using br L class_ok_blk [OF mem_layout_class [OF L i(1)] i(1)]
          by (intro i32_id) (auto simp: mem_layout_def)
        ultimately show ?thesis using geo by simp
      qed
      have e: "memory_alloc sz np m = Inr (block_addr m i k, m')"
        using sz Some r k u p by (simp add: memory_alloc_def m1_def m3_def m'_def Let_def)
      have g: "same_geometry m m'" using g3 by (simp add: same_geometry_def m'_def)
      have "mem_inv m'"
      proof (rule mem_invI)
        show "mem_layout m'" using g L by (simp add: same_geometry_layout)
        show "0 \<le> malloc_count m'" using mc by (simp add: m'_def mc3)
        fix j :: nat assume "j < 3"
        then have "0 \<le> con m 6 j" "con m 6 j \<le> malloc_count m" using cur by auto
        moreover have "i32 (con m 6 j + 1) = con m 6 j + 1" using calculation n by (intro i32_id) auto
        ultimately show "0 \<le> con m' 6 j \<and> con m' 6 j \<le> malloc_count m'"
          by (cases "j = i") (simp_all add: m'_def mc3 c6)
      qed
      moreover have "live m' = insert (block_addr m i k) (live m)"
        by (rule live_set_flag [OF L s(1) g]) (simp add: m'_def fl3)
      moreover have "block_addr m i k \<notin> live m" using s slot_live [OF L s(1)] by simp
      moreover have "malloc_count m' = malloc_count m + 1" by (simp add: m'_def mc3)
      ultimately show ?thesis using e g i(2) block_size_slot [OF L s(1)] br by auto
    qed
  qed
qed

text \<open>
  One release: a live block of the pool becomes free and nothing else changes; a pointer
  outside the region goes to \<open>delete[]\<close>.
\<close>

lemma memory_free_spec:
  assumes inv: "mem_inv m" and p: "p \<in> live m"
  shows "\<exists>m'. memory_free p m = Inr (None, m') \<and> mem_inv m' \<and> same_geometry m m' \<and>
     malloc_count m' = malloc_count m \<and> live m' = live m - {p}"
proof -
  have L: "mem_layout m" and mc: "0 \<le> malloc_count m"
    and cur: "\<And>i. i < 3 \<Longrightarrow> 0 \<le> con m 6 i \<and> con m 6 i \<le> malloc_count m"
    using inv by (auto simp: mem_inv_def)
  obtain i k where s: "slot m i k" "p = block_addr m i k" using live_slot [OF p] by auto
  then have i: "i < 3" "con m 4 i \<le> k" "k < con m 5 i" by (auto simp: slot_def)
  note br = block_addr_range [OF L s(1), folded s(2)]
  have c: "class_ok m i" using L i by (simp add: mem_layout_class)
  have b: "0 < con m 0 i" using class_ok_blk [OF c i(1)] by simp
  have ep: "end_ptr m < 2147483647" "0 < first_ptr m" using L by (auto simp: mem_layout_def)
  define m1 where "m1 = m\<lparr>free_count := u64 (free_count m + 1)\<rparr>"
  define m2 where "m2 = set_con 7 i (con m1 7 i - 1) (m1\<lparr>mem_use := u32 (mem_use m1 - con m1 0 i)\<rparr>)"
  define m' where "m' = m2\<lparr>flags := clear_flag (nat k) (flags m2)\<rparr>"
  have small: "u32 p = p" "i32 p = p" "u32 (first_ptr m) = first_ptr m" "u32 (end_ptr m) = end_ptr m"
    using br b ep by (auto simp: u32_id i32_id)
  have fc: "free_class m1 p = Some i"
    using free_class_block [OF L i, of p] s(2) b by (simp add: free_class_def m1_def)
  have "p - con m 2 i = con m 0 i * (k - con m 4 i)" using s(2) by (simp add: block_addr_def)
  then have "c_div (p - con m 2 i) (con m 0 i) = k - con m 4 i"
    using b i by (simp add: c_div_nonneg)
  moreover have "u32 (k - con m 4 i) = k - con m 4 i" "u32 k = k"
    using i c by (auto simp: class_ok_def intro!: u32_id)
  ultimately have pos: "u32 (u32 (c_div (p - con m 2 i) (con m 0 i)) + con m 4 i) = k" by simp
  have e: "memory_free p m = Inr (None, m')"
    using br b fc pos small slot_nonneg [OF L s(1)]
    by (simp add: memory_free_def m1_def m2_def m'_def Let_def)
  have g: "same_geometry m m'" by (simp add: same_geometry_def m'_def m2_def m1_def)
  have "mem_inv m'"
    by (rule mem_invI) (use g L mc cur in \<open>auto simp: same_geometry_layout m'_def m2_def m1_def\<close>)
  moreover have "live m' = live m - {p}"
    unfolding s(2) by (rule live_clear_flag [OF L s(1) g]) (simp add: m'_def m2_def m1_def)
  moreover have "malloc_count m' = malloc_count m" by (simp add: m'_def m2_def m1_def)
  ultimately show ?thesis using e g by blast
qed

lemma memory_free_outside:
  assumes "0 < first_ptr m" "first_ptr m \<le> end_ptr m + 1" "end_ptr m < 2147483647" "0 \<le> p" "p < 4294967296" "p < first_ptr m \<or> end_ptr m < p"
  shows "memory_free p m = Inr (Some p, m\<lparr>free_count := u64 (free_count m + 1)\<rparr>)"
  using assms by (auto simp: memory_free_def Let_def u32_id)


section \<open>The invariant at the start\<close>

definition init_blocks :: "int \<Rightarrow> int \<Rightarrow> int \<Rightarrow> int" where
  "init_blocks byte share blk = (u32 (byte * share) div 6 + (blk - 1)) div blk"

lemma round_up:
  assumes "0 \<le> (m :: int)" "0 < b"
  shows "(if m mod b \<noteq> 0 then m + (b - m mod b) else m) = b * ((m + (b - 1)) div b)"
proof (cases "m mod b = 0")
  case True
  then obtain q where "m = b * q" by auto
  then show ?thesis using True assms by simp
next
  case False
  then have "(m + (b - 1)) div b = m div b + 1"
  proof -
    have lt: "m mod b < b" "0 < m mod b"
      using assms False pos_mod_sign [of b m] pos_mod_bound [of b m] by linarith+
    have "m + (b - 1) = (m mod b - 1) + (m div b + 1) * b" by (simp add: algebra_simps)
    also have "\<dots> div b = m div b + 1"
    proof -
      have "(m mod b - 1) div b = 0" by (rule div_pos_pos_trivial) (use lt in auto)
      then show ?thesis using assms by simp
    qed
    finally show ?thesis .
  qed
  then show ?thesis using False by (simp add: algebra_simps minus_mod_eq_div_mult [symmetric])
qed

lemma init_class_eq:
  assumes "con mem 0 i = blk" "con mem 1 i = share" "0 < blk" "0 \<le> sz" "0 \<le> bs" "0 \<le> en"
    and q: "q = init_blocks byte share blk"
    and "sz + blk * q < 2147483648" "bs + q < 2147483648" "en + q < 2147483648" "0 \<le> q"
  shows "init_class byte 6 i (mem, sz, bs, en) =
    (set_con 5 i (en + q) (set_con 4 i en (set_con 3 i (sz + blk * q) (set_con 2 i sz mem))),
     sz + blk * q, bs + q, en + q)"
proof -
  define m0 where "m0 = u32 (byte * share) div 6"
  have m0: "0 \<le> m0" using u32_bounds [of "byte * share"] by (simp add: m0_def pos_imp_zdiv_nonneg_iff)
  have r: "(if m0 mod blk \<noteq> 0 then m0 + (blk - m0 mod blk) else m0) = blk * q"
    using round_up [OF m0 assms(3)] by (simp add: q init_blocks_def m0_def)
  have bq: "0 \<le> blk * q" using assms by simp
  have "(if m0 mod blk \<noteq> 0 then u32 (m0 + (blk - m0 mod blk)) else m0) = blk * q"
    using r bq assms by (auto split: if_splits intro!: u32_id)
  moreover have "u32 (sz + blk * q) = sz + blk * q" "u32 (bs + q) = bs + q" "u32 (en + q) = en + q"
    using bq assms(4-6) assms(8-11) by (simp_all add: u32_id)
  moreover have "blk * q div blk = q" using assms(3) by simp
  ultimately show ?thesis
    using assms(1,2) by (simp only: init_class_def Let_def m0_def [symmetric] prod.case add.commute [of "blk * q" sz])
qed

lemma init_blocks_bounds:
  assumes "0 \<le> byte" "byte \<le> 1000000000" "0 < blk" "0 \<le> share" "share \<le> 3"
  shows "0 \<le> init_blocks byte share blk \<and> blk * init_blocks byte share blk \<le> byte * share div 6 + (blk - 1)"
proof -
  have "byte * share \<le> 1000000000 * 3" using assms by (intro mult_mono) auto
  then have "u32 (byte * share) = byte * share" using assms by (intro u32_id) auto
  moreover have "blk * ((byte * share div 6 + (blk - 1)) div blk) \<le> byte * share div 6 + (blk - 1)"
    using assms(3) pos_mod_sign [of blk "byte * share div 6 + (blk - 1)"]
      mult_div_mod_eq [of blk "byte * share div 6 + (blk - 1)"] by linarith
  moreover have "0 \<le> (byte * share div 6 + (blk - 1)) div blk"
    using assms by (simp add: pos_imp_zdiv_nonneg_iff)
  ultimately show ?thesis by (simp add: init_blocks_def)
qed

lemma memory_init_spec:
  assumes "0 \<le> byte" "byte \<le> 1000000000" "0 < first" "first + byte < 2147480000" "use \<noteq> 0"
  shows "fst (memory_init byte first use mem0)" "mem_inv (snd (memory_init byte first use mem0))"
    "live (snd (memory_init byte first use mem0)) = {}"
    "byte \<le> mem_total (snd (memory_init byte first use mem0)) + 2"
proof -
  define b where "b = (if byte < 1250 then 1250 else byte)"
  define q0 where "q0 = init_blocks b 1 50"
  define q1 where "q1 = init_blocks b 2 200"
  define q2 where "q2 = init_blocks b 3 1000"
  have b: "0 \<le> b" "b \<le> 1000000000" "byte \<le> b" "first + b < 2147481250"
    using assms by (auto simp: b_def)
  have q: "0 \<le> q0" "50 * q0 \<le> b div 6 + 49" "0 \<le> q1" "200 * q1 \<le> b * 2 div 6 + 199"
    "0 \<le> q2" "1000 * q2 \<le> b * 3 div 6 + 999"
    using init_blocks_bounds [OF b(1,2), of 50 1] init_blocks_bounds [OF b(1,2), of 200 2]
      init_blocks_bounds [OF b(1,2), of 1000 3] by (auto simp: q0_def q1_def q2_def)
  define t where "t = 50 * q0 + 200 * q1 + 1000 * q2"
  have t: "t \<le> b + 1247" "0 \<le> t" using q by (auto simp: t_def)
  define n where "n = q0 + q1 + q2"
  have n: "n < 100000000" using q b by (simp add: n_def)
  define m1 where "m1 = set_con 5 0 q0 (set_con 4 0 0 (set_con 3 0 (50 * q0) (set_con 2 0 0 mem0)))"
  define m2 where "m2 = set_con 5 1 (q0 + q1) (set_con 4 1 q0 (set_con 3 1 (50 * q0 + 200 * q1) (set_con 2 1 (50 * q0) m1)))"
  define m3 where "m3 = set_con 5 2 n (set_con 4 2 (q0 + q1) (set_con 3 2 t (set_con 2 2 (50 * q0 + 200 * q1) m2)))"
  have s1: "init_class b 6 0 (mem0, 0, 0, 0) = (m1, 50 * q0, q0, q0)"
    using init_class_eq [of mem0 0 50 1 0 0 0 q0 b] q b by (simp add: mem0_def memory_con0_def q0_def m1_def)
  have s2: "init_class b 6 1 (m1, 50 * q0, q0, q0) = (m2, 50 * q0 + 200 * q1, q0 + q1, q0 + q1)"
    using init_class_eq [of m1 1 200 2 "50 * q0" q0 q0 q1 b] q b
    by (simp add: m1_def mem0_def memory_con0_def q1_def m2_def)
  have s3: "init_class b 6 2 (m2, 50 * q0 + 200 * q1, q0 + q1, q0 + q1) = (m3, t, n, n)"
    using init_class_eq [of m2 2 1000 3 "50 * q0 + 200 * q1" "q0 + q1" "q0 + q1" q2 b] q b
    by (simp add: m1_def m2_def mem0_def memory_con0_def q2_def m3_def t_def n_def)
  define bit_m where "bit_m = n div 8 + (if n mod 8 \<noteq> 0 then 1 else 0)"
  define m4 where "m4 = m3\<lparr>first_ptr := first, use_ptr := use, end_ptr := i32 (first + t - 1), mem_use := 0,
      mem_total := t, flags := replicate (nat bit_m) 0\<rparr>"
  define m5 where "m5 = rebase_class first 2 (rebase_class first 1 (rebase_class first 0 m4))"
  have up: "[0..<m_con_len] = [0, 1, 2]" by (simp add: m_con_len_def upt_rec)
  have c0: "con mem0 0 0 = 50" "con mem0 0 1 = 200" "con mem0 0 2 = 1000"
     "con mem0 1 0 = 1" "con mem0 1 1 = 2" "con mem0 1 2 = 3" by (simp_all add: mem0_def memory_con0_def)
  have init: "memory_init byte first use mem0 = (first \<noteq> 0 \<and> use \<noteq> 0, m5)"
    unfolding memory_init_def up
    using s1 s2 s3 c0
    by (simp add: Let_def b_def [symmetric] m5_def m4_def bit_m_def)
  have ir: "i32 v = v" if "0 \<le> v" "v < 2147483648" for v using that by (simp add: i32_id)
  have bm: "n \<le> 8 * int (nat bit_m)"
  proof -
    have "n = 8 * (n div 8) + n mod 8" by simp
    moreover have "n mod 8 < 8" by simp
    ultimately show ?thesis by (auto simp: bit_m_def n_def)
  qed
  have con5: "con m5 0 0 = 50" "con m5 0 1 = 200" "con m5 0 2 = 1000" "con m5 4 0 = 0" "con m5 5 0 = q0"
    "con m5 4 1 = q0" "con m5 5 1 = q0 + q1" "con m5 4 2 = q0 + q1" "con m5 5 2 = n"
    "con m5 2 0 = first" "con m5 3 0 = first + 50 * q0" "con m5 2 1 = first + 50 * q0"
    "con m5 3 1 = first + (50 * q0 + 200 * q1)" "con m5 2 2 = first + (50 * q0 + 200 * q1)"
    "con m5 3 2 = first + t" "con m5 6 0 = 0" "con m5 6 1 = 0" "con m5 6 2 = 0"
    using q b t n assms
    by (simp_all add: m5_def rebase_class_def Let_def m4_def m3_def m2_def m1_def mem0_def
        memory_con0_def ir n_def t_def)
  have rest: "first_ptr m5 = first" "end_ptr m5 = first + t - 1" "flags m5 = replicate (nat bit_m) 0"
    "mem_total m5 = t" "malloc_count m5 = 0"
    using t b assms
    by (simp_all add: m5_def rebase_class_def Let_def m4_def m3_def m2_def m1_def mem0_def ir)
  show "fst (memory_init byte first use mem0)" using assms by (simp add: init)
  have "mem_layout m5"
    using q b t n bm assms con5 rest
    by (simp add: mem_layout_def class_ok_def n_def t_def)
  then show "mem_inv (snd (memory_init byte first use mem0))"
    using con5 by (auto simp: init mem_inv_def rest less3)
  show "live (snd (memory_init byte first use mem0)) = {}"
  proof -
    have "\<not> flag_at (flags m5) (nat k)" if "slot m5 i k" for i k
      using slot_nonneg [OF \<open>mem_layout m5\<close> that] by (simp add: flag_at_def rest)
    then show ?thesis by (auto simp: init live_def slot_def)
  qed
  have "b \<le> t + 2"
  proof -
    have "b * s div 6 \<le> blk * init_blocks b s blk" if "0 < blk" "0 \<le> s" "s \<le> 3" for s blk
    proof -
      have "b * s \<le> 1000000000 * 3" using b that by (intro mult_mono) auto
      then have u: "u32 (b * s) = b * s" using b that by (intro u32_id) auto
      have "(b * s div 6 + (blk - 1)) mod blk < blk" using that by simp
      then have "b * s div 6 \<le> blk * ((b * s div 6 + (blk - 1)) div blk)"
        using mult_div_mod_eq [of blk "b * s div 6 + (blk - 1)"] by linarith
      then show ?thesis by (simp add: u init_blocks_def)
    qed
    from this [of 50 1] this [of 200 2] this [of 1000 3]
    have "b div 6 \<le> 50 * q0" "b * 2 div 6 \<le> 200 * q1" "b * 3 div 6 \<le> 1000 * q2"
      by (simp_all add: q0_def q1_def q2_def)
    then show ?thesis by (simp add: t_def)
  qed
  then show "byte \<le> mem_total (snd (memory_init byte first use mem0)) + 2"
    using b by (simp add: init rest)
qed


section \<open>The contract of an allocator\<close>

text \<open>
  What the rest of the program relies on: an allocation answers either the run-time's own
  block or a block that was not live, a release makes exactly its block available again.
  A schedule of requests keeps the list of pool blocks its clients hold.
\<close>

datatype request = Alloc int int | Release int

text \<open>
  The clients of the pool: a request \<open>Release p\<close> is only made by the holder of \<open>p\<close>; the
  list holds the pool's blocks in use, most recent first. \<open>own\<close> says whether an address is
  the pool's.
\<close>

fun serve :: "(int \<Rightarrow> int \<Rightarrow> 's \<Rightarrow> (int \<times> 's) res) \<Rightarrow> (int \<Rightarrow> 's \<Rightarrow> (int option \<times> 's) res) \<Rightarrow>
    ('s \<Rightarrow> int \<Rightarrow> bool) \<Rightarrow> request list \<Rightarrow> 's \<times> int list \<Rightarrow> ('s \<times> int list) res" where
  "serve al fr own [] st = Inr st"
| "serve al fr own (Alloc sz np # rs) st =
     rbind (al sz np (fst st)) (\<lambda>(p, s'). serve al fr own rs (s', if own (fst st) p then p # snd st else snd st))"
| "serve al fr own (Release p # rs) st =
     (if p \<in> set (snd st)
      then rbind (fr p (fst st)) (\<lambda>(_, s'). serve al fr own rs (s', remove1 p (snd st)))
      else serve al fr own rs st)"

definition request_ok :: "('s \<Rightarrow> int \<Rightarrow> bool) \<Rightarrow> 's \<Rightarrow> request \<Rightarrow> bool" where
  "request_ok own s r = (case r of Alloc sz np \<Rightarrow> 1 \<le> sz \<and> \<not> own s np | Release p \<Rightarrow> True)"

locale allocator =
  fixes al :: "int \<Rightarrow> int \<Rightarrow> 's \<Rightarrow> (int \<times> 's) res"
    and fr :: "int \<Rightarrow> 's \<Rightarrow> (int option \<times> 's) res"
    and own :: "'s \<Rightarrow> int \<Rightarrow> bool"
    and blocks :: "'s \<Rightarrow> int set"
    and ok :: "'s \<Rightarrow> bool"
    and budget :: "'s \<Rightarrow> nat"
  assumes alloc_law: "ok s \<Longrightarrow> 0 < budget s \<Longrightarrow> 1 \<le> sz \<Longrightarrow>
      \<exists>p s'. al sz np s = Inr (p, s') \<and> ok s' \<and> own s' = own s \<and> budget s = Suc (budget s') \<and>
        (p = np \<and> blocks s' = blocks s \<or> own s p \<and> p \<notin> blocks s \<and> blocks s' = insert p (blocks s))"
    and free_law: "ok s \<Longrightarrow> p \<in> blocks s \<Longrightarrow>
      \<exists>r s'. fr p s = Inr (r, s') \<and> ok s' \<and> own s' = own s \<and> budget s' = budget s \<and> blocks s' = blocks s - {p}"
begin

text \<open>Two clients never hold the same block, and the pool's live blocks are the ones held.\<close>

lemma serve_held:
  "ok s \<Longrightarrow> distinct held \<Longrightarrow> blocks s = set held \<Longrightarrow> length rs \<le> budget s \<Longrightarrow>
   (\<And>r. r \<in> set rs \<Longrightarrow> request_ok own s r) \<Longrightarrow>
   \<exists>s' held'. serve al fr own rs (s, held) = Inr (s', held') \<and> ok s' \<and> distinct held' \<and> blocks s' = set held'"
proof (induction rs arbitrary: s held)
  case Nil
  then show ?case by simp
next
  case (Cons r rs)
  have rest: "request_ok own s q" if "q \<in> set (r # rs)" for q using Cons.prems(5) that by blast
  show ?case
  proof (cases r)
    case (Alloc sz np)
    then have r: "1 \<le> sz" "\<not> own s np" using rest [of r] by (auto simp: request_ok_def)
    obtain p s' where a: "al sz np s = Inr (p, s')" "ok s'" "own s' = own s" "budget s = Suc (budget s')"
      "p = np \<and> blocks s' = blocks s \<or> own s p \<and> p \<notin> blocks s \<and> blocks s' = insert p (blocks s)"
      using alloc_law [of s sz np] Cons.prems r by auto
    let ?h = "if own s p then p # held else held"
    have h: "distinct ?h" "blocks s' = set ?h" using a(5) r Cons.prems(2,3) by auto
    have "request_ok own s' q" if "q \<in> set rs" for q using rest [of q] that a(3) by (auto simp: request_ok_def split: request.splits)
    then show ?thesis
      using Cons.IH [OF a(2) h] Cons.prems(4) a(1,4) by (auto simp: Alloc)
  next
    case (Release p)
    show ?thesis
    proof (cases "p \<in> set held")
      case True
      then obtain q s' where f: "fr p s = Inr (q, s')" "ok s'" "own s' = own s" "budget s' = budget s"
        "blocks s' = blocks s - {p}" using free_law [of s p] Cons.prems by auto
      have h: "distinct (remove1 p held)" "blocks s' = set (remove1 p held)"
        using f(5) Cons.prems(2,3) by auto
      have "request_ok own s' q" if "q \<in> set rs" for q using rest [of q] that f(3) by (auto simp: request_ok_def split: request.splits)
      then show ?thesis
        using Cons.IH [OF f(2) h] Cons.prems(4) f(1,4) True by (auto simp: Release)
    next
      case False
      have "\<exists>s' held'. serve al fr own rs (s, held) = Inr (s', held') \<and> ok s' \<and> distinct held' \<and> blocks s' = set held'"
        by (rule Cons.IH) (use Cons.prems rest in auto)
      then show ?thesis using False by (simp add: Release)
    qed
  qed
qed

end

text \<open>The address is in the pool's region.\<close>

definition in_pool :: "mem \<Rightarrow> int \<Rightarrow> bool" where
  "in_pool m p \<longleftrightarrow> first_ptr m \<le> p \<and> p \<le> end_ptr m"

definition alloc_budget :: "mem \<Rightarrow> nat" where
  "alloc_budget m = nat (1073741824 - malloc_count m)"

lemma in_pool_same: "same_geometry m m' \<Longrightarrow> in_pool m' = in_pool m"
  by (auto simp: same_geometry_def in_pool_def)

lemma block_size_pos: "mem_layout m \<Longrightarrow> p \<in> live m \<Longrightarrow> 0 < block_size m p"
  using live_slot [of p m] block_size_slot [of m] class_ok_blk [OF mem_layout_class, of m]
  by (fastforce simp: slot_def)

interpretation pool: allocator memory_alloc memory_free in_pool live mem_inv alloc_budget
proof
  fix s sz np assume "mem_inv s" "0 < alloc_budget s" "(1 :: int) \<le> sz"
  then obtain p m' where r: "memory_alloc sz np s = Inr (p, m')" "mem_inv m'" "same_geometry s m'"
     "malloc_count m' = malloc_count s + 1"
     "p = np \<and> live m' = live s \<or> p \<notin> live s \<and> live m' = insert p (live s) \<and> sz \<le> block_size s p \<and>
      first_ptr s \<le> p \<and> p + block_size s p \<le> end_ptr s + 1"
    using memory_alloc_spec [of s sz np] by (auto simp: alloc_budget_def)
  have "in_pool m' = in_pool s" by (rule in_pool_same [OF r(3)])
  moreover have "alloc_budget s = Suc (alloc_budget m')"
    using r(4) \<open>0 < alloc_budget s\<close> by (simp add: alloc_budget_def)
  moreover have "p = np \<and> live m' = live s \<or> in_pool s p \<and> p \<notin> live s \<and> live m' = insert p (live s)"
    using r(5) \<open>1 \<le> sz\<close> by (auto simp: in_pool_def)
  ultimately show "\<exists>p s'. memory_alloc sz np s = Inr (p, s') \<and> mem_inv s' \<and> in_pool s' = in_pool s \<and>
      alloc_budget s = Suc (alloc_budget s') \<and>
      (p = np \<and> live s' = live s \<or> in_pool s p \<and> p \<notin> live s \<and> live s' = insert p (live s))"
    using r by blast
next
  fix s p assume "mem_inv s" "p \<in> live s"
  then obtain m' where r: "memory_free p s = Inr (None, m')" "mem_inv m'" "same_geometry s m'"
     "malloc_count m' = malloc_count s" "live m' = live s - {p}"
    using memory_free_spec [of s p] by auto
  have "in_pool m' = in_pool s" by (rule in_pool_same [OF r(3)])
  moreover have "alloc_budget m' = alloc_budget s" using r(4) by (simp add: alloc_budget_def)
  ultimately show "\<exists>r s'. memory_free p s = Inr (r, s') \<and> mem_inv s' \<and> in_pool s' = in_pool s \<and>
      alloc_budget s' = alloc_budget s \<and> live s' = live s - {p}"
    using r by blast
qed


section \<open>Properties\<close>

text \<open>
  C25: \<open>memory_init\<close> establishes the invariant of the pool: contiguous classes, a bit for
  each block, no block in use, and at least the requested number of bytes but two (the
  shares of the three classes are rounded down before they are rounded up to blocks).
\<close>

theorem memory_init_establishes:
  assumes "0 \<le> byte" "byte \<le> 1000000000" "0 < first" "first + byte < 2147480000" "use \<noteq> 0"
  shows "fst (memory_init byte first use mem0) \<and> mem_inv (snd (memory_init byte first use mem0)) \<and>
    live (snd (memory_init byte first use mem0)) = {} \<and>
    byte \<le> mem_total (snd (memory_init byte first use mem0)) + 2"
  using memory_init_spec [OF assms] by blast

lemma memory_init_establishes_witness:
  "mem_inv (snd (memory_init 10000 1000 500 mem0)) \<and> live (snd (memory_init 10000 1000 500 mem0)) = {}"
  using memory_init_establishes [of 10000 1000 500] by simp

text \<open>
  C7: starting from \<open>memory_init\<close>, any sequence of allocations and releases (fewer than
  2^30 of them) runs without a fault, and no pool block is ever handed out while a client
  still holds it: the blocks held are distinct and are exactly the pool's live blocks.
\<close>

theorem pool_never_shares:
  assumes "0 \<le> byte" "byte \<le> 1000000000" "0 < first" "first + byte < 2147480000" "use \<noteq> 0"
    and "m = snd (memory_init byte first use mem0)" "length rs \<le> 1073741824"
    and "list_all (request_ok in_pool m) rs"
  shows "\<exists>m' held. serve memory_alloc memory_free in_pool rs (m, []) = Inr (m', held) \<and>
    mem_inv m' \<and> distinct held \<and> live m' = set held"
proof -
  note i = memory_init_spec [OF assms(1-5), folded assms(6)]
  have "malloc_count m = 0"
  proof -
    have frame: "malloc_count (fold (rebase_class b) xs s) = malloc_count s" for b xs s
      by (induction xs arbitrary: s) (simp_all add: rebase_class_def Let_def)
    have "malloc_count (fst (init_class b sb k st)) = malloc_count (fst st)" for b sb k st
      by (cases st) (simp add: init_class_def Let_def)
    then have "malloc_count (fst (fold (init_class b sb) xs st)) = malloc_count (fst st)" for b sb xs st
      by (induction xs arbitrary: st) simp_all
    from this [of _ _ _ "(mem0, 0, 0, 0)"] show ?thesis
      unfolding assms(6) memory_init_def Let_def
      by (simp add: frame split_beta mem0_def)
  qed
  then have "length rs \<le> alloc_budget m" using assms(7) by (simp add: alloc_budget_def)
  then show ?thesis using pool.serve_held [of m "[]" rs] i assms(8) by (simp add: list_all_iff)
qed

text \<open>A run of the pool: two blocks, one given back, one more handed out, one from the run-time.\<close>

lemma pool_never_shares_witness:
  "\<exists>m' held. serve memory_alloc memory_free in_pool [Alloc 60 5, Alloc 40 6, Release 1010, Alloc 5000 7]
     (snd (memory_init 10000 1000 500 mem0), []) = Inr (m', held) \<and>
    mem_inv m' \<and> distinct held \<and> live m' = set held"
proof (rule pool_never_shares [of 10000 1000 500])
  have "first_ptr (snd (memory_init 10000 1000 500 mem0)) = 1000"
    by (simp add: memory_init_def Let_def split_beta rebase_class_def m_con_len_def upt_rec)
  then show "list_all (request_ok in_pool (snd (memory_init 10000 1000 500 mem0)))
      [Alloc 60 5, Alloc 40 6, Release 1010, Alloc 5000 7]"
    by (simp add: request_ok_def in_pool_def)
qed simp_all

text \<open>
  C24: two different live blocks of the pool do not share a byte, over the whole length
  of their class, and each is at least as long as the request it was answered for.
\<close>

theorem memory_alloc_fresh:
  assumes "mem_inv m" "malloc_count m < 1073741824" "1 \<le> sz" "\<not> in_pool m np"
    and "memory_alloc sz np m = Inr (p, m')" "in_pool m p" "q \<in> live m"
  shows "{p ..< p + sz} \<inter> {q ..< q + block_size m q} = {} \<and> sz \<le> block_size m p \<and> live m' = insert p (live m)"
proof -
  obtain p2 m2 where r: "memory_alloc sz np m = Inr (p2, m2)" "mem_inv m2" "same_geometry m m2"
    "p2 = np \<and> live m2 = live m \<or> p2 \<notin> live m \<and> live m2 = insert p2 (live m) \<and> sz \<le> block_size m p2"
    using memory_alloc_spec [OF assms(1-3), of np] by auto
  then have e: "p \<notin> live m" "live m' = insert p (live m)" "sz \<le> block_size m p" "same_geometry m m'" "mem_inv m'"
    using assms(4-6) by auto
  then have "{p ..< p + block_size m' p} \<inter> {q ..< q + block_size m' q} = {}"
    using assms(7) by (intro live_disjoint) (auto simp: mem_inv_def)
  then show ?thesis using e same_geometry_size [OF e(4)] by fastforce
qed

lemma memory_alloc_fresh_witness:
  "\<exists>m m'. memory_alloc 40 6 m = Inr (1000, m') \<and> 2700 \<in> live m \<and>
     {1000 ..< 1000 + (40 :: int)} \<inter> {2700 ..< 2700 + block_size m 2700} = {} \<and> live m' = insert 1000 (live m)"
proof -
  define m0 where "m0 = snd (memory_init 10000 1000 500 mem0)"
  have i: "mem_inv m0" "live m0 = {}" using memory_init_spec [of 10000 1000 500] by (simp_all add: m0_def)
  have c: "rbind (memory_alloc 60 5 m0) (\<lambda>(q, m). rbind (memory_alloc 40 6 m) (\<lambda>(p, m').
      Inr (q, p, first_ptr m, end_ptr m, malloc_count m, malloc_count m0))) = Inr (2700, 1000, 1000, 11099, 1, 0)"
    unfolding m0_def by code_simp
  then obtain m m' where a: "memory_alloc 60 5 m0 = Inr (2700, m)" "memory_alloc 40 6 m = Inr (1000, m')"
      "first_ptr m = 1000" "end_ptr m = 11099" "malloc_count m = 1" "malloc_count m0 = 0"
    by (auto simp: rbind_eq_Inr)
  have m: "mem_inv m" "2700 \<in> live m" using memory_alloc_spec [of m0 60 5] i a by auto
  have "{1000 ..< 1000 + (40 :: int)} \<inter> {2700 ..< 2700 + block_size m 2700} = {} \<and> 40 \<le> block_size m 1000 \<and>
      live m' = insert 1000 (live m)"
    by (rule memory_alloc_fresh [of m 40 6]) (use m a in \<open>simp_all add: in_pool_def\<close>)
  then show ?thesis using a m by blast
qed

text \<open>
  When no free block of the class is found, the allocation answers the run-time's block
  but has raised the class counters, and the release of that block does not lower them: each
  such round trip leaves \<open>use\<close> and the class's count (row 7) one block too high for ever.
\<close>

theorem pool_fallback_keeps_count:
  assumes "mem_layout m" "1 \<le> sz" "class_of m sz = Some i" "find_free m i = Inr None"
    and "end_ptr m < np" "np < 4294967296"
  shows "\<exists>m1 m2. memory_alloc sz np m = Inr (np, m1) \<and> memory_free np m1 = Inr (Some np, m2) \<and>
     mem_use m2 = u32 (mem_use m + con m 0 i) \<and> con m2 7 i = i32 (con m 7 i + 1) \<and> live m2 = live m"
proof -
  define m1 where "m1 = set_con 7 i (con m 7 i + 1)
      (m\<lparr>malloc_count := u64 (malloc_count m + 1), mem_use := u32 (mem_use m + con m 0 i)\<rparr>)"
  have same: "con m1 4 = con m 4" "con m1 5 = con m 5" "con m1 6 = con m 6" "flags m1 = flags m"
    by (simp_all add: m1_def set_con_def)
  have "find_free m1 i = Inr None" using assms(4) by (simp only: find_free_def alloc_bit_pos_def same)
  then have a: "memory_alloc sz np m = Inr (np, m1)"
    using assms(2,3) by (simp add: memory_alloc_def Let_def m1_def class_of_def)
  have o: "0 < first_ptr m1" "first_ptr m1 \<le> end_ptr m1 + 1" "end_ptr m1 < 2147483647"
    using assms(1) by (auto simp: m1_def mem_layout_def class_ok_def)
  have f: "memory_free np m1 = Inr (Some np, m1\<lparr>free_count := u64 (free_count m1 + 1)\<rparr>)"
    by (rule memory_free_outside [OF o]) (use assms o in \<open>auto simp: m1_def\<close>)
  have "same_geometry m (m1\<lparr>free_count := u64 (free_count m1 + 1)\<rparr>)" by (simp add: same_geometry_def m1_def)
  then have "live (m1\<lparr>free_count := u64 (free_count m1 + 1)\<rparr>) = live m"
    by (rule live_same [OF assms(1)]) (simp add: m1_def)
  then show ?thesis using a f by (auto simp: m1_def)
qed

text \<open>A pool whose second class is in use but for its first block, seen from the end of the class.\<close>

definition full_pool :: mem where
  "full_pool = (snd (memory_init 10000 1000 500 mem0))
     \<lparr>flags := replicate 7 255, con := (con (snd (memory_init 10000 1000 500 mem0)))(6 := (\<lambda>_. 10))\<rparr>"

lemma pool_fallback_keeps_count_witness:
  "\<exists>m1 m2. memory_alloc 60 99999 full_pool = Inr (99999, m1) \<and> memory_free 99999 m1 = Inr (Some 99999, m2) \<and>
     mem_use m2 = u32 (mem_use full_pool + con full_pool 0 1) \<and>
     con m2 7 1 = i32 (con full_pool 7 1 + 1) \<and> live m2 = live full_pool"
proof (rule pool_fallback_keeps_count)
  show "mem_layout full_pool" by code_simp
  show "class_of full_pool 60 = Some 1" by code_simp
  show "find_free full_pool 1 = Inr None" by code_simp
  show "end_ptr full_pool < 99999" by code_simp
qed simp_all

end
