(* ===== verification/Json.thy ===== *)
theory Json
  imports CText
begin

text \<open>
  The parser and the look-ups of \<open>src/source/simple_json.hpp\<close>. A pointer into the message is
  an index; the list of \<open>JsonValue\<close>s linked by \<open>next\<close> is a list; a child list that was
  never assigned is empty (\<open>p->child = NULL\<close>). \<open>_phead\<close> is not set by the constructor:
  \<open>None\<close> is its indeterminate value. The reference is a grammar of documents with its
  printer.
\<close>

section \<open>Values and scanning\<close>

datatype JsonValue = JsonValue (jkey: "string option") (jvalue: "string option") (jchild: "JsonValue list")

text \<open>
  Where a scanning loop leaves: \<open>Fail\<close> is the jump to \<open>error\<close> with \<open>m\<close> at that position,
  \<open>Stop\<close> the end of the loop with the recorded end, if any.
\<close>

datatype scan = Fail nat | Stop "nat option" nat

text \<open>\<open>while (*m == ' ') m++\<close>.\<close>

function skip_sp :: "string \<Rightarrow> nat \<Rightarrow> nat res" where
  "skip_sp s m = rbind (rd s m) (\<lambda>c. if c = CHR '' '' then skip_sp s (Suc m) else Inr m)"
  by pat_completeness auto
termination
  by (relation "measure (\<lambda>(s, m). Suc (length s) - m)") (auto dest: rd_Inr_le)

declare skip_sp.simps [simp del]

definition is_quote :: "char \<Rightarrow> bool" where
  "is_quote c \<longleftrightarrow> c = CHR 0x27 \<or> c = CHR 0x22"

text \<open>Skip blanks, then demand \<open>:\<close>.\<close>

definition want_colon :: "string \<Rightarrow> nat \<Rightarrow> nat \<Rightarrow> scan res" where
  "want_colon s end' m =
     rbind (skip_sp s m) (\<lambda>k. rbind (rd s k) (\<lambda>d.
       if d \<noteq> CHR '':'' then Inr (Fail k) else Inr (Stop (Some end') k)))"

text \<open>The loop over the characters of a key; \<open>sign\<close> is the opening quote or 0.\<close>

function key_loop :: "string \<Rightarrow> char \<Rightarrow> nat \<Rightarrow> scan res" where
  "key_loop s sign m = rbind (rd s m) (\<lambda>c.
     if c = NUL then Inr (Stop None m)
     else if c = sign then want_colon s m (Suc m)
     else if sign = NUL \<and> c = CHR '':'' then Inr (Stop (Some m) m)
     else if c = CHR '' '' then (if sign \<noteq> NUL then Inr (Fail m) else want_colon s m m)
     else key_loop s sign (Suc m))"
  by pat_completeness auto
termination
  by (relation "measure (\<lambda>(s, sign, m). Suc (length s) - m)") (auto dest: rd_Inr_le)

declare key_loop.simps [simp del]

text \<open>A quoted or bare key from \<open>m\<close> on: its first position and how the loop left.\<close>

definition parse_key :: "string \<Rightarrow> nat \<Rightarrow> (nat \<times> scan) res" where
  "parse_key s m =
     rbind (skip_sp s m) (\<lambda>m. rbind (rd s m) (\<lambda>c.
       let sign = (if is_quote c then c else NUL);
           start = (if is_quote c then Suc m else m)
       in rbind (key_loop s sign start) (\<lambda>r. Inr (start, r))))"

text \<open>Skip blanks, then demand \<open>,\<close> or \<open>}\<close>.\<close>

definition want_sep :: "string \<Rightarrow> nat \<Rightarrow> nat \<Rightarrow> scan res" where
  "want_sep s end' m =
     rbind (skip_sp s m) (\<lambda>k. rbind (rd s k) (\<lambda>d.
       if d \<noteq> CHR '','' \<and> d \<noteq> CHR ''}'' then Inr (Fail k) else Inr (Stop (Some end') k)))"

definition is_digit :: "char \<Rightarrow> bool" where
  "is_digit c \<longleftrightarrow> digit c"

function value_loop :: "string \<Rightarrow> char \<Rightarrow> nat \<Rightarrow> scan res" where
  "value_loop s sign m = rbind (rd s m) (\<lambda>c.
     if c = NUL then Inr (Stop None m)
     else rbind (rd s (m - 1)) (\<lambda>prev.
       if sign = c \<and> prev \<noteq> CHR 0x5C then want_sep s m (Suc m)
       else if sign = NUL \<and> \<not> is_digit c \<and> c = CHR '' '' then want_sep s m m
       else if sign = NUL \<and> \<not> is_digit c \<and> (c = CHR '','' \<or> c = CHR ''}'') then Inr (Stop (Some m) m)
       else if sign = NUL \<and> \<not> is_digit c \<and> c \<noteq> CHR ''.'' then Inr (Fail m)
       else value_loop s sign (Suc m)))"
  by pat_completeness auto
termination
  by (relation "measure (\<lambda>(s, sign, m). Suc (length s) - m)") (auto dest: rd_Inr_le)

declare value_loop.simps [simp del]

text \<open>A value that is not an object, from \<open>m\<close> on: its first position and how the loop left.\<close>

definition parse_value :: "string \<Rightarrow> nat \<Rightarrow> (nat \<times> scan) res" where
  "parse_value s m = rbind (rd s m) (\<lambda>c.
     if is_quote c then rbind (value_loop s c (Suc m)) (\<lambda>r. Inr (Suc m, r))
     else rbind (skip_sp s m) (\<lambda>k. rbind (rd s k) (\<lambda>d.
            rbind (value_loop s NUL (if d = CHR ''-'' then Suc k else k)) (\<lambda>r. Inr (m, r)))))"

text \<open>\<open>copy_str\<close> under the guard \<open>value.end > value.start\<close>, NULL otherwise.\<close>

definition copy_value :: "char \<Rightarrow> string \<Rightarrow> nat \<Rightarrow> nat option \<Rightarrow> string option" where
  "copy_value junk s start e =
     (case e of None \<Rightarrow> None | Some e \<Rightarrow> if start < e then copy_str junk s start e else None)"

section \<open>parseString\<close>

text \<open>
  The loop of \<open>parseString\<close> from position \<open>m\<close>, as parser of the whole message (\<open>ch\<close> false) or
  of a child: the values linked so far when it leaves and the position where it leaves. Each
  turn consumes a character, so the fuel, the first argument, never runs out when it is
  larger than what is left of the message. \<open>junk\<close> is the byte \<open>copy_str\<close> may leave.
\<close>

fun parse_loop :: "nat \<Rightarrow> char \<Rightarrow> string \<Rightarrow> bool \<Rightarrow> nat \<Rightarrow> (JsonValue list \<times> nat) res" where
  "parse_loop 0 junk s ch m = Inl Hang"
| "parse_loop (Suc n) junk s ch m = rbind (rd s m) (\<lambda>c0.
     if c0 = NUL then Inr ([], Suc m)
     else rbind (rd s (Suc m)) (\<lambda>c.
       if c = CHR ''}'' \<and> ch then Inr ([], Suc m)
       else rbind (parse_key s (Suc m)) (\<lambda>(start, k).
         case k of
           Fail e \<Rightarrow> Inr ([], e)
         | Stop ke colon \<Rightarrow>
             if (case ke of None \<Rightarrow> True | Some e \<Rightarrow> e \<le> start) then Inr ([], colon)
             else
               let key = copy_value junk s start ke;
                   go_on = (\<lambda>p m. rbind (rd s m) (\<lambda>x.
                     if x = CHR ''}'' \<and> ch then Inr ([p], m)
                     else rbind (parse_loop n junk s ch m) (\<lambda>(ps, e). Inr (p # ps, e))))
               in rbind (skip_sp s (Suc colon)) (\<lambda>v. rbind (rd s v) (\<lambda>d.
                    if d = CHR ''{'' then
                      rbind (parse_loop n junk s True v) (\<lambda>(kids, e).
                        go_on (JsonValue key None kids) (Suc e))
                    else rbind (parse_value s v) (\<lambda>(vstart, r).
                      case r of
                        Fail e \<Rightarrow> Inr ([JsonValue key None []], e)
                      | Stop ve e \<Rightarrow> go_on (JsonValue key (copy_value junk s vstart ve) []) e))))))"

declare parse_loop.simps(2) [simp del]

text \<open>
  \<open>parseString(string)\<close>: \<open>_phead\<close> is assigned with the first value, and keeps its
  indeterminate value when there is none.
\<close>

type_synonym phead = "JsonValue list option"

definition parseString :: "char \<Rightarrow> string \<Rightarrow> phead \<Rightarrow> (int \<times> phead) res" where
  "parseString junk s phead =
     rbind (parse_loop (Suc (length s)) junk s False 0) (\<lambda>(ps, e).
       Inr (int e, if ps = [] then phead else Some ps))"

section \<open>Look-ups\<close>

fun find_key :: "string \<Rightarrow> JsonValue list \<Rightarrow> JsonValue option res" where
  "find_key key [] = Inr None"
| "find_key key (p # ps) =
     (case jkey p of None \<Rightarrow> Inl NullDeref
      | Some k \<Rightarrow> if strcmp_eq k key then Inr (Some p) else find_key key ps)"

definition getJsonValue :: "phead \<Rightarrow> string \<Rightarrow> JsonValue option res" where
  "getJsonValue phead key = (case phead of None \<Rightarrow> Inl Uninit | Some ps \<Rightarrow> find_key key ps)"

definition json_value :: "phead \<Rightarrow> string \<Rightarrow> string option res" where
  "json_value phead key =
     rbind (getJsonValue phead key) (\<lambda>p. Inr (case p of None \<Rightarrow> None | Some p \<Rightarrow> jvalue p))"

definition valueToInt :: "phead \<Rightarrow> string \<Rightarrow> int res" where
  "valueToInt phead key =
     rbind (json_value phead key) (\<lambda>v. Inr (case v of None \<Rightarrow> 0 | Some t \<Rightarrow> atoi t))"

text \<open>
  \<open>valueToFloat\<close> and \<open>valueToDouble\<close> pass the value to \<open>atof\<close> without a test; \<open>atof\<close> is the
  C library's, a parameter.
\<close>

definition valueToFloat :: "(string \<Rightarrow> 'd) \<Rightarrow> phead \<Rightarrow> string \<Rightarrow> 'd res" where
  "valueToFloat atof phead key =
     rbind (json_value phead key) (\<lambda>v. case v of None \<Rightarrow> Inl NullDeref | Some t \<Rightarrow> Inr (atof t))"

definition valueToDouble :: "(string \<Rightarrow> 'd) \<Rightarrow> phead \<Rightarrow> string \<Rightarrow> 'd res" where
  "valueToDouble atof phead key =
     rbind (json_value phead key) (\<lambda>v. case v of None \<Rightarrow> Inl NullDeref | Some t \<Rightarrow> Inr (atof t))"

text \<open>
  \<open>_getChildValue(ptr, curr, total, child)\<close>: \<open>ptr\<close> holds the positions of the dots of the
  path \<open>key\<close> and of its end. The comparison runs over the longer of the path's segment and
  the first child's key.
\<close>

function getChildValue :: "string \<Rightarrow> nat list \<Rightarrow> nat \<Rightarrow> nat \<Rightarrow> JsonValue list \<Rightarrow> string option res"
  and getChildValue_loop :: "string \<Rightarrow> nat list \<Rightarrow> nat \<Rightarrow> nat \<Rightarrow> nat \<Rightarrow> JsonValue list \<Rightarrow> string option res" where
  "getChildValue key ptr cur tot [] = Inr None"
| "getChildValue key ptr cur tot (c # cs) =
     (case jkey c of None \<Rightarrow> Inl NullDeref
      | Some k \<Rightarrow>
          rbind (rd_arr ptr cur) (\<lambda>p1. rbind (rd_arr ptr (cur - 1)) (\<lambda>p0.
            getChildValue_loop key ptr cur tot (max (p1 - p0 - 1) (length k)) (c # cs))))"
| "getChildValue_loop key ptr cur tot n [] = Inr None"
| "getChildValue_loop key ptr cur tot n (p # ps) =
     (case jkey p of None \<Rightarrow> Inl NullDeref
      | Some k \<Rightarrow>
          rbind (rd_arr ptr (cur - 1)) (\<lambda>p0. rbind (strneq k 0 key (Suc p0) n) (\<lambda>eq.
            if eq then (if tot \<le> cur then Inr (jvalue p) else getChildValue key ptr (Suc cur) tot (jchild p))
            else getChildValue_loop key ptr cur tot n ps)))"
  by pat_completeness auto
termination
proof (relation "measure (\<lambda>x. case x of Inl (_, _, _, _, cs) \<Rightarrow> 2 * size_list size cs + 1
    | Inr (_, _, _, _, _, cs) \<Rightarrow> 2 * size_list size cs)", goal_cases)
  case 1
  then show ?case by simp
next
  case (2 key ptr cur tot c cs)
  then show ?case by simp
next
  case (3 key ptr cur tot n p ps)
  then show ?case by (cases p) simp
next
  case (4 key ptr cur tot n p ps)
  then show ?case by simp
qed

text \<open>The positions of the dots, then the end: what the second loop of \<open>valueOfChild\<close> stores.\<close>

fun dot_positions :: "nat \<Rightarrow> string \<Rightarrow> nat list" where
  "dot_positions i [] = [i]"
| "dot_positions i (c # cs) = (if c = CHR ''.'' then [i] else []) @ dot_positions (Suc i) cs"

text \<open>
  \<open>valueOfChild(key)\<close>. The counter \<open>dim\<close> is reset before the array is allocated, so one
  pointer is asked for; \<open>room\<close> is how many the block really holds.
\<close>

fun first_prefix :: "string \<Rightarrow> nat \<Rightarrow> JsonValue list \<Rightarrow> JsonValue option res" where
  "first_prefix key n [] = Inr None"
| "first_prefix key n (p # ps) =
     (case jkey p of None \<Rightarrow> Inl NullDeref
      | Some k \<Rightarrow> rbind (strneq k 0 key 0 n) (\<lambda>eq. if eq then Inr (Some p) else first_prefix key n ps))"

definition valueOfChild :: "nat \<Rightarrow> phead \<Rightarrow> string \<Rightarrow> string option res" where
  "valueOfChild room phead key =
     (let ptr = dot_positions 0 key; dim = length ptr - 1
      in if room < length ptr then Inl OutOfBounds
         else case phead of None \<Rightarrow> Inl Uninit
           | Some ps \<Rightarrow> rbind (first_prefix key (ptr ! 0) ps) (\<lambda>r.
               case r of None \<Rightarrow> Inr None
               | Some p \<Rightarrow> if dim = 0 then Inr (jvalue p) else getChildValue key ptr 1 dim (jchild p)))"

text \<open>
  \<open>clear\<close>: the number of blocks given back. A child list that is NULL never reaches the
  recursive call, so the \<open>NULL\<close> default (which restarts at \<open>_phead\<close>) is not taken inside.
\<close>

fun clear_count :: "JsonValue \<Rightarrow> nat" where
  "clear_count (JsonValue k v cs) =
     sum_list (map clear_count cs) + (if k = None then 0 else 1) + (if v = None then 0 else 1) + 1"

definition json_clear :: "phead \<Rightarrow> nat res" where
  "json_clear phead = (case phead of None \<Rightarrow> Inl Uninit | Some ps \<Rightarrow> Inr (sum_list (map clear_count ps)))"

text \<open>\<open>echoV\<close> prints the keys and values of the top level.\<close>

definition echoV :: "phead \<Rightarrow> (string option \<times> string option) list res" where
  "echoV phead = (case phead of None \<Rightarrow> Inl Uninit | Some ps \<Rightarrow> Inr (map (\<lambda>p. (jkey p, jvalue p)) ps))"

section \<open>Where the scanning loops leave\<close>

text \<open>
  \<open>scan_ok s m r\<close>: the only fault is a read past the end, and the position reached lies
  between \<open>m\<close> and the end of the message.
\<close>

fun scan_pos :: "scan \<Rightarrow> nat" where
  "scan_pos (Fail m) = m"
| "scan_pos (Stop e m) = m"

definition res_ok :: "('a \<Rightarrow> nat) \<Rightarrow> string \<Rightarrow> nat \<Rightarrow> 'a res \<Rightarrow> bool" where
  "res_ok f s m r = (case r of Inl e \<Rightarrow> e = OutOfBounds | Inr x \<Rightarrow> m \<le> f x \<and> f x \<le> length s)"

lemma res_ok_simps [simp]:
  "res_ok f s m (Inl e) = (e = OutOfBounds)"
  "res_ok f s m (Inr x) = (m \<le> f x \<and> f x \<le> length s)"
  by (simp_all add: res_ok_def)

lemma res_ok_mono: "res_ok f s k r \<Longrightarrow> m \<le> k \<Longrightarrow> res_ok f s m r"
  by (auto simp: res_ok_def split: sum.splits)

lemma res_ok_bind:
  "res_ok f s m r \<Longrightarrow> (\<And>x. r = Inr x \<Longrightarrow> m \<le> f x \<Longrightarrow> f x \<le> length s \<Longrightarrow> res_ok g s (f x) (h x)) \<Longrightarrow>
   res_ok g s m (rbind r h)"
  by (cases r) (auto intro: res_ok_mono)

lemma res_ok_rd:
  "(\<And>c. rd s m = Inr c \<Longrightarrow> m \<le> length s \<Longrightarrow> res_ok g s k (h c)) \<Longrightarrow> res_ok g s k (rbind (rd s m) h)"
  by (cases "rd s m") (auto simp: rd_def split: if_splits)

lemma skip_sp_ok: "res_ok id s m (skip_sp s m)"
proof (induction s m rule: skip_sp.induct)
  case (1 s m)
  have "res_ok id s m (skip_sp s (Suc m))" if "rd s m = Inr (CHR '' '')"
    by (rule res_ok_mono [OF "1.IH" [OF that refl]]) simp
  then show ?case
    by (subst skip_sp.simps, intro res_ok_rd) (simp split: if_split)
qed

lemma want_colon_ok: "res_ok scan_pos s m (want_colon s e m)"
  unfolding want_colon_def
  by (rule res_ok_bind [OF skip_sp_ok], rule res_ok_rd) auto

lemma want_sep_ok: "res_ok scan_pos s m (want_sep s e m)"
  unfolding want_sep_def
  by (rule res_ok_bind [OF skip_sp_ok], rule res_ok_rd) auto

lemma key_loop_ok: "res_ok scan_pos s m (key_loop s sign m)"
proof (induction s sign m rule: key_loop.induct)
  case (1 s sign m)
  have w: "res_ok scan_pos s m (want_colon s m (Suc m))"
    by (rule res_ok_mono [OF want_colon_ok]) simp
  show ?case
  proof (subst key_loop.simps, rule res_ok_rd)
    fix c assume c: "rd s m = Inr c" "m \<le> length s"
    have ih: "res_ok scan_pos s m (key_loop s sign (Suc m))"
      if "c \<noteq> NUL" "c \<noteq> sign" "\<not> (sign = NUL \<and> c = CHR '':'')" "c \<noteq> CHR '' ''"
      by (rule res_ok_mono [OF "1.IH" [OF c(1)]]) (use that in auto)
    show "res_ok scan_pos s m (if c = NUL then Inr (Stop None m)
     else if c = sign then want_colon s m (Suc m)
     else if sign = NUL \<and> c = CHR '':'' then Inr (Stop (Some m) m)
     else if c = CHR '' '' then (if sign \<noteq> NUL then Inr (Fail m) else want_colon s m m)
     else key_loop s sign (Suc m))"
      using ih w want_colon_ok [of s m m] c by (simp split: if_split)
  qed
qed

lemma value_loop_ok: "res_ok scan_pos s m (value_loop s sign m)"
proof (induction s sign m rule: value_loop.induct)
  case (1 s sign m)
  have w: "res_ok scan_pos s m (want_sep s m (Suc m))"
    by (rule res_ok_mono [OF want_sep_ok]) simp
  show ?case
  proof (subst value_loop.simps, rule res_ok_rd)
    fix c assume c: "rd s m = Inr c" "m \<le> length s"
    then obtain p where p: "rd s (m - 1) = Inr p" using rd_le [of "m - 1" s] by force
    have ih: "res_ok scan_pos s m (value_loop s sign (Suc m))"
      if "c \<noteq> NUL" "\<not> (sign = c \<and> p \<noteq> CHR 0x5C)" "\<not> (sign = NUL \<and> \<not> is_digit c \<and> c = CHR '' '')"
        "\<not> (sign = NUL \<and> \<not> is_digit c \<and> (c = CHR '','' \<or> c = CHR ''}''))"
        "\<not> (sign = NUL \<and> \<not> is_digit c \<and> c \<noteq> CHR ''.'')"
      by (rule res_ok_mono [OF "1.IH" [OF c(1) _ p]]) (use that in auto)
    show "res_ok scan_pos s m (if c = NUL then Inr (Stop None m)
       else rbind (rd s (m - 1)) (\<lambda>prev.
         if sign = c \<and> prev \<noteq> CHR 0x5C then want_sep s m (Suc m)
         else if sign = NUL \<and> \<not> is_digit c \<and> c = CHR '' '' then want_sep s m m
         else if sign = NUL \<and> \<not> is_digit c \<and> (c = CHR '','' \<or> c = CHR ''}'') then Inr (Stop (Some m) m)
         else if sign = NUL \<and> \<not> is_digit c \<and> c \<noteq> CHR ''.'' then Inr (Fail m)
         else value_loop s sign (Suc m)))"
      unfolding p rbind_Inr using ih w want_sep_ok [of s m m] c by (simp split: if_split)
  qed
qed

lemma parse_key_ok: "res_ok (\<lambda>x. scan_pos (snd x)) s m (parse_key s m)"
  unfolding parse_key_def
proof (rule res_ok_bind [OF skip_sp_ok], rule res_ok_rd)
  fix x c assume "m \<le> id x" "id x \<le> length s" and c: "rd s x = Inr c"
  let ?st = "if is_quote c then Suc x else x"
  have "res_ok scan_pos s x (key_loop s q ?st)" for q by (rule res_ok_mono [OF key_loop_ok]) simp
  then show "res_ok (\<lambda>x. scan_pos (snd x)) s (id x) (let sign = if is_quote c then c else NUL; start = ?st
        in rbind (key_loop s sign start) (\<lambda>r. Inr (start, r)))"
    unfolding Let_def id_apply by (rule res_ok_bind) auto
qed

lemma parse_value_ok: "res_ok (\<lambda>x. scan_pos (snd x)) s m (parse_value s m)"
  unfolding parse_value_def
proof (rule res_ok_rd)
  fix c assume c: "rd s m = Inr c"
  show "res_ok (\<lambda>x. scan_pos (snd x)) s m (if is_quote c then rbind (value_loop s c (Suc m)) (\<lambda>r. Inr (Suc m, r))
     else rbind (skip_sp s m) (\<lambda>k. rbind (rd s k) (\<lambda>d.
            rbind (value_loop s NUL (if d = CHR ''-'' then Suc k else k)) (\<lambda>r. Inr (m, r)))))"
  proof (cases "is_quote c")
    case True
    have "res_ok scan_pos s m (value_loop s c (Suc m))" by (rule res_ok_mono [OF value_loop_ok]) simp
    then show ?thesis unfolding if_P [OF True] by (rule res_ok_bind) auto
  next
    case False
    show ?thesis unfolding if_not_P [OF False]
    proof (rule res_ok_bind [OF skip_sp_ok], rule res_ok_rd)
      fix k d
      have "res_ok scan_pos s k (value_loop s NUL (if d = CHR ''-'' then Suc k else k))"
        by (rule res_ok_mono [OF value_loop_ok]) simp
      then show "res_ok (\<lambda>x. scan_pos (snd x)) s (id k)
          (rbind (value_loop s NUL (if d = CHR ''-'' then Suc k else k)) (\<lambda>r. Inr (m, r)))"
        unfolding id_apply by (rule res_ok_bind) auto
    qed
  qed
qed

text \<open>
  The parser consumes at least one character in each turn: with more fuel than characters
  left it never runs out, and the only fault is a read past the end of the message.
\<close>

definition parse_ok :: "nat \<Rightarrow> (JsonValue list \<times> nat) res \<Rightarrow> bool" where
  "parse_ok m r = (case r of Inl f \<Rightarrow> f = OutOfBounds | Inr (ps, e) \<Rightarrow> m < e)"

lemma parse_ok_simps [simp]:
  "parse_ok m (Inl f) = (f = OutOfBounds)"
  "parse_ok m (Inr (ps, e)) = (m < e)"
  by (simp_all add: parse_ok_def)

lemma parse_ok_rd:
  "(\<And>c. rd s k = Inr c \<Longrightarrow> k \<le> length s \<Longrightarrow> parse_ok m (h c)) \<Longrightarrow> parse_ok m (rbind (rd s k) h)"
  by (cases "rd s k") (auto simp: rd_def split: if_splits)

lemma parse_ok_bind:
  "res_ok f s k r \<Longrightarrow> (\<And>x. r = Inr x \<Longrightarrow> k \<le> f x \<Longrightarrow> f x \<le> length s \<Longrightarrow> parse_ok m (h x)) \<Longrightarrow>
   parse_ok m (rbind r h)"
  by (cases r) auto

lemma parse_ok_rec:
  "parse_ok k r \<Longrightarrow> (\<And>ps e. r = Inr (ps, e) \<Longrightarrow> k < e \<Longrightarrow> parse_ok m (h (ps, e))) \<Longrightarrow> parse_ok m (rbind r h)"
  by (cases r) auto

lemma parse_loop_ok: "0 < n \<Longrightarrow> length s < n + m \<Longrightarrow> parse_ok m (parse_loop n junk s ch m)"
proof (induction n arbitrary: ch m)
  case 0
  then show ?case by simp
next
  case (Suc n)
  have go_on: "parse_ok m (rbind (rd s k) (\<lambda>x. if x = CHR ''}'' \<and> ch then Inr ([p], k)
      else rbind (parse_loop n junk s ch k) (\<lambda>(ps, e). Inr (p # ps, e))))" if "m < k" for p k
  proof (rule parse_ok_rd)
    fix x assume "rd s k = Inr x" "k \<le> length s"
    then have "parse_ok k (parse_loop n junk s ch k)" using Suc.prems that by (intro Suc.IH) auto
    then have "parse_ok m (rbind (parse_loop n junk s ch k) (\<lambda>(ps, e). Inr (p # ps, e)))"
      by (rule parse_ok_rec) (use that in auto)
    then show "parse_ok m (if x = CHR ''}'' \<and> ch then Inr ([p], k)
      else rbind (parse_loop n junk s ch k) (\<lambda>(ps, e). Inr (p # ps, e)))" using that by simp
  qed
  have child: "parse_ok m (rbind (parse_loop n junk s True v) (\<lambda>(kids, e).
      rbind (rd s (Suc e)) (\<lambda>x. if x = CHR ''}'' \<and> ch then Inr ([p kids], Suc e)
        else rbind (parse_loop n junk s ch (Suc e)) (\<lambda>(ps, e). Inr (p kids # ps, e)))))"
    if "m < v" "v \<le> length s" for v p
    by (rule parse_ok_rec [OF Suc.IH]) (use Suc.prems that go_on in auto)
  have val: "parse_ok m (rbind (parse_value s v) (\<lambda>(vstart, r).
      case r of Fail e \<Rightarrow> Inr ([q], e)
      | Stop ve e \<Rightarrow> rbind (rd s e) (\<lambda>x. if x = CHR ''}'' \<and> ch then Inr ([p vstart ve], e)
        else rbind (parse_loop n junk s ch e) (\<lambda>(ps, e). Inr (p vstart ve # ps, e)))))"
    if "m < v" for v p q
    apply (rule parse_ok_bind [OF parse_value_ok])
    subgoal for x using that by (cases x; cases "snd x") (auto intro: go_on split del: if_split)
    done
  show ?case
    unfolding parse_loop.simps(2) Let_def
    apply (rule parse_ok_rd)
    apply (split if_split, intro conjI impI)
     apply simp
    apply (rule parse_ok_rd)
    apply (split if_split, intro conjI impI)
     apply simp
    apply (rule parse_ok_bind [OF parse_key_ok])
    subgoal for c0 c x
      apply (cases x)
      subgoal for start k
        apply (cases k)
         apply simp
        apply (simp split del: if_split)
        apply (split if_split, intro conjI impI)
         apply simp
        apply (rule parse_ok_bind [OF skip_sp_ok])
        apply (rule parse_ok_rd)
        apply (split if_split, intro conjI impI)
        subgoal by (simp split del: if_split, rule child) auto
        subgoal by (simp split del: if_split, rule val) auto
        done
      done
    done
qed

section \<open>The reference grammar\<close>

text \<open>
  Documents as the client sends them: quoted keys; texts, whole numbers and objects as values.
\<close>

datatype jdoc = JText string string | JNum string int | JObj string "jdoc list"

fun print_doc :: "jdoc \<Rightarrow> string" and print_docs :: "jdoc list \<Rightarrow> string" where
  "print_doc (JText k v) = CHR 0x22 # k @ CHR 0x22 # CHR '':'' # CHR 0x22 # escape v @ [CHR 0x22]"
| "print_doc (JNum k i) = CHR 0x22 # k @ CHR 0x22 # CHR '':'' # dec_int i"
| "print_doc (JObj k ds) = CHR 0x22 # k @ CHR 0x22 # CHR '':'' # CHR ''{'' # print_docs ds @ [CHR ''}'']"
| "print_docs [] = []"
| "print_docs (d # ds) = print_doc d @ (if ds = [] then [] else CHR '','' # print_docs ds)"

definition print_obj :: "jdoc list \<Rightarrow> string" where
  "print_obj ds = CHR ''{'' # print_docs ds @ [CHR ''}'']"

fun doc_value :: "jdoc \<Rightarrow> JsonValue" where
  "doc_value (JText k v) = JsonValue (Some k) (if v = [] then None else Some v) []"
| "doc_value (JNum k i) = JsonValue (Some k) (Some (dec_int i)) []"
| "doc_value (JObj k ds) = JsonValue (Some k) None (map doc_value ds)"

definition key_ok :: "string \<Rightarrow> bool" where
  "key_ok k \<longleftrightarrow> k \<noteq> [] \<and> list_all (\<lambda>c. c \<noteq> NUL \<and> c \<noteq> CHR 0x22 \<and> c \<noteq> CHR '' '' \<and> c \<noteq> CHR 0x5C) k"

definition text_ok :: "string \<Rightarrow> bool" where
  "text_ok v \<longleftrightarrow> list_all (\<lambda>c. c \<noteq> NUL \<and> c \<noteq> CHR 0x5C) v"

fun doc_ok :: "jdoc \<Rightarrow> bool" where
  "doc_ok (JText k v) = (key_ok k \<and> text_ok v)"
| "doc_ok (JNum k i) = key_ok k"
| "doc_ok (JObj k ds) = (key_ok k \<and> list_all doc_ok ds)"

section \<open>Scanning a printed document\<close>

lemma rd_mid: "rd (pre @ c # t) (length pre) = Inr c"
  by (rule rd_append_hd)

lemma rd_last: "pre \<noteq> [] \<Longrightarrow> rd (pre @ t) (length pre - 1) = Inr (last pre)"
  by (simp add: rd_append1 last_conv_nth nth_append)

lemma skip_sp_stay: "rd s m = Inr c \<Longrightarrow> c \<noteq> CHR '' '' \<Longrightarrow> skip_sp s m = Inr m"
  by (subst skip_sp.simps) simp

lemma key_loop_quoted:
  assumes "list_all (\<lambda>c. c \<noteq> NUL \<and> c \<noteq> CHR 0x22 \<and> c \<noteq> CHR '' '' \<and> c \<noteq> CHR 0x5C) k"
  shows "key_loop (pre @ k @ CHR 0x22 # CHR '':'' # t) (CHR 0x22) (length pre) =
    Inr (Stop (Some (length pre + length k)) (Suc (length pre + length k)))"
  using assms
proof (induction k arbitrary: pre)
  case Nil
  let ?s = "pre @ CHR 0x22 # CHR '':'' # t"
  have r: "rd ?s (length pre) = Inr (CHR 0x22)" by (rule rd_mid)
  have r2: "rd ?s (Suc (length pre)) = Inr (CHR '':'')" using rd_mid [of "pre @ [CHR 0x22]" "CHR '':''" t] by simp
  have "skip_sp ?s (Suc (length pre)) = Inr (Suc (length pre))" by (rule skip_sp_stay [OF r2]) simp
  then show ?case by (subst key_loop.simps) (simp add: r r2 want_colon_def)
next
  case (Cons c k)
  let ?s = "pre @ (c # k) @ CHR 0x22 # CHR '':'' # t"
  have r: "rd ?s (length pre) = Inr c" using rd_mid [of pre c] by simp
  show ?case using Cons.prems Cons.IH [of "pre @ [c]"]
    by (subst key_loop.simps) (simp add: r)
qed

lemma copy_key:
  assumes "CHR 0x5C \<notin> set k" "k \<noteq> []"
  shows "copy_value junk (pre @ k @ t) (length pre) (Some (length pre + length k)) = Some k"
  using assms by (simp add: copy_value_def copy_str_def unescape_id)

lemma parse_key_quoted:
  assumes "key_ok k"
  shows "parse_key (pre @ CHR 0x22 # k @ CHR 0x22 # CHR '':'' # t) (length pre) =
    Inr (Suc (length pre), Stop (Some (Suc (length pre) + length k)) (Suc (Suc (length pre) + length k)))"
proof -
  let ?s = "pre @ CHR 0x22 # k @ CHR 0x22 # CHR '':'' # t"
  have r: "rd ?s (length pre) = Inr (CHR 0x22)" by (rule rd_mid)
  have k: "skip_sp ?s (length pre) = Inr (length pre)" by (rule skip_sp_stay [OF r]) simp
  show ?thesis
    using assms key_loop_quoted [of k "pre @ [CHR 0x22]" t]
    by (simp add: parse_key_def k r is_quote_def key_ok_def)
qed

text \<open>A quoted text is read up to its closing quote: the character before it is no backslash.\<close>

lemma value_loop_quoted:
  assumes "text_ok v" "pre \<noteq> []" "last pre \<noteq> CHR 0x5C" "c = CHR '','' \<or> c = CHR ''}''"
  shows "value_loop (pre @ escape v @ CHR 0x22 # c # t) (CHR 0x22) (length pre) =
    Inr (Stop (Some (length pre + length (escape v))) (Suc (length pre + length (escape v))))"
  using assms(1-3)
proof (induction v arbitrary: pre)
  case Nil
  let ?s = "pre @ CHR 0x22 # c # t"
  have r: "rd ?s (length pre) = Inr (CHR 0x22)" by (rule rd_mid)
  have p: "rd ?s (length pre - 1) = Inr (last pre)"
    using Nil by (intro rd_last) auto
  have r2: "rd ?s (Suc (length pre)) = Inr c" using rd_mid [of "pre @ [CHR 0x22]" c t] by simp
  have "skip_sp ?s (Suc (length pre)) = Inr (Suc (length pre))"
    by (rule skip_sp_stay [OF r2]) (use assms(4) in auto)
  then show ?case using Nil r p r2 assms(4) by (subst value_loop.simps) (auto simp: want_sep_def)
next
  case (Cons x v)
  have tv: "text_ok v" "x \<noteq> NUL" "x \<noteq> CHR 0x5C" using Cons.prems by (auto simp: text_ok_def)
  have step: "value_loop (pre' @ y # u) (CHR 0x22) (length pre') = value_loop (pre' @ y # u) (CHR 0x22) (Suc (length pre'))"
    if "pre' \<noteq> []" "y \<noteq> NUL" "y = CHR 0x22 \<longrightarrow> last pre' = CHR 0x5C" for pre' y u
  proof -
    have r: "rd (pre' @ y # u) (length pre') = Inr y" by (rule rd_mid)
    have p: "rd (pre' @ y # u) (length pre' - 1) = Inr (last pre')"
      using that by (intro rd_last) auto
    show ?thesis using that r p by (subst value_loop.simps) auto
  qed
  show ?case
  proof (cases "x = CHR 0x27 \<or> x = CHR 0x22")
    case True
    then have e: "escape (x # v) = CHR 0x5C # x # escape v" by auto
    let ?u = "escape v @ CHR 0x22 # c # t"
    have "value_loop (pre @ CHR 0x5C # x # ?u) (CHR 0x22) (length pre) =
      value_loop (pre @ CHR 0x5C # x # ?u) (CHR 0x22) (Suc (length pre))"
      by (rule step) (use Cons.prems in auto)
    moreover have "value_loop ((pre @ [CHR 0x5C]) @ x # ?u) (CHR 0x22) (length (pre @ [CHR 0x5C])) =
      value_loop ((pre @ [CHR 0x5C]) @ x # ?u) (CHR 0x22) (Suc (length (pre @ [CHR 0x5C])))"
      by (rule step) (use tv in auto)
    ultimately show ?thesis using Cons.IH [of "pre @ [CHR 0x5C, x]"] tv unfolding e by simp
  next
    case False
    then have e: "escape (x # v) = x # escape v" using tv by auto
    have "value_loop (pre @ x # escape v @ CHR 0x22 # c # t) (CHR 0x22) (length pre) =
      value_loop (pre @ x # escape v @ CHR 0x22 # c # t) (CHR 0x22) (Suc (length pre))"
      by (rule step) (use Cons.prems tv False in auto)
    then show ?thesis using Cons.IH [of "pre @ [x]"] tv unfolding e by simp
  qed
qed

lemma value_loop_digits:
  assumes "list_all digit ds" "pre \<noteq> []" "c = CHR '','' \<or> c = CHR ''}''"
  shows "value_loop (pre @ ds @ c # t) NUL (length pre) =
    Inr (Stop (Some (length pre + length ds)) (length pre + length ds))"
  using assms(1,2)
proof (induction ds arbitrary: pre)
  case Nil
  have r: "rd (pre @ c # t) (length pre) = Inr c" by (rule rd_mid)
  have p: "rd (pre @ c # t) (length pre - 1) = Inr (last pre)"
    using Nil by (intro rd_last) auto
  show ?case using assms(3) r p by (subst value_loop.simps) (auto simp: is_digit_def digit_def)
next
  case (Cons d ds)
  have r: "rd (pre @ d # ds @ c # t) (length pre) = Inr d" by (rule rd_mid)
  have p: "rd (pre @ d # ds @ c # t) (length pre - 1) = Inr (last pre)"
    using Cons by (intro rd_last) auto
  have "d \<noteq> NUL" using Cons.prems by (auto simp: digit_def)
  then show ?case
    using Cons r p by (subst value_loop.simps) (auto simp: is_digit_def dest: Cons.IH [of "pre @ [d]"])
qed

lemma digit_plain: "digit c \<Longrightarrow> c \<noteq> CHR '' '' \<and> \<not> is_quote c \<and> c \<noteq> CHR ''{'' \<and> c \<noteq> CHR ''-'' \<and> c \<noteq> CHR 0x5C \<and> c \<noteq> NUL"
  by (auto simp: digit_def is_quote_def)

lemma dec_int_cases:
  obtains (pos) d ds where "dec_int i = d # ds" "list_all digit (d # ds)"
  | (neg) ds where "dec_int i = CHR ''-'' # ds" "list_all digit ds"
proof (cases "i < 0")
  case True
  then show thesis using neg dec_nat_digits by (simp add: dec_int_def)
next
  case False
  obtain d ds where "dec_nat (nat i) = d # ds" using dec_nat_ne by (cases "dec_nat (nat i)") auto
  then show thesis using pos [of d ds] False dec_nat_digits [of "nat i"] by (simp add: dec_int_def)
qed

lemma parse_value_num:
  assumes "pre \<noteq> []" "c = CHR '','' \<or> c = CHR ''}''"
  shows "parse_value (pre @ dec_int i @ c # t) (length pre) =
    Inr (length pre, Stop (Some (length pre + length (dec_int i))) (length pre + length (dec_int i)))"
proof (cases i rule: dec_int_cases)
  case (pos d ds)
  let ?s = "pre @ d # ds @ c # t"
  have r: "rd ?s (length pre) = Inr d" by (rule rd_mid)
  have n: "d \<noteq> CHR '' ''" "\<not> is_quote d" "d \<noteq> CHR ''-''" using pos digit_plain [of d] by auto
  have "skip_sp ?s (length pre) = Inr (length pre)" by (rule skip_sp_stay [OF r]) (rule n)
  then show ?thesis
    using value_loop_digits [of "d # ds" pre c t] pos assms n r by (simp add: parse_value_def)
next
  case (neg ds)
  let ?s = "pre @ CHR ''-'' # ds @ c # t"
  have r: "rd ?s (length pre) = Inr (CHR ''-'')" by (rule rd_mid)
  have "skip_sp ?s (length pre) = Inr (length pre)" by (rule skip_sp_stay [OF r]) simp
  then show ?thesis
    using value_loop_digits [of ds "pre @ [CHR ''-'']" c t] neg assms r
    by (simp add: parse_value_def is_quote_def)
qed

lemma parse_value_text:
  assumes "text_ok v" "c = CHR '','' \<or> c = CHR ''}''"
  shows "parse_value (pre @ CHR 0x22 # escape v @ CHR 0x22 # c # t) (length pre) =
    Inr (Suc (length pre), Stop (Some (Suc (length pre) + length (escape v))) (Suc (Suc (length pre) + length (escape v))))"
proof -
  have r: "rd (pre @ CHR 0x22 # escape v @ CHR 0x22 # c # t) (length pre) = Inr (CHR 0x22)" by (rule rd_mid)
  show ?thesis
    using value_loop_quoted [OF assms(1), of "pre @ [CHR 0x22]" c t] assms r
    by (simp add: parse_value_def is_quote_def)
qed

lemma copy_text: "copy_value junk (pre @ escape v @ t) (length pre) (Some (length pre + length (escape v))) =
    (if v = [] then None else Some v)"
proof -
  have "escape v = [] \<longleftrightarrow> v = []" by (cases v) auto
  then show ?thesis by (simp add: copy_value_def copy_str_def unescape_escape)
qed

lemma copy_num: "copy_value junk (pre @ dec_int i @ t) (length pre) (Some (length pre + length (dec_int i))) = Some (dec_int i)"
proof -
  have "CHR 0x5C \<notin> set (dec_int i) \<and> dec_int i \<noteq> []"
    by (cases i rule: dec_int_cases) (auto simp: list_all_iff dest: digit_plain)
  then show ?thesis by (simp add: copy_value_def copy_str_def unescape_id)
qed

text \<open>
  One turn of the parser on a printed document that is followed by \<open>,\<close> or \<open>}\<close>: it goes on
  at that separator.
\<close>

definition go_on :: "nat \<Rightarrow> char \<Rightarrow> string \<Rightarrow> bool \<Rightarrow> JsonValue \<Rightarrow> nat \<Rightarrow> (JsonValue list \<times> nat) res" where
  "go_on n junk s ch p m = rbind (rd s m) (\<lambda>x.
     if x = CHR ''}'' \<and> ch then Inr ([p], m)
     else rbind (parse_loop n junk s ch m) (\<lambda>(ps, e). Inr (p # ps, e)))"

lemma parse_loop_key:
  assumes "x \<noteq> NUL" "key_ok k"
    and s: "s = pre @ x # CHR 0x22 # k @ CHR 0x22 # CHR '':'' # d # t" and d: "d \<noteq> CHR '' ''"
    and v: "v = Suc (Suc (Suc (Suc (length pre + length k))))"
  shows "parse_loop (Suc n) junk s ch (length pre) =
    (if d = CHR ''{'' then rbind (parse_loop n junk s True v) (\<lambda>(kids, e). go_on n junk s ch (JsonValue (Some k) None kids) (Suc e))
     else rbind (parse_value s v) (\<lambda>(vstart, r). case r of
            Fail e \<Rightarrow> Inr ([JsonValue (Some k) None []], e)
          | Stop ve e \<Rightarrow> go_on n junk s ch (JsonValue (Some k) (copy_value junk s vstart ve) []) e))"
proof -
  have r0: "rd s (length pre) = Inr x" unfolding s by (rule rd_mid)
  have r1: "rd s (Suc (length pre)) = Inr (CHR 0x22)"
    using rd_mid [of "pre @ [x]" "CHR 0x22"] unfolding s by simp
  have pk: "parse_key s (Suc (length pre)) =
      Inr (Suc (Suc (length pre)), Stop (Some (Suc (Suc (length pre)) + length k)) (Suc (Suc (Suc (length pre)) + length k)))"
    using parse_key_quoted [OF assms(2), of "pre @ [x]" "d # t"] unfolding s by simp
  have kne: "k \<noteq> []" "CHR 0x5C \<notin> set k" using assms(2) by (auto simp: key_ok_def list_all_iff)
  have ck: "copy_value junk s (Suc (Suc (length pre))) (Some (Suc (Suc (length pre)) + length k)) = Some k"
    using copy_key [OF kne(2,1), of junk "pre @ [x, CHR 0x22]" "CHR 0x22 # CHR '':'' # d # t"] unfolding s by simp
  have rv: "rd s v = Inr d"
    using rd_mid [of "pre @ x # CHR 0x22 # k @ [CHR 0x22, CHR '':'']" d t] unfolding s v by simp
  have sk: "skip_sp s (Suc (Suc (Suc (Suc (length pre)) + length k))) = Inr v"
    using skip_sp_stay [OF rv d] by (simp add: v)
  show ?thesis
    using assms(1) kne r0 r1 pk ck rv sk
    by (simp add: parse_loop.simps(2) Let_def go_on_def [abs_def] cong: rbind_cong scan.case_cong)
qed

lemma print_doc_step:
  assumes "x \<noteq> NUL" "doc_ok d" "c = CHR '','' \<or> c = CHR ''}''" "\<And>k ds. d \<noteq> JObj k ds"
    and s: "s = pre @ x # print_doc d @ c # t"
  shows "parse_loop (Suc n) junk s ch (length pre) =
    go_on n junk s ch (doc_value d) (Suc (length pre + length (print_doc d)))"
proof (cases d)
  case (JText k v)
  define v0 where "v0 = Suc (Suc (Suc (Suc (length pre + length k))))"
  define p0 where "p0 = pre @ x # CHR 0x22 # k @ [CHR 0x22, CHR '':'']"
  have s': "s = pre @ x # CHR 0x22 # k @ CHR 0x22 # CHR '':'' # CHR 0x22 # escape v @ CHR 0x22 # c # t"
    using s JText by simp
  have pv: "parse_value s v0 = Inr (Suc v0, Stop (Some (Suc v0 + length (escape v))) (Suc (Suc v0 + length (escape v))))"
    using parse_value_text [of v c p0 t] assms(2,3) JText unfolding s' by (simp add: p0_def v0_def)
  have cv: "copy_value junk s (Suc v0) (Some (Suc v0 + length (escape v))) = (if v = [] then None else Some v)"
    using copy_text [of junk "p0 @ [CHR 0x22]" v "CHR 0x22 # c # t"] unfolding s' by (simp add: p0_def v0_def)
  have e: "Suc (Suc v0 + length (escape v)) = Suc (length pre + length (print_doc d))" by (simp add: JText v0_def)
  have k: "key_ok k" using assms(2) JText by simp
  show ?thesis
    unfolding e [symmetric] using parse_loop_key [OF assms(1) k s' _ v0_def, of n junk ch] pv cv JText by simp
next
  case (JNum k i)
  define v0 where "v0 = Suc (Suc (Suc (Suc (length pre + length k))))"
  define p0 where "p0 = pre @ x # CHR 0x22 # k @ [CHR 0x22, CHR '':'']"
  obtain y ys where y: "dec_int i = y # ys" "y \<noteq> CHR '' ''" "y \<noteq> CHR ''{''"
    by (cases i rule: dec_int_cases) (auto dest: digit_plain)
  have s': "s = pre @ x # CHR 0x22 # k @ CHR 0x22 # CHR '':'' # y # ys @ c # t"
    using s JNum y by simp
  have s2: "s = p0 @ dec_int i @ c # t" using s' y by (simp add: p0_def)
  have l: "length p0 = v0" by (simp add: p0_def v0_def)
  have pv: "parse_value s v0 = Inr (v0, Stop (Some (v0 + length (dec_int i))) (v0 + length (dec_int i)))"
    using parse_value_num [of p0 c i t] assms(3) l unfolding s2 by (simp add: p0_def)
  have cv: "copy_value junk s v0 (Some (v0 + length (dec_int i))) = Some (dec_int i)"
    using copy_num [of junk p0 i "c # t"] l unfolding s2 by simp
  have e: "v0 + length (dec_int i) = Suc (length pre + length (print_doc d))" by (simp add: JNum v0_def)
  have k: "key_ok k" using assms(2) JNum by simp
  show ?thesis
    unfolding e [symmetric] using parse_loop_key [OF assms(1) k s' y(2) v0_def, of n junk ch] pv cv JNum y by simp
qed (use assms(4) in auto)

lemma print_docs_ne: "ds \<noteq> [] \<Longrightarrow> \<exists>t. print_docs ds = CHR 0x22 # t"
  by (cases ds; cases "hd ds") auto

lemma parse_end:
  assumes "s = pre @ [CHR ''}'']"
  shows "parse_loop (Suc n) junk s False (length pre) = Inr ([], Suc (length pre))"
proof -
  have r0: "rd s (length pre) = Inr (CHR ''}'')" unfolding assms by (rule rd_mid)
  have r1: "rd s (Suc (length pre)) = Inr NUL" unfolding assms using rd_end [of "pre @ [CHR ''}'']"] by simp
  have sk: "skip_sp s (Suc (length pre)) = Inr (Suc (length pre))" by (rule skip_sp_stay [OF r1]) simp
  have kl: "key_loop s NUL (Suc (length pre)) = Inr (Stop None (Suc (length pre)))"
    by (subst key_loop.simps) (simp add: r1)
  show ?thesis using r0 r1 sk kl by (simp add: parse_loop.simps(2) parse_key_def is_quote_def)
qed

lemma parse_printed:
  assumes "list_all doc_ok ds" "x \<noteq> NUL" "s = pre @ x # print_docs ds @ CHR ''}'' # t"
    and "ch \<or> (t = [] \<and> ds \<noteq> [])" "length s < n + length pre"
  shows "parse_loop n junk s ch (length pre) =
    Inr (map doc_value ds, (if ch then Suc (length pre + length (print_docs ds)) else Suc (Suc (length pre + length (print_docs ds)))))"
  using assms
proof (induction "size_list size ds" arbitrary: ds x s pre t ch n rule: less_induct)
  case less
  define p where "p = Suc (length pre + length (print_docs ds))"
  obtain n' where n: "n = Suc n'" using less.prems(3,5) by (cases n) auto
  show ?case
  proof (cases ds)
    case Nil
    then have ch: ch and s: "s = pre @ x # CHR ''}'' # t" using less.prems by auto
    have "rd s (length pre) = Inr x" unfolding s by (rule rd_mid)
    moreover have "rd s (Suc (length pre)) = Inr (CHR ''}'')" using rd_mid [of "pre @ [x]"] unfolding s by simp
    ultimately show ?thesis using less.prems(2) Nil ch by (simp add: n parse_loop.simps(2))
  next
    case (Cons d ds')
    define c where "c = (if ds' = [] then CHR ''}'' else CHR '','')"
    define u where "u = (if ds' = [] then t else print_docs ds' @ CHR ''}'' # t)"
    define pre' where "pre' = pre @ x # print_doc d"
    have s: "s = pre @ x # print_doc d @ c # u" "s = pre' @ c # u"
      using less.prems(3) Cons by (simp_all add: c_def u_def pre'_def)
    have c: "c = CHR '','' \<or> c = CHR ''}''" "c \<noteq> NUL" by (simp_all add: c_def)
    have l': "length pre' = Suc (length pre + length (print_doc d))" by (simp add: pre'_def)
    have sz: "size_list size ds' < size_list size ds" using Cons by simp
    text \<open>What follows the first document.\<close>
    have rest: "go_on n' junk s ch q (length pre') = Inr (q # map doc_value ds', if ch then p else Suc p)" for q
    proof (cases "ds' = []")
      case True
      then have "rd s (length pre') = Inr (CHR ''}'')" unfolding s(2) using rd_mid [of pre' c u] by (simp add: c_def)
      moreover have "parse_loop n' junk s False (length pre') = Inr ([], Suc (length pre'))" if "\<not> ch"
      proof -
        obtain n'' where "n' = Suc n''" using less.prems(5) n s(2) l' by (cases n') auto
        moreover have "s = pre' @ [CHR ''}'']" using s(2) True that less.prems(4) by (simp add: c_def u_def)
        ultimately show ?thesis using parse_end by simp
      qed
      moreover have "p = length pre'" using True Cons by (simp add: p_def l')
      ultimately show ?thesis using True by (simp add: go_on_def)
    next
      case False
      have "rd s (length pre') = Inr (CHR '','')" unfolding s(2) using rd_mid [of pre' c u] False by (simp add: c_def)
      moreover have "parse_loop n' junk s ch (length pre') = Inr (map doc_value ds',
          if ch then Suc (length pre' + length (print_docs ds')) else Suc (Suc (length pre' + length (print_docs ds'))))"
      proof (rule less.hyps [OF sz, where x = c and t = t])
        show "list_all doc_ok ds'" using less.prems(1) Cons by simp
        show "s = pre' @ c # print_docs ds' @ CHR ''}'' # t" using s(2) False by (simp add: u_def)
        show "ch \<or> (t = [] \<and> ds' \<noteq> [])" using less.prems(4) False by auto
        show "length s < n' + length pre'" using less.prems(5) n l' by simp
      qed (rule c(2))
      moreover have "Suc (length pre' + length (print_docs ds')) = p" using False Cons by (simp add: p_def l')
      ultimately show ?thesis by (simp add: go_on_def)
    qed
    have head: "parse_loop n junk s ch (length pre) = go_on n' junk s ch (doc_value d) (length pre')"
    proof (cases "\<exists>k es. d = JObj k es")
      case False
      then show ?thesis
        using print_doc_step [OF less.prems(2) _ c(1) _ s(1), of n' junk ch] less.prems(1) Cons n l' by auto
    next
      case True
      then obtain k es where d: "d = JObj k es" by blast
      define v where "v = Suc (Suc (Suc (Suc (length pre + length k))))"
      define pv where "pv = pre @ x # CHR 0x22 # k @ [CHR 0x22, CHR '':'']"
      have k: "key_ok k" and es: "list_all doc_ok es" using less.prems(1) Cons d by auto
      have s': "s = pre @ x # CHR 0x22 # k @ CHR 0x22 # CHR '':'' # CHR ''{'' # print_docs es @ CHR ''}'' # c # u"
        using s(1) d by simp
      have lv: "length pv = v" by (simp add: pv_def v_def)
      have "parse_loop n' junk s True (length pv) = Inr (map doc_value es,
          if True then Suc (length pv + length (print_docs es)) else Suc (Suc (length pv + length (print_docs es))))"
      proof (rule less.hyps [where x = "CHR ''{''" and t = "c # u"])
        show "size_list size es < size_list size ds" using Cons d by simp
        show "s = pv @ CHR ''{'' # print_docs es @ CHR ''}'' # c # u" using s' by (simp add: pv_def)
        show "length s < n' + length pv" using less.prems(5) n by (simp add: pv_def)
      qed (use es in auto)
      moreover have "Suc (Suc (v + length (print_docs es))) = length pre'" by (simp add: l' d v_def)
      ultimately show ?thesis
        using parse_loop_key [OF less.prems(2) k s' _ v_def, of n' junk ch] lv n d by simp
    qed
    show ?thesis using head rest Cons by (simp add: p_def)
  qed
qed

section \<open>Looking up a key\<close>

definition doc_key :: "jdoc \<Rightarrow> string" where
  "doc_key d = (case d of JText k v \<Rightarrow> k | JNum k i \<Rightarrow> k | JObj k ds \<Rightarrow> k)"

lemma jkey_doc_value [simp]: "jkey (doc_value d) = Some (doc_key d)"
  by (cases d) (simp_all add: doc_key_def)

lemma find_key_docs: "find_key key (map doc_value ds) = Inr (map_option doc_value (List.find (\<lambda>d. doc_key d = key) ds))"
  by (induction ds) (simp_all add: strcmp_eq_def)

lemma find_first: "List.find P (xs @ x # ys) = Some x" if "\<not> list_ex P xs" "P x"
  using that by (induction xs) auto

lemma parseString_print:
  assumes "list_all doc_ok ds" "ds \<noteq> []"
  shows "parseString junk (print_obj ds) ph = Inr (int (length (print_obj ds)), Some (map doc_value ds))"
proof -
  have "parse_loop (Suc (length (print_obj ds))) junk (print_obj ds) False (length ([] :: string)) =
    Inr (map doc_value ds, if False then Suc (length ([] :: string) + length (print_docs ds))
      else Suc (Suc (length ([] :: string) + length (print_docs ds))))"
    by (rule parse_printed [where x = "CHR ''{''" and t = "[]"]) (use assms in \<open>simp_all add: print_obj_def\<close>)
  then show ?thesis using assms(2) by (simp add: parseString_def print_obj_def)
qed

section \<open>Properties\<close>

text \<open>
  C6: \<open>parseString\<close> inverts the printer on every non-empty document: quoted keys, texts
  with escaped quotes, whole numbers and nested objects of any depth. It stops at the end of
  the message, and the linked values are those of the document, in order.
\<close>

theorem parse_inverts_print:
  assumes "list_all doc_ok ds" "ds \<noteq> []"
  shows "parseString junk (print_obj ds) ph = Inr (int (length (print_obj ds)), Some (map doc_value ds))"
  by (rule parseString_print [OF assms])

lemma parse_inverts_print_witness:
  "\<exists>r. parseString NUL (print_obj [JNum ''op'' 3, JObj ''u'' [JText ''name'' ''bo\"b'', JObj ''e'' []], JNum ''x'' (- 7)]) None =
    Inr (r, Some [JsonValue (Some ''op'') (Some (dec_int 3)) [],
      JsonValue (Some ''u'') None [JsonValue (Some ''name'') (Some ''bo\"b'') [], JsonValue (Some ''e'') None []],
      JsonValue (Some ''x'') (Some (dec_int (- 7))) []])"
  using parse_inverts_print [of "[JNum ''op'' 3, JObj ''u'' [JText ''name'' ''bo\"b'', JObj ''e'' []], JNum ''x'' (- 7)]" NUL None]
  by (simp add: key_ok_def text_ok_def)

text \<open>
  C22: a whole number sent under a key is what \<open>valueToInt\<close> answers for that key after the
  message has been parsed, for every value of an \<open>int\<close> and every document around it that does
  not use the key earlier.
\<close>

theorem parse_then_valueToInt:
  assumes "list_all doc_ok (xs @ JNum k i # ys)" "\<not> list_ex (\<lambda>d. doc_key d = k) xs"
    and "- 2147483648 \<le> i" "i \<le> 2147483647"
  shows "\<exists>e values. parseString junk (print_obj (xs @ JNum k i # ys)) ph = Inr (e, values) \<and> valueToInt values k = Inr i"
proof -
  have "List.find (\<lambda>d. doc_key d = k) (xs @ JNum k i # ys) = Some (JNum k i)"
    using assms(2) by (intro find_first) (simp_all add: doc_key_def)
  then have "find_key k (map doc_value (xs @ JNum k i # ys)) = Inr (Some (JsonValue (Some k) (Some (dec_int i)) []))"
    unfolding find_key_docs by simp
  then have "valueToInt (Some (map doc_value (xs @ JNum k i # ys))) k = Inr i"
    using atoi_dec_int [of i] assms(3,4) by (simp add: valueToInt_def json_value_def getJsonValue_def)
  then show ?thesis using parseString_print [OF assms(1), of junk ph] by fastforce
qed

lemma parse_then_valueToInt_witness:
  "\<exists>e values. parseString NUL (print_obj [JText ''a'' ''x'', JNum ''op'' 42]) None = Inr (e, values) \<and>
     valueToInt values ''op'' = Inr 42"
  using parse_then_valueToInt [of "[JText ''a'' ''x'']" "''op''" 42 "[]" NUL None]
  by (simp add: key_ok_def text_ok_def doc_key_def)

text \<open>
  C23: on every message whatever \<open>parseString\<close> comes to an end, having consumed at least
  one character; the only way it can go wrong is a read past the end of the message.
\<close>

theorem parseString_returns:
  "case parseString junk s ph of Inl f \<Rightarrow> f = OutOfBounds | Inr (e, _) \<Rightarrow> 0 < e"
proof -
  have "parse_ok 0 (parse_loop (Suc (length s)) junk s False 0)" by (rule parse_loop_ok) simp_all
  then show ?thesis
    by (cases "parse_loop (Suc (length s)) junk s False 0") (auto simp: parseString_def parse_ok_def)
qed

text \<open>
  An object value that is cut off after its opening brace makes the parser go on behind
  the terminating NUL: after the child's parser has stopped at the NUL, one more character is
  skipped unseen.
\<close>

theorem parse_unclosed_child_overruns:
  assumes "key_ok k"
  shows "parseString junk (CHR ''{'' # CHR 0x22 # k @ [CHR 0x22, CHR '':'', CHR ''{'']) ph = Inl OutOfBounds"
proof -
  let ?s = "CHR ''{'' # CHR 0x22 # k @ [CHR 0x22, CHR '':'', CHR ''{'']"
  define v where "v = Suc (Suc (Suc (Suc (length ([] :: string) + length k))))"
  have s: "?s = [] @ CHR ''{'' # CHR 0x22 # k @ CHR 0x22 # CHR '':'' # CHR ''{'' # []" by simp
  have L: "length ?s = Suc v" by (simp add: v_def)
  have rv: "rd ?s v = Inr (CHR ''{'')"
    using rd_mid [of "CHR ''{'' # CHR 0x22 # k @ [CHR 0x22, CHR '':'']" "CHR ''{''" "[]"] by (simp add: v_def)
  have re: "rd ?s (Suc v) = Inr NUL" using rd_end [of ?s] unfolding L .
  have ro: "rd ?s (Suc (Suc v)) = Inl OutOfBounds" by (rule rd_out) (simp only: L)
  have sk: "skip_sp ?s (Suc v) = Inr (Suc v)" by (rule skip_sp_stay [OF re]) simp
  have kl: "key_loop ?s NUL (Suc v) = Inr (Stop None (Suc v))" by (subst key_loop.simps) (simp only: re rbind_Inr simp_thms if_True)
  have c: "parse_loop (Suc n) junk ?s True v = Inr ([], Suc v)" for n
    unfolding parse_loop.simps(2) rv re rbind_Inr parse_key_def sk Let_def
    using kl re by (simp add: is_quote_def)
  obtain n where n: "length ?s = Suc n" using L by blast
  have "parse_loop (Suc (Suc n)) junk ?s False (length ([] :: string)) = Inl OutOfBounds"
    using parse_loop_key [OF _ assms s _ v_def, of "Suc n" junk False] c [of n] ro
    by (simp only: go_on_def rbind_Inl rbind_Inr prod.case if_True simp_thms) simp
  then have "parse_loop (Suc (length ?s)) junk ?s False 0 = Inl OutOfBounds" by (simp only: n list.size(3))
  then show ?thesis by (simp only: parseString_def rbind_Inl)
qed

lemma parse_unclosed_child_overruns_witness: "parseString NUL ''{\"a\":{'' None = Inl OutOfBounds"
  using parse_unclosed_child_overruns [of "''a''" NUL None] by (simp add: key_ok_def)

text \<open>
  A message that holds no pair leaves \<open>_phead\<close> as the constructor left it, that is
  unset, and every look-up in a fresh \<open>Json\<close>, as well as its clearing, uses that value.
\<close>

theorem parse_nothing_leaves_head_unset:
  assumes "parse_loop (Suc (length s)) junk s False 0 = Inr ([], e)"
  shows "\<exists>ph. parseString junk s None = Inr (int e, ph) \<and> (\<forall>key. json_value ph key = Inl Uninit \<and> valueToInt ph key = Inl Uninit) \<and>
    json_clear ph = Inl Uninit"
  using assms by (simp add: parseString_def json_value_def valueToInt_def getJsonValue_def json_clear_def)

lemma parse_nothing_leaves_head_unset_witness:
  "\<exists>ph. parseString NUL ''{}'' None = Inr (int 2, ph) \<and>
    (\<forall>key. json_value ph key = Inl Uninit \<and> valueToInt ph key = Inl Uninit) \<and> json_clear ph = Inl Uninit"
  by (rule parse_nothing_leaves_head_unset) code_simp

end
