(* ===== verification/Format.thy ===== *)
theory Format
  imports CText
begin

text \<open>
  \<open>sprintf\<close> into a buffer of fixed size, and the printing of times. A \<open>double\<close> holding a time
  is modelled by its number of microseconds, which is what \<open>getmtime\<close> of \<open>src/header/g.h\<close>
  makes it from.
\<close>

text \<open>The text and its terminating NUL must fit.\<close>

definition sprintf_buf :: "nat \<Rightarrow> string \<Rightarrow> string res" where
  "sprintf_buf cap s = (if length s < cap then Inr s else Inl OutOfBounds)"

definition pad3 :: "nat \<Rightarrow> string" where
  "pad3 n = [digit_char (n div 100 mod 10), digit_char (n div 10 mod 10), digit_char (n mod 10)]"

text \<open>\<open>%.3f\<close> of a time in seconds, from its microseconds.\<close>

definition fmt_time :: "int \<Rightarrow> string" where
  "fmt_time us =
     (let ms = (\<bar>us\<bar> + 500) div 1000
      in (if us < 0 then ''-'' else []) @ dec_int (ms div 1000) @ ''.'' @ pad3 (nat (ms mod 1000)))"

text \<open>\<open>tv_sec + tv_usec / 1000000.0\<close> and \<open>tv_sec\<close>, from what \<open>gettimeofday\<close> stores.\<close>

definition getmtime :: "int \<times> int \<Rightarrow> int" where
  "getmtime tv = fst tv * 1000000 + snd tv"

definition gettime :: "int \<times> int \<Rightarrow> int" where
  "gettime tv = fst tv"

lemma length_dec_nat: "0 < k \<Longrightarrow> n < 10 ^ k \<Longrightarrow> length (dec_nat n) \<le> k"
proof (induction k arbitrary: n)
  case (Suc k)
  show ?case
  proof (cases "n < 10")
    case True
    then show ?thesis by (simp add: dec_nat.simps)
  next
    case False
    then have "0 < k" using Suc.prems by (cases k) auto
    moreover have "n div 10 < 10 ^ k" using Suc.prems by (simp add: less_mult_imp_div_less mult.commute)
    ultimately show ?thesis using Suc.IH False by (subst dec_nat.simps) simp
  qed
qed simp

lemma length_dec_i32: "- 2147483648 \<le> i \<Longrightarrow> i < 2147483648 \<Longrightarrow> length (dec_int i) \<le> 11"
proof (cases "i < 0")
  case True
  assume "- 2147483648 \<le> i"
  then have "nat (- i) < 10 ^ 10" using True by simp
  then show ?thesis using length_dec_nat [of 10 "nat (- i)"] True by (simp add: dec_int_def)
next
  case False
  assume "i < 2147483648"
  then have "nat i < 10 ^ 10" using False by simp
  then show ?thesis using length_dec_nat [of 10 "nat i"] False by (simp add: dec_int_def)
qed

lemma length_dec_nonneg: "0 \<le> i \<Longrightarrow> i < 10000000000 \<Longrightarrow> length (dec_int i) \<le> 10"
  using length_dec_nat [of 10 "nat i"] by (auto simp: dec_int_def)

lemma length_fmt_time: "0 \<le> us \<Longrightarrow> us < 4000000000000000 \<Longrightarrow> length (fmt_time us) \<le> 14"
  using length_dec_nonneg [of "(\<bar>us\<bar> + 500) div 1000 div 1000"]
  by (simp add: fmt_time_def Let_def pad3_def)

end
