(* ===== verification/JsonBuild.thy ===== *)
theory JsonBuild
  imports Json Format
begin

text \<open>
  The building half of \<open>src/source/simple_json.hpp\<close>: nodes linked by pointers in a heap, the
  count of the characters they will need kept while they are pushed, and the writing of the
  text into memory of exactly that size. \<open>a\<close> is the address of a new node; \<open>show3\<close> prints a
  number with \<open>%.3f\<close>.
\<close>

datatype jtype = JSON_VAL_STRING | JSON_VAL_INTER | JSON_VAL_DECIMAL | JSON_VAL_NODE | JSON_VAL_LIST

datatype 'd jval = VStr string | VInter int | VDecimal 'd | VChild "nat option"

record 'd JsonNode =
  jn_key :: "string option"
  jn_key_addlen :: int
  jn_value :: "'d jval"
  jn_value_addlen :: int
  jn_type :: jtype
  jn_next :: "nat option"

type_synonym 'd jheap = "nat \<Rightarrow> 'd JsonNode option"

record 'd Adds =
  aheap :: "'d jheap"
  addnum :: int
  addlen :: int
  addhead :: "nat option"
  addcurr :: "nat option"


definition jn_at :: "'d jheap \<Rightarrow> nat \<Rightarrow> 'd JsonNode res" where
  "jn_at h a = (case h a of None \<Rightarrow> Inl UseAfterFree | Some n \<Rightarrow> Inr n)"

section \<open>Pushing\<close>

definition createList :: "nat \<Rightarrow> 'd Adds \<Rightarrow> 'd Adds" where
  "createList a s = s\<lparr>aheap := (aheap s)(a \<mapsto> \<lparr>jn_key = None, jn_key_addlen = 0, jn_value = VChild None, jn_value_addlen = 0,
     jn_type = JSON_VAL_LIST, jn_next = None\<rparr>)\<rparr>"

definition json_add :: "nat \<Rightarrow> int \<Rightarrow> 'd Adds \<Rightarrow> 'd Adds res" where
  "json_add a num s =
     rbind (case addhead s of
         None \<Rightarrow> Inr (s\<lparr>addhead := Some a, addcurr := Some a\<rparr>)
       | Some _ \<Rightarrow> (case addcurr s of None \<Rightarrow> Inl Uninit
           | Some c \<Rightarrow> rbind (jn_at (aheap s) c) (\<lambda>n. Inr (s\<lparr>aheap := (aheap s)(c \<mapsto> n\<lparr>jn_next := Some a\<rparr>), addcurr := Some a\<rparr>)))) (\<lambda>s1.
     rbind (jn_at (aheap s1) a) (\<lambda>p.
       Inr (s1\<lparr>addnum := u32 (addnum s1 + 1), addlen := u32 (addlen s1 + jn_key_addlen p + jn_value_addlen p + num)\<rparr>)))"

definition new_node :: "nat \<Rightarrow> string \<Rightarrow> 'd jval \<Rightarrow> int \<Rightarrow> jtype \<Rightarrow> 'd Adds \<Rightarrow> 'd Adds" where
  "new_node a key v vlen ty s = s\<lparr>aheap := (aheap s)(a \<mapsto> \<lparr>jn_key = Some key, jn_key_addlen = int (length key), jn_value = v,
     jn_value_addlen = vlen, jn_type = ty, jn_next = None\<rparr>)\<rparr>"



definition push_decimal :: "('d \<Rightarrow> string) \<Rightarrow> nat \<Rightarrow> string \<Rightarrow> 'd \<Rightarrow> bool \<Rightarrow> 'd Adds \<Rightarrow> 'd Adds res" where
  "push_decimal show3 a key v add s = rbind (sprintf_buf 16 (show3 v)) (\<lambda>tmp.
     let s1 = new_node a key (VDecimal v) (int (length tmp)) JSON_VAL_DECIMAL s in if add then json_add a 4 s1 else Inr s1)"

definition node_num :: "jtype \<Rightarrow> int" where
  "node_num ty = (case ty of JSON_VAL_STRING \<Rightarrow> 6 | JSON_VAL_LIST \<Rightarrow> 2 | _ \<Rightarrow> 4)"

definition push_node :: "nat \<Rightarrow> string \<Rightarrow> nat \<Rightarrow> bool \<Rightarrow> 'd Adds \<Rightarrow> 'd Adds res" where
  "push_node a key node add s = rbind (jn_at (aheap s) node) (\<lambda>n.
     let s1 = new_node a key (VChild (Some node)) (jn_value_addlen n) JSON_VAL_NODE s; num = node_num (jn_type n)
     in rbind (if add then json_add a num s1 else Inr (s1\<lparr>addlen := u32 (addlen s1 + num)\<rparr>)) (\<lambda>s2.
          Inr (s2\<lparr>addlen := u32 (addlen s2 + jn_key_addlen n + 5)\<rparr>)))"

text \<open>The last node of the chain from \<open>a\<close>.\<close>

fun chain_end :: "nat \<Rightarrow> 'd jheap \<Rightarrow> nat \<Rightarrow> nat res" where
  "chain_end 0 h a = Inl Hang"
| "chain_end (Suc n) h a = rbind (jn_at h a) (\<lambda>p. case jn_next p of None \<Rightarrow> Inr a | Some b \<Rightarrow> chain_end n h b)"

definition set_next :: "nat \<Rightarrow> nat \<Rightarrow> 'd jheap \<Rightarrow> 'd jheap res" where
  "set_next a child h = rbind (jn_at h a) (\<lambda>p. Inr (h(a \<mapsto> p\<lparr>jn_next := Some child\<rparr>)))"

definition push_child :: "nat \<Rightarrow> nat \<Rightarrow> nat \<Rightarrow> 'd Adds \<Rightarrow> 'd Adds res" where
  "push_child n parent child s =
     rbind (jn_at (aheap s) parent) (\<lambda>p.
     rbind (if jn_type p = JSON_VAL_LIST
       then (case jn_value p of
           VChild None \<Rightarrow> Inr ((aheap s)(parent \<mapsto> p\<lparr>jn_value := VChild (Some child)\<rparr>))
         | VChild (Some b) \<Rightarrow> rbind (chain_end n (aheap s) b) (\<lambda>e. set_next e child (aheap s))
         | _ \<Rightarrow> Inl Uninit)
       else rbind (chain_end n (aheap s) parent) (\<lambda>e. set_next e child (aheap s))) (\<lambda>h.
     rbind (jn_at h child) (\<lambda>c.
       Inr (s\<lparr>aheap := h, addnum := u32 (addnum s + 1),
              addlen := u32 (addlen s + jn_key_addlen c + jn_value_addlen c + node_num (jn_type c))\<rparr>))))"

definition push_made :: "nat \<Rightarrow> 'd Adds \<Rightarrow> 'd Adds res" where
  "push_made node s = rbind (jn_at (aheap s) node) (\<lambda>n. json_add node (node_num (jn_type n)) s)"

section \<open>Writing\<close>







section \<open>Freeing\<close>

text \<open>
  \<open>clearAdd\<close>: every node of the chain is freed, the nodes below it first. \<open>NULL\<close> stands for the head
  of the document in every call, the recursive ones included, and every call that ends resets
  the head; the node is read again, for its \<open>next\<close>, after the nodes below it have been freed.
\<close>

definition or_head :: "'d Adds \<Rightarrow> nat option \<Rightarrow> nat option" where
  "or_head s p = (case p of None \<Rightarrow> addhead s | Some a \<Rightarrow> Some a)"

primrec clear_nodes :: "nat \<Rightarrow> nat option \<Rightarrow> 'd Adds \<Rightarrow> 'd Adds res" where
  "clear_nodes 0 q s = (case q of None \<Rightarrow> Inr (s\<lparr>addlen := 0, addhead := None\<rparr>) | Some a \<Rightarrow> Inl Hang)"
| "clear_nodes (Suc n) q s = (case q of None \<Rightarrow> Inr (s\<lparr>addlen := 0, addhead := None\<rparr>) | Some a \<Rightarrow>
     rbind (jn_at (aheap s) a) (\<lambda>p.
     rbind (case jn_value p of VChild c \<Rightarrow> clear_nodes n (or_head s c) s | _ \<Rightarrow> Inr s) (\<lambda>s1.
     rbind (jn_at (aheap s1) a) (\<lambda>p1.
       clear_nodes n (jn_next p1) (s1\<lparr>aheap := (aheap s1)(a := None)\<rparr>)))))"

definition clearAdd :: "nat \<Rightarrow> nat option \<Rightarrow> 'd Adds \<Rightarrow> 'd Adds res" where
  "clearAdd n p s = clear_nodes n (or_head s p) s"

section \<open>A flat document\<close>




primrec doc_node :: "jdoc \<Rightarrow> nat option \<Rightarrow> 'd JsonNode" where
  "doc_node (JText k v) nx = \<lparr>jn_key = Some k, jn_key_addlen = int (length k), jn_value = VStr v, jn_value_addlen = int (length v),
     jn_type = JSON_VAL_STRING, jn_next = nx\<rparr>"
| "doc_node (JNum k i) nx = \<lparr>jn_key = Some k, jn_key_addlen = int (length k), jn_value = VInter i, jn_value_addlen = int (length (dec_int i)),
     jn_type = JSON_VAL_INTER, jn_next = nx\<rparr>"
| "doc_node (JObj k ds) nx = \<lparr>jn_key = Some k, jn_key_addlen = int (length k), jn_value = VChild None, jn_value_addlen = 0,
     jn_type = JSON_VAL_LIST, jn_next = nx\<rparr>"


definition text_size :: "jdoc list \<Rightarrow> nat" where
  "text_size ds = sum_list (map (\<lambda>d. Suc (length (print_doc d))) ds)"





lemma doc_node_next [simp]: "doc_node d q\<lparr>jn_next := r\<rparr> = doc_node d r" "jn_next (doc_node d q) = q"
  by (cases d; simp)+



lemma text_size_simps [simp]: "text_size [] = 0" "text_size (d # ds) = Suc (length (print_doc d)) + text_size ds"
  "text_size (xs @ ys) = text_size xs + text_size ys"
  by (simp_all add: text_size_def)







section \<open>Writing it\<close>






section \<open>Freeing it\<close>




section \<open>Building, reading back and freeing a document\<close>



text \<open>
  An empty list at the head of a document is never freed: its \<open>NULL\<close> child makes the recursive
  call start at the head again.
\<close>

lemma clearAdd_empty_list:
  assumes "addhead s = Some a" "aheap s a = Some p" "jn_value p = VChild None"
  shows "clearAdd n None s = Inl Hang"
proof -
  have "clear_nodes n (Some a) s = Inl Hang"
    by (induction n) (simp_all add: assms jn_at_def or_head_def)
  then show ?thesis using assms(1) by (simp add: clearAdd_def or_head_def)
qed

end
