(* ===== verification/Lookup.thy ===== *)
theory Lookup
  imports CText
begin

text \<open>
  The contract the configuration file, the settings table and the parsed messages share: a
  look-up by key answers the value of the first entry with that key. The clients' lemmas are
  proved once, in the locale \<open>keyed_store\<close>.
\<close>

type_synonym entry = "string \<times> string option"

fun first_value :: "string \<Rightarrow> entry list \<Rightarrow> string option" where
  "first_value key [] = None"
| "first_value key ((k, v) # es) = (if strcmp_eq k key then v else first_value key es)"

fun has_key :: "string \<Rightarrow> entry list \<Rightarrow> bool" where
  "has_key key [] = False"
| "has_key key ((k, v) # es) = (k = key \<or> has_key key es)"

lemma first_value_skip:
  "\<forall>e \<in> set xs. fst e \<noteq> key \<Longrightarrow> first_value key (xs @ es) = first_value key es"
  by (induction xs) (auto simp: strcmp_eq_def)

lemma first_value_absent: "\<forall>e \<in> set es. fst e \<noteq> key \<Longrightarrow> first_value key es = None"
  using first_value_skip [of es key "[]"] by simp

locale keyed_store =
  fixes entries :: "'d \<Rightarrow> entry list"
    and look :: "'d \<Rightarrow> string \<Rightarrow> string option"
  assumes look_law: "look d key = first_value key (entries d)"
begin

lemma look_first:
  "entries d = xs @ (key, v) # ys \<Longrightarrow> \<forall>e \<in> set xs. fst e \<noteq> key \<Longrightarrow> look d key = v"
  by (simp add: look_law first_value_skip strcmp_eq_def)

lemma look_absent: "\<forall>e \<in> set (entries d). fst e \<noteq> key \<Longrightarrow> look d key = None"
  by (simp add: look_law first_value_absent)

lemma look_entry: "look d key = Some v \<Longrightarrow> (key, Some v) \<in> set (entries d)"
proof -
  have "first_value key es = Some v \<Longrightarrow> (key, Some v) \<in> set es" for es
    by (induction key es rule: first_value.induct) (auto simp: strcmp_eq_def split: if_splits)
  then show "look d key = Some v \<Longrightarrow> (key, Some v) \<in> set (entries d)" by (simp add: look_law)
qed

text \<open>Reading a number: every value of an \<open>int\<close>, printed in decimal, is read back.\<close>

lemma look_int:
  assumes "entries d = xs @ (key, Some (dec_int i)) # ys" "\<forall>e \<in> set xs. fst e \<noteq> key"
    and "- 2147483648 \<le> i" "i \<le> 2147483647"
  shows "(case look d key of None \<Rightarrow> dval | Some v \<Rightarrow> atoi v) = i"
  using look_first [OF assms(1,2)] atoi_dec_int [OF assms(3,4)] by simp

end

end
