(* ===== verification/Setting.thy ===== *)
theory Setting
  imports Lookup "HOL-Library.Multiset"
begin

text \<open>
  The settings of \<open>src/init/setting.hpp\<close>: the table \<open>setting\<close> as a list of keys and values, the
  fish table, and the level lists parsed from lines \<open>left:right\<close>. The rows a query answers are
  arguments (\<open>None\<close> when the query or the fetch fails, a \<open>None\<close> column for SQL's NULL).
  A member the constructor does not assign is \<open>None\<close>.
\<close>

section \<open>State\<close>

record S_Setting_Line =
  left :: int
  right :: int

record S_Setting_Value =
  no_verify_account_timout :: "int option"
  no_game_timeout :: "int option"
  no_op_timeout :: "int option"

record S_Setting_Fish =
  fish_id :: int
  fish_no :: int
  fish_coin :: int

record Setting =
  vals :: S_Setting_Value
  systems :: "entry list"
  level_list :: "S_Setting_Line list"
  vip_level_list :: "S_Setting_Line list"
  fish :: "S_Setting_Fish list"
  closeing :: bool

section \<open>Look-ups\<close>

definition system_value :: "Setting \<Rightarrow> string \<Rightarrow> string option" where
  "system_value st key = first_value key (systems st)"

definition systemToInt :: "Setting \<Rightarrow> string \<Rightarrow> int \<Rightarrow> int" where
  "systemToInt st key dval = (case system_value st key of None \<Rightarrow> dval | Some v \<Rightarrow> atoi v)"

interpretation settings: keyed_store systems system_value
  by unfold_locales (simp add: system_value_def)

definition getFishQty :: "Setting \<Rightarrow> int" where
  "getFishQty st = int (length (fish st))"

text \<open>Only the upper bound is tested: a negative index makes a pointer before the array.\<close>

definition setting_getFish :: "Setting \<Rightarrow> int \<Rightarrow> S_Setting_Fish option res" where
  "setting_getFish st index =
     (if index < getFishQty st
      then (if index < 0 then Inl OutOfBounds else Inr (Some (fish st ! nat index)))
      else Inr None)"

section \<open>formatLine\<close>

text \<open>The right number: up to the line's end or the text's.\<close>

function line_right :: "string \<Rightarrow> nat option \<Rightarrow> nat \<Rightarrow> int \<Rightarrow> (int \<times> nat) res" where
  "line_right s end_ptr ptr n =
     rbind (rd s ptr) (\<lambda>c. if c = NUL \<or> Some ptr = end_ptr then Inr (n, ptr)
       else line_right s end_ptr (Suc ptr) (digit_step c n))"
  by pat_completeness auto
termination
  by (relation "measure (\<lambda>(s, e, p, n). Suc (length s) - p)") (auto dest: rd_Inr_le)

declare line_right.simps [simp del]

definition line_left :: "string \<Rightarrow> nat \<Rightarrow> nat \<Rightarrow> int" where
  "line_left s ptr n = fold digit_step (take n (drop ptr s)) 0"

lemma line_right_pos: "line_right s e p n = Inr (v, q) \<Longrightarrow> p \<le> q"
proof (induction s e p n rule: line_right.induct)
  case (1 s e p n)
  from "1.prems" show ?case
    by (subst (asm) line_right.simps) (auto simp: rbind_eq_Inr split: if_splits dest!: "1.IH")
qed

function format_loop :: "string \<Rightarrow> nat \<Rightarrow> S_Setting_Line list res" where
  "format_loop s ptr = rbind (rd s ptr) (\<lambda>c.
     if c = NUL then Inr []
     else rbind (strpos (drop ptr s) [CHR 0x0A] 0 0) (\<lambda>line_pos.
       rbind (strpos (drop ptr s) '':'' 0 (if line_pos > - 1 then nat line_pos else 0)) (\<lambda>maohao_pos.
         if maohao_pos > - 1 then
           (let l = line_left s ptr (nat maohao_pos);
                end_ptr = (if line_pos > - 1 then Some (ptr + nat line_pos) else None)
            in rbind (line_right s end_ptr (Suc (ptr + nat maohao_pos)) 0) (\<lambda>(r, p).
                 rbind (format_loop s (if end_ptr \<noteq> None then Suc p else p)) (\<lambda>ls.
                   Inr (\<lparr>left = l, right = r\<rparr> # ls))))
         else format_loop s (Suc (if line_pos > - 1 then ptr + nat line_pos else ptr)))))"
  by pat_completeness auto
termination
  by (relation "measure (\<lambda>(s, p). Suc (length s) - p)") (auto dest!: rd_Inr_le line_right_pos)

declare format_loop.simps [simp del]

text \<open>The head is overwritten with the first line; a text without lines leaves it.\<close>

definition formatLine :: "string \<Rightarrow> S_Setting_Line list \<Rightarrow> S_Setting_Line list res" where
  "formatLine s dst = rbind (format_loop s 0) (\<lambda>ls. Inr (if ls = [] then dst else ls))"

section \<open>order\<close>

text \<open>\<open>desc\<close> not 0: descending; \<open>dir = 2\<close>: by the right value.\<close>

definition line_key :: "int \<Rightarrow> S_Setting_Line \<Rightarrow> int" where
  "line_key dir l = (if dir = 2 then right l else left l)"

definition must_swap :: "int \<Rightarrow> int \<Rightarrow> S_Setting_Line \<Rightarrow> S_Setting_Line \<Rightarrow> bool" where
  "must_swap dir desc a b =
     (if desc = 0 then line_key dir a > line_key dir b else line_key dir a < line_key dir b)"

text \<open>One pass of the inner loop: neighbours exchange their values in place.\<close>

fun bubble :: "int \<Rightarrow> int \<Rightarrow> S_Setting_Line list \<Rightarrow> S_Setting_Line list" where
  "bubble dir desc (a # b # ls) =
     (if must_swap dir desc a b then b # bubble dir desc (a # ls) else a # bubble dir desc (b # ls))"
| "bubble dir desc ls = ls"

definition order :: "int \<Rightarrow> int \<Rightarrow> S_Setting_Line list \<Rightarrow> S_Setting_Line list" where
  "order dir desc ls = (bubble dir desc ^^ (length ls - 1)) ls"

section \<open>loadSystem, loadFish and the constructor\<close>

definition load_row :: "string option \<times> string option \<Rightarrow> Setting \<Rightarrow> Setting res" where
  "load_row row st = (case row of (Some k, Some v) \<Rightarrow>
       if k = [] then Inr st
       else
         rbind (if k = ''no_verify_account_timout'' then Inr (st\<lparr>vals := (vals st)\<lparr>no_verify_account_timout := Some (atoi v)\<rparr>\<rparr>)
           else if k = ''no_game_timeout'' then Inr (st\<lparr>vals := (vals st)\<lparr>no_game_timeout := Some (atoi v)\<rparr>\<rparr>)
           else if k = ''no_op_timeout'' then Inr (st\<lparr>vals := (vals st)\<lparr>no_op_timeout := Some (atoi v)\<rparr>\<rparr>)
           else if k = ''user_level'' then rbind (formatLine v (level_list st)) (\<lambda>l. Inr (st\<lparr>level_list := l\<rparr>))
           else if k = ''user_vip_level'' then rbind (formatLine v (vip_level_list st)) (\<lambda>l. Inr (st\<lparr>vip_level_list := l\<rparr>))
           else Inr st) (\<lambda>st'.
         Inr (st'\<lparr>systems := systems st' @ [(k, if v = [] then None else Some v)]\<rparr>))
     | _ \<Rightarrow> Inl NullDeref)"

fun load_rows :: "(string option \<times> string option) list \<Rightarrow> Setting \<Rightarrow> Setting res" where
  "load_rows [] st = Inr st"
| "load_rows (r # rs) st = rbind (load_row r st) (load_rows rs)"

definition no_values :: S_Setting_Value where
  "no_values = \<lparr>no_verify_account_timout = None, no_game_timeout = None, no_op_timeout = None\<rparr>"

definition loadSystem :: "(string option \<times> string option) list option \<Rightarrow> Setting \<Rightarrow> Setting res" where
  "loadSystem rows st =
     (let st0 = st\<lparr>vals := no_values, systems := [], level_list := [], vip_level_list := []\<rparr>
      in rbind (case rows of None \<Rightarrow> Inr st0 | Some rs \<Rightarrow> load_rows rs st0) (\<lambda>st1.
           Inr (st1\<lparr>level_list := order 1 1 (level_list st1), vip_level_list := order 1 1 (vip_level_list st1)\<rparr>)))"

fun fish_row :: "string option list \<Rightarrow> S_Setting_Fish res" where
  "fish_row (Some a # Some b # Some c # _) = Inr \<lparr>fish_id = atoi a, fish_no = atoi b, fish_coin = atoi c\<rparr>"
| "fish_row _ = Inl NullDeref"

fun fish_rows :: "string option list list \<Rightarrow> S_Setting_Fish list res" where
  "fish_rows [] = Inr []"
| "fish_rows (r # rs) = rbind (fish_row r) (\<lambda>f. rbind (fish_rows rs) (\<lambda>fs. Inr (f # fs)))"

definition loadFish :: "string option list list option \<Rightarrow> Setting \<Rightarrow> Setting res" where
  "loadFish rows st = rbind (fish_rows (case rows of None \<Rightarrow> [] | Some rs \<Rightarrow> rs)) (\<lambda>fs. Inr (st\<lparr>fish := fs\<rparr>))"

definition setting_init :: "string option list list option \<Rightarrow> (string option \<times> string option) list option \<Rightarrow> Setting res" where
  "setting_init fish_result system_result =
     rbind (loadFish fish_result \<lparr>vals = no_values, systems = [], level_list = [], vip_level_list = [],
       fish = [], closeing = False\<rparr>) (loadSystem system_result)"

section \<open>setValue\<close>

definition valid_keys :: "string list" where
  "valid_keys = [''no_verify_account_timeout'', ''no_game_timeout'', ''no_op_timeout'', ''user_level'', ''user_vip_level'']"

definition checkKey :: "string option \<Rightarrow> bool" where
  "checkKey key = (case key of None \<Rightarrow> False | Some k \<Rightarrow> list_ex (\<lambda>v. strcmp_eq k v) valid_keys)"

text \<open>The value of the first entry with the key is replaced; a missing entry is built but not linked.\<close>

fun replace_first :: "string \<Rightarrow> string option \<Rightarrow> entry list \<Rightarrow> entry list" where
  "replace_first key v [] = []"
| "replace_first key v ((k, w) # es) =
     (if strcmp_eq k key then (k, v) # es else (k, w) # replace_first key v es)"

definition setValue :: "string option \<Rightarrow> string option \<Rightarrow> Setting \<Rightarrow> (bool \<times> Setting) res" where
  "setValue key val st =
     (if \<not> checkKey key then Inr (False, st)
      else case val of None \<Rightarrow> Inl NullDeref
      | Some v \<Rightarrow>
          (let k = the key in
           if length k = 0 then Inr (False, st)
           else
             let st1 = st\<lparr>systems := replace_first k (if v = [] then None else Some v) (systems st)\<rparr>
             in if k = ''user_level'' then
                  rbind (formatLine k []) (\<lambda>l. Inr (True, st1\<lparr>level_list := l\<rparr>))
                else if k = ''user_vip_level'' then
                  rbind (formatLine k []) (\<lambda>l. Inr (True, st1\<lparr>vip_level_list := l\<rparr>))
                else Inr (True, st1)))"

text \<open>The destructor: how many blocks \<open>delete\<close> gets.\<close>

definition freeLine :: "S_Setting_Line list \<Rightarrow> nat \<times> S_Setting_Line list" where
  "freeLine ls = (length ls, [])"

definition setting_destroy :: "Setting \<Rightarrow> nat" where
  "setting_destroy st =
     (if fish st = [] then 0 else 1)
     + sum_list (map (\<lambda>(k, v). 2 + (if v = None then 0 else 1)) (systems st))
     + fst (freeLine (level_list st)) + fst (freeLine (vip_level_list st))"

section \<open>Sorting\<close>

definition sort_key :: "int \<Rightarrow> int \<Rightarrow> S_Setting_Line \<Rightarrow> int" where
  "sort_key dir desc l = (if desc = 0 then line_key dir l else - line_key dir l)"

lemma must_swap_key: "must_swap dir desc a b \<longleftrightarrow> sort_key dir desc a > sort_key dir desc b"
  by (simp add: must_swap_def sort_key_def)

lemma mset_bubble [simp]: "mset (bubble dir desc ls) = mset ls"
  by (induction dir desc ls rule: bubble.induct) auto

lemma length_bubble [simp]: "length (bubble dir desc ls) = length ls"
  by (metis mset_bubble size_mset)

lemma set_bubble [simp]: "set (bubble dir desc ls) = set ls"
  by (metis mset_bubble set_mset_mset)

definition key_sorted :: "int \<Rightarrow> int \<Rightarrow> S_Setting_Line list \<Rightarrow> bool" where
  "key_sorted dir desc ls \<longleftrightarrow> sorted (map (sort_key dir desc) ls)"

lemma bubble_sorted: "key_sorted dir desc ls \<Longrightarrow> bubble dir desc ls = ls"
  by (induction dir desc ls rule: bubble.induct) (auto simp: key_sorted_def must_swap_key)

text \<open>A pass does not touch a sorted tail that nothing before it exceeds.\<close>

lemma bubble_append:
  "key_sorted dir desc B \<Longrightarrow> (\<forall>a \<in> set A. \<forall>b \<in> set B. sort_key dir desc a \<le> sort_key dir desc b) \<Longrightarrow>
   bubble dir desc (A @ B) = bubble dir desc A @ B"
proof (induction dir desc A rule: bubble.induct, goal_cases)
  case (1 dir desc a b ls)
  then show ?case by auto
next
  case (2 dir desc)
  then show ?case by (simp add: bubble_sorted)
next
  case (3 dir desc v)
  then have "key_sorted dir desc (v # B)" by (auto simp: key_sorted_def)
  then show ?case by (simp add: bubble_sorted)
qed

text \<open>A pass brings a greatest element to the end.\<close>

lemma bubble_last:
  "ls \<noteq> [] \<Longrightarrow> \<exists>A m. bubble dir desc ls = A @ [m] \<and> (\<forall>a \<in> set ls. sort_key dir desc a \<le> sort_key dir desc m)"
proof (induction dir desc ls rule: bubble.induct)
  case (1 dir desc a b ls)
  show ?case
  proof (cases "must_swap dir desc a b")
    case True
    then obtain A m where "bubble dir desc (a # ls) = A @ [m]"
      "\<forall>x \<in> set (a # ls). sort_key dir desc x \<le> sort_key dir desc m" using 1 by auto
    then show ?thesis using True by (intro exI [of _ "b # A"] exI [of _ m]) (auto simp: must_swap_key)
  next
    case False
    then obtain A m where "bubble dir desc (b # ls) = A @ [m]"
      "\<forall>x \<in> set (b # ls). sort_key dir desc x \<le> sort_key dir desc m" using 1 by auto
    then show ?thesis using False by (intro exI [of _ "a # A"] exI [of _ m]) (auto simp: must_swap_key)
  qed
qed auto

lemma bubble_pow:
  "k \<le> length ls \<Longrightarrow> \<exists>A B. (bubble dir desc ^^ k) ls = A @ B \<and> length B = k \<and> key_sorted dir desc B \<and>
     (\<forall>a \<in> set A. \<forall>b \<in> set B. sort_key dir desc a \<le> sort_key dir desc b) \<and> mset (A @ B) = mset ls"
proof (induction k)
  case 0
  then show ?case by (simp add: key_sorted_def)
next
  case (Suc k)
  then obtain A B where h: "(bubble dir desc ^^ k) ls = A @ B" "length B = k" "key_sorted dir desc B"
    "\<forall>a \<in> set A. \<forall>b \<in> set B. sort_key dir desc a \<le> sort_key dir desc b" "mset (A @ B) = mset ls" by auto
  have "size (mset (A @ B)) = length ls" unfolding h(5) by simp
  then have "A \<noteq> []" using h(2) Suc.prems by auto
  then obtain A' m where m: "bubble dir desc A = A' @ [m]"
    "\<forall>a \<in> set A. sort_key dir desc a \<le> sort_key dir desc m" using bubble_last by blast
  have s: "set A = insert m (set A')" using set_bubble [of dir desc A] unfolding m(1) by auto
  have "(bubble dir desc ^^ Suc k) ls = A' @ (m # B)" using h(1) bubble_append [OF h(3,4)] m by simp
  moreover have "key_sorted dir desc (m # B)" using h(3,4) s by (auto simp: key_sorted_def)
  moreover have "\<forall>a \<in> set A'. \<forall>b \<in> set (m # B). sort_key dir desc a \<le> sort_key dir desc b" using h(4) m(2) s by auto
  moreover have "mset (A' @ m # B) = mset ls" 
  proof -
    have e: "mset A = add_mset m (mset A')" using mset_bubble [of dir desc A] unfolding m(1) by simp
    show ?thesis unfolding h(5) [symmetric] by (simp add: e)
  qed
  ultimately show ?case using h(2) by (intro exI [of _ A'] exI [of _ "m # B"]) simp
qed

lemma order_correct: "mset (order dir desc ls) = mset ls \<and> key_sorted dir desc (order dir desc ls)"
proof (cases ls)
  case Nil
  then show ?thesis by (simp add: order_def key_sorted_def)
next
  case (Cons x xs)
  then obtain A B where h: "(bubble dir desc ^^ (length ls - 1)) ls = A @ B" "length B = length ls - 1"
    "key_sorted dir desc B" "\<forall>a \<in> set A. \<forall>b \<in> set B. sort_key dir desc a \<le> sort_key dir desc b"
    "mset (A @ B) = mset ls" using bubble_pow [of "length ls - 1" ls dir desc] by auto
  have "size (mset (A @ B)) = length ls" unfolding h(5) by simp
  then have "length A = 1" using h(2) Cons by simp
  then obtain a where "A = [a]" by (auto simp: length_Suc_conv)
  then have "key_sorted dir desc (A @ B)" using h(3,4) by (auto simp: key_sorted_def)
  then show ?thesis using h(1,5) by (simp add: order_def)
qed

section \<open>Level lines\<close>

definition print_line :: "int \<times> int \<Rightarrow> string" where
  "print_line p = dec_int (fst p) @ '':'' @ dec_int (snd p) @ [CHR 0x0D, CHR 0x0A]"

lemma strpos_loop_char:
  assumes "c \<noteq> NUL"
  shows "c \<notin> set w \<Longrightarrow> c_string w \<Longrightarrow> (e = 0 \<or> length pre + length w + 1 \<le> e) \<Longrightarrow>
    strpos_loop (pre @ w @ c # t) [c] e (length pre) (Suc (length w + k)) = Inr (int (length pre + length w))"
proof (induction w arbitrary: pre)
  case Nil
  have r: "rd (pre @ c # t) (length pre) = Inr c" by (rule rd_append_hd)
  have r0: "rd [c] 0 = Inr c" by simp
  show ?case using Nil assms r r0 by auto
next
  case (Cons x w)
  have r: "rd (pre @ x # w @ c # t) (length pre) = Inr x" by (rule rd_append_hd)
  have r0: "rd [c] 0 = Inr c" by simp
  show ?case using Cons.prems Cons.IH [of "pre @ [x]"] r r0 by auto
qed

lemma strpos_char:
  assumes "c \<noteq> NUL" "c \<notin> set w" "c_string w" "e = 0 \<or> length w \<le> e"
  shows "strpos (w @ c # t) [c] 0 e = Inr (int (length w))"
proof -
  have "strpos_loop ([] @ w @ c # t) [c] (if e > 0 then e + 1 else 0) (length ([] :: string)) (Suc (length w + length t)) =
    Inr (int (length ([] :: string) + length w))"
    by (rule strpos_loop_char [OF assms(1-3)]) (use assms(4) in auto)
  then show ?thesis by (simp add: strpos_def del: strpos_loop.simps)
qed

lemma line_right_skip:
  "c_string w \<Longrightarrow> (\<forall>q. length pre \<le> q \<and> q < length pre + length w \<longrightarrow> e \<noteq> Some q) \<Longrightarrow>
   line_right (pre @ w @ t) e (length pre) n =
   line_right (pre @ w @ t) e (length pre + length w) (fold digit_step w n)"
proof (induction w arbitrary: pre n)
  case (Cons x w)
  have r: "rd (pre @ x # w @ t) (length pre) = Inr x" by (rule rd_append_hd)
  have ne: "Some (length pre) \<noteq> e" using Cons.prems(2) by auto
  have "line_right (pre @ x # w @ t) e (length pre) n = line_right (pre @ x # w @ t) e (Suc (length pre)) (digit_step x n)"
    using Cons.prems ne r by (subst line_right.simps) simp
  moreover have "\<forall>q. length (pre @ [x]) \<le> q \<and> q < length (pre @ [x]) + length w \<longrightarrow> e \<noteq> Some q"
    using Cons.prems(2) by auto
  ultimately show ?case using Cons.IH [of "pre @ [x]" "digit_step x n"] Cons.prems by simp
qed simp

lemma line_right_stop: "ptr \<le> length s \<Longrightarrow> line_right s (Some ptr) ptr n = Inr (n, ptr)"
  using rd_le [of ptr s] by (subst line_right.simps) auto

lemma dec_int_plain:
  "CHR '':'' \<notin> set (dec_int i) \<and> CHR 0x0A \<notin> set (dec_int i) \<and> c_string (dec_int i)"
proof -
  have "list_all digit (dec_nat k) \<Longrightarrow> CHR '':'' \<notin> set (dec_nat k) \<and> CHR 0x0A \<notin> set (dec_nat k) \<and> c_string (dec_nat k)" for k
    by (auto simp: list_all_iff digit_def c_string_def)
  then show ?thesis using dec_nat_digits by (auto simp: dec_int_def)
qed

lemma format_loop_line:
  assumes "0 \<le> l" "l < 2147483648" "0 \<le> r" "r < 2147483648"
  shows "format_loop (pre @ print_line (l, r) @ t) (length pre) =
    rbind (format_loop (pre @ print_line (l, r) @ t) (length (pre @ print_line (l, r))))
      (\<lambda>ls. Inr (\<lparr>left = l, right = r\<rparr> # ls))"
proof -
  let ?a = "dec_int l" and ?b = "dec_int r"
  let ?s = "pre @ print_line (l, r) @ t"
  note pl = dec_int_plain [of l] dec_int_plain [of r]
  have s: "?s = pre @ ?a @ CHR '':'' # ?b @ [CHR 0x0D] @ CHR 0x0A # t" by (simp add: print_line_def)
  define w where "w = ?a @ CHR '':'' # ?b @ [CHR 0x0D]"
  have sw: "drop (length pre) ?s = w @ CHR 0x0A # t" unfolding s by (simp add: w_def)
  have n1: "strpos (drop (length pre) ?s) [CHR 0x0A] 0 0 = Inr (int (length w))"
    unfolding sw by (rule strpos_char) (use pl in \<open>auto simp: w_def\<close>)
  have n2: "strpos (drop (length pre) ?s) '':'' 0 (length w) = Inr (int (length ?a))"
    using strpos_char [of "CHR '':''" ?a "length w" "?b @ CHR 0x0D # CHR 0x0A # t"] pl
    unfolding sw by (simp add: w_def)
  have c: "\<exists>c. rd ?s (length pre) = Inr c \<and> c \<noteq> NUL"
  proof (cases "?a = []")
    case True
    then show ?thesis by (simp add: s rd_append_hd)
  next
    case False
    then obtain x xs where "?a = x # xs" by (cases ?a) auto
    then show ?thesis using pl rd_append_hd [of pre x] unfolding s by auto
  qed
  have L: "line_left ?s (length pre) (length ?a) = l"
    unfolding line_left_def s using digit_step_dec [OF assms(1,2)] by simp
  define p where "p = pre @ ?a @ [CHR '':'']"
  have e: "length pre + length w = length p + length (?b @ [CHR 0x0D])" by (simp add: w_def p_def)
  have sp: "?s = p @ (?b @ [CHR 0x0D]) @ CHR 0x0A # t" unfolding s by (simp add: p_def)
  have R: "line_right ?s (Some (length pre + length w)) (length p) 0 = Inr (r, length pre + length w)"
  proof -
    have "line_right ?s (Some (length pre + length w)) (length p) 0 =
      line_right ?s (Some (length pre + length w)) (length pre + length w) (fold digit_step (?b @ [CHR 0x0D]) 0)"
      unfolding sp e by (rule line_right_skip) (use pl in auto)
    also have "fold digit_step (?b @ [CHR 0x0D]) 0 = r"
      using digit_step_dec [OF assms(3,4)] by (simp add: digit_step_def digit_def)
    also have "line_right ?s (Some (length pre + length w)) (length pre + length w) r = Inr (r, length pre + length w)"
      by (rule line_right_stop) (simp add: sp e)
    finally show ?thesis .
  qed
  have lp: "length p = Suc (length pre + length ?a)" by (simp add: p_def)
  have lw: "length (pre @ print_line (l, r)) = Suc (length pre + length w)" by (simp add: w_def print_line_def)
  obtain c where c1: "rd ?s (length pre) = Inr c" "c \<noteq> NUL" using c by blast
  have wpos: "0 < length w" by (simp add: w_def)
  show ?thesis
    apply (subst format_loop.simps)
    unfolding c1(1) rbind_Inr if_not_P [OF c1(2)] n1
    unfolding lw using n2 L R lp by (simp add: Let_def)
qed

lemma format_lines:
  "list_all (\<lambda>(l, r). 0 \<le> l \<and> l < 2147483648 \<and> 0 \<le> r \<and> r < 2147483648) ps \<Longrightarrow>
   format_loop (pre @ concat (map print_line ps)) (length pre) = Inr (map (\<lambda>(l, r). \<lparr>left = l, right = r\<rparr>) ps)"
proof (induction ps arbitrary: pre)
  case Nil
  then show ?case by (subst format_loop.simps) simp
next
  case (Cons p ps)
  obtain l r where p: "p = (l, r)" by (cases p)
  show ?case
    using format_loop_line [of l r pre "concat (map print_line ps)"] Cons.prems Cons.IH [of "pre @ print_line p"]
    by (simp add: p)
qed

section \<open>setValue\<close>

lemma replace_first_keys [simp]: "map fst (replace_first k v es) = map fst es"
  by (induction k v es rule: replace_first.induct) auto

lemma first_value_replace:
  "first_value k' (replace_first k v es) = (if k' = k \<and> has_key k es then v else first_value k' es)"
  by (induction k v es rule: replace_first.induct) (auto simp: strcmp_eq_def)

lemma formatLine_key: "formatLine ''user_level'' [] = Inr []" "formatLine ''user_vip_level'' [] = Inr []"
  by code_simp+

section \<open>Properties\<close>

text \<open>
  \<open>order\<close> is a sorting routine: whatever column and direction are asked for, the result
  is a permutation of the list and is in that order, so the passes of the outer loop are
  enough.
\<close>

theorem order_sorts:
  "mset (order dir desc ls) = mset ls \<and>
   sorted (map (\<lambda>l. if desc = 0 then line_key dir l else - line_key dir l) (order dir desc ls))"
proof -
  have "sort_key dir desc = (\<lambda>l. if desc = 0 then line_key dir l else - line_key dir l)"
    by (rule ext) (simp add: sort_key_def)
  then show ?thesis using order_correct [of dir desc ls] by (simp add: key_sorted_def)
qed

text \<open>
  \<open>formatLine\<close> reads back a level table written one \<open>left:right\<close> per line, for any
  numbers of an \<open>int\<close> that are not negative.
\<close>

theorem formatLine_reads_table:
  assumes "list_all (\<lambda>(l, r). 0 \<le> l \<and> l < 2147483648 \<and> 0 \<le> r \<and> r < 2147483648) ps"
  shows "formatLine (concat (map print_line ps)) [] = Inr (map (\<lambda>(l, r). \<lparr>left = l, right = r\<rparr>) ps)"
  using format_lines [OF assms, of "[]"] by (simp add: formatLine_def)

lemma formatLine_reads_table_witness:
  "formatLine (print_line (1, 20) @ print_line (2, 300)) [] = Inr [\<lparr>left = 1, right = 20\<rparr>, \<lparr>left = 2, right = 300\<rparr>]"
  using formatLine_reads_table [of "[(1, 20), (2, 300)]"] by simp

text \<open>
  C34: \<open>setValue\<close> replaces the value of an existing entry and nothing else of the table; it
  never adds a key, it never refreshes the three cached time-outs the server works with, and
  setting a level table empties it, whatever the new text.
\<close>

theorem setValue_effect:
  assumes "setValue (Some k) (Some v) st = Inr (ok, st')"
  shows "ok = checkKey (Some k) \<and> vals st' = vals st \<and> map fst (systems st') = map fst (systems st) \<and>
    (\<forall>k2. system_value st' k2 = (if ok \<and> k2 = k \<and> has_key k (systems st) then (if v = [] then None else Some v)
       else system_value st k2)) \<and>
    level_list st' = (if ok \<and> k = ''user_level'' then [] else level_list st) \<and>
    vip_level_list st' = (if ok \<and> k = ''user_vip_level'' then [] else vip_level_list st)"
proof (cases "checkKey (Some k)")
  case False
  then show ?thesis using assms by (simp add: setValue_def)
next
  case True
  then have "k \<noteq> []" by (auto simp: checkKey_def valid_keys_def strcmp_eq_def)
  then show ?thesis
    using assms True
    by (auto simp: setValue_def Let_def formatLine_key system_value_def first_value_replace split: if_splits)
qed

lemma setValue_effect_witness:
  "\<exists>st'. setValue (Some ''user_level'') (Some ''1:2'') \<lparr>vals = no_values, systems = [(''user_level'', None)],
     level_list = [\<lparr>left = 3, right = 4\<rparr>], vip_level_list = [], fish = [], closeing = False\<rparr> = Inr (True, st') \<and>
     level_list st' = [] \<and> system_value st' ''user_level'' = Some ''1:2'' \<and> vals st' = no_values"
proof -
  let ?st = "\<lparr>vals = no_values, systems = [(''user_level'', None)], level_list = [\<lparr>left = 3, right = 4\<rparr>],
    vip_level_list = [], fish = [], closeing = False\<rparr>"
  obtain st' where s: "setValue (Some ''user_level'') (Some ''1:2'') ?st = Inr (True, st')"
    by (simp add: setValue_def checkKey_def valid_keys_def strcmp_eq_def formatLine_key)
  show ?thesis using s setValue_effect [OF s] by auto
qed

text \<open>
  An empty line before a level line makes \<open>formatLine\<close> read past the end of the text:
  the line's end is at position 0, which the search for the colon takes for no bound.
\<close>

theorem formatLine_blank_line_overruns:
  assumes "c_string x" "c_string y" "CHR '':'' \<notin> set x"
  shows "formatLine (CHR 0x0A # x @ CHR '':'' # y) dst = Inl OutOfBounds"
proof -
  let ?s = "CHR 0x0A # x @ CHR '':'' # y"
  have n: "strpos ?s [CHR 0x0A] 0 0 = Inr 0" using strpos_char [of "CHR 0x0A" "[]" 0 "x @ CHR '':'' # y"] by simp
  have m: "strpos ?s '':'' 0 0 = Inr (int (Suc (length x)))"
    using strpos_char [of "CHR '':''" "CHR 0x0A # x" 0 y] assms by simp
  define p where "p = CHR 0x0A # x @ [CHR '':'']"
  have s: "?s = p @ y @ []" by (simp add: p_def)
  have end': "line_right ?s (Some 0) (length p + length y) k = Inr (k, length p + length y)" for k
  proof -
    have "rd ?s (length p + length y) = Inr NUL" using rd_end [of "p @ y"] unfolding s by simp
    then show ?thesis by (subst line_right.simps) simp
  qed
  have "line_right ?s (Some 0) (length p) 0 = line_right ?s (Some 0) (length p + length y) (fold digit_step y 0)"
    unfolding s by (rule line_right_skip) (use assms in \<open>auto simp: p_def\<close>)
  then have r: "line_right ?s (Some 0) (length p) 0 = Inr (fold digit_step y 0, length p + length y)"
    using end' by simp
  have o: "format_loop ?s (Suc (length p + length y)) = Inl OutOfBounds"
    by (subst format_loop.simps) (simp add: p_def)
  have lp: "Suc (nat (int (Suc (length x)))) = length p" by (simp add: p_def)
  have "format_loop ?s 0 = Inl OutOfBounds"
    apply (subst format_loop.simps)
    using n m r o lp by (simp add: Let_def)
  then show ?thesis by (simp only: formatLine_def rbind_Inl)
qed

lemma formatLine_blank_line_overruns_witness: "formatLine (CHR 0x0A # ''1:2'') [] = Inl OutOfBounds"
  using formatLine_blank_line_overruns [of "''1''" "''2''" "[]"] by simp

end
