(* ===== verification/Conf.thy ===== *)
theory Conf
  imports Lookup
begin

text \<open>
  The configuration file reader of \<open>src/init/cnf.hpp\<close>. A file is the list of its characters
  as the run-time hands them out in text mode; \<open>rest\<close> is what \<open>fgets\<close> has not read yet.
  \<open>line\<close> is \<open>None\<close> where the buffer has never been filled.
\<close>

record Conf =
  pairs :: "(string \<times> string) list"

definition conf_new :: Conf where
  "conf_new = \<lparr>pairs = []\<rparr>"

definition conf_len :: "Conf \<Rightarrow> nat" where
  "conf_len c = length (pairs c)"

section \<open>Reading a line\<close>

text \<open>
  \<open>fgets(line, 50, f)\<close>: at most 49 characters, up to and with the newline; the third
  component says whether the end of the file was met. Nothing read leaves the buffer.
\<close>

fun fgets :: "nat \<Rightarrow> string \<Rightarrow> string \<times> string \<times> bool" where
  "fgets 0 rest = ([], rest, False)"
| "fgets (Suc n) [] = ([], [], True)"
| "fgets (Suc n) (c # rest) =
     (if c = CHR 0x0A then ([c], rest, False)
      else (case fgets n rest of (l, r, e) \<Rightarrow> (c # l, r, e)))"

definition key_char :: "char \<Rightarrow> bool" where
  "key_char c \<longleftrightarrow> c \<notin> {CHR '' '', CHR ''='', CHR '';'', CHR 0x0D, CHR 0x0A, NUL}"

definition value_char :: "char \<Rightarrow> bool" where
  "value_char c \<longleftrightarrow> c \<notin> {CHR '' '', CHR '';'', CHR 0x0D, CHR 0x0A, NUL}"

text \<open>The key, then blanks and equals signs, then the value; both are cut at 49 characters.\<close>

definition parse_line :: "string \<Rightarrow> string \<times> string" where
  "parse_line line =
     (let key = take 49 (takeWhile key_char line);
          tmp = drop (length key) line;
          tmp = dropWhile (\<lambda>c. c = CHR '' '' \<or> c = CHR ''='') tmp
      in (key, take 49 (takeWhile value_char tmp)))"

definition is_comment :: "string \<Rightarrow> bool" where
  "is_comment line \<longleftrightarrow> (case line of [] \<Rightarrow> False | c # _ \<Rightarrow> c \<in> {CHR '';'', CHR ''#'', CHR ''['', CHR '' ''})"

lemma fgets_shorter: "fgets n rest = (l, r, e) \<Longrightarrow> l \<noteq> [] \<Longrightarrow> length r < length rest"
proof (induction n rest arbitrary: l r e rule: fgets.induct)
  case (3 n c rest)
  show ?case
  proof (cases "c = CHR 0x0A")
    case True
    then show ?thesis using "3.prems" by auto
  next
    case False
    obtain l' r' e' where f: "fgets n rest = (l', r', e')" by (cases "fgets n rest")
    then have r: "r = r'" using "3.prems" False by simp
    show ?thesis
    proof (cases "l' = []")
      case True
      then have "r' = rest" using f by (cases n; cases rest) (auto split: if_splits prod.splits)
      then show ?thesis using r by simp
    next
      case n: False
      then show ?thesis using "3.IH" [OF False f] r by simp
    qed
  qed
qed auto

text \<open>
  The loop: \<open>i\<close> is 0 at the start of a line; the rest of a longer line is skipped. When
  \<open>fgets\<close> reads nothing, the buffer is what was there, with \<open>;\<close> put first.
\<close>

definition next_i :: "string \<Rightarrow> nat \<Rightarrow> nat" where
  "next_i line i = (if last line = CHR 0x0A then 0 else i)"

function parse_lines :: "string \<Rightarrow> bool \<Rightarrow> string option \<Rightarrow> nat \<Rightarrow> Conf \<Rightarrow> Conf res" where
  "parse_lines rest eof buf i cfg =
     (if eof \<or> conf_len cfg = 49 then Inr cfg
      else case fgets 49 rest of (l, rest', eof') \<Rightarrow>
        if l = [] then
          (case buf of None \<Rightarrow> Inl Uninit
           | Some b \<Rightarrow> let line = CHR '';'' # drop 1 b
                       in parse_lines rest' True (Some line) (next_i line (Suc i)) cfg)
        else if is_comment l then parse_lines rest' eof' (Some l) (next_i l (Suc i)) cfg
        else if i = 0 then parse_lines rest' eof' (Some l) (next_i l (Suc i)) (cfg\<lparr>pairs := pairs cfg @ [parse_line l]\<rparr>)
        else parse_lines rest' eof' (Some l) (next_i l i) cfg)"
  by pat_completeness auto

termination
  by (relation "measure (\<lambda>(rest, eof, buf, i, cfg). if eof then 0 else Suc (length rest))")
    (auto dest: fgets_shorter [OF sym])

declare parse_lines.simps [simp del]

text \<open>\<open>parse(file)\<close>: \<open>None\<close> is a file that cannot be opened.\<close>

definition conf_parse :: "string option \<Rightarrow> Conf \<Rightarrow> (bool \<times> Conf) res" where
  "conf_parse file cfg =
     (case file of None \<Rightarrow> Inr (False, cfg)
      | Some s \<Rightarrow> rbind (parse_lines s False None 0 cfg) (\<lambda>c. Inr (True, c)))"

section \<open>Access\<close>

definition conf_entries :: "Conf \<Rightarrow> entry list" where
  "conf_entries c = map (\<lambda>(k, v). (k, Some v)) (pairs c)"

fun conf_find :: "string \<Rightarrow> (string \<times> string) list \<Rightarrow> string option" where
  "conf_find key [] = None"
| "conf_find key ((k, v) # ps) = (if strcmp_eq k key then Some v else conf_find key ps)"

definition conf_get :: "Conf \<Rightarrow> string \<Rightarrow> string option" where
  "conf_get c key = conf_find key (pairs c)"

definition conf_get_int :: "Conf \<Rightarrow> string \<Rightarrow> int" where
  "conf_get_int c key = (case conf_get c key of None \<Rightarrow> 0 | Some v \<Rightarrow> atoi v)"

definition required_keys :: "string list" where
  "required_keys = [''mysql_host'', ''mysql_user'', ''mysql_pword'', ''mysql_port'', ''mysql_dbase'',
     ''redis_host'', ''redis_port'', ''memory_size'']"

definition conf_check :: "Conf \<Rightarrow> bool" where
  "conf_check c = list_all (\<lambda>k. conf_get c k \<noteq> None) required_keys"

text \<open>\<open>strchr\<close> is called on the value even when there is none.\<close>

definition get_memory_size :: "Conf \<Rightarrow> int res" where
  "get_memory_size c =
     (case conf_get c ''memory_size'' of
        None \<Rightarrow> Inl NullDeref
      | Some v \<Rightarrow>
          let m0 = atoi v;
              m1 = (if has_char v (CHR ''K'') then i32 (m0 * 1024) else m0);
              m2 = (if has_char v (CHR ''M'') then i32 (m1 * (1024 * 1024)) else m1)
          in Inr (if m2 \<le> 0 then 1 * 1024 * 1024 else m2))"

definition conf_destroy :: nat where
  "conf_destroy = 50 + 50 + 2"

interpretation conf: keyed_store conf_entries conf_get
proof
  fix c key
  have "conf_find key ps = first_value key (map (\<lambda>(k, v). (k, Some v)) ps)" for ps
    by (induction key ps rule: conf_find.induct) auto
  then show "conf_get c key = first_value key (conf_entries c)" by (simp add: conf_get_def conf_entries_def)
qed

section \<open>Reading back a written file\<close>

definition conf_line :: "string \<times> string \<Rightarrow> string" where
  "conf_line p = fst p @ '' = '' @ snd p @ [CHR 0x0A]"

definition pair_ok :: "string \<times> string \<Rightarrow> bool" where
  "pair_ok p \<longleftrightarrow> fst p \<noteq> [] \<and> list_all key_char (fst p) \<and> list_all value_char (snd p) \<and>
     hd (fst p @ [NUL]) \<notin> {CHR ''#'', CHR ''[''} \<and> hd (snd p @ [NUL]) \<noteq> CHR ''='' \<and>
     length (fst p) + length (snd p) \<le> 45"

lemma fgets_line:
  "length w < n \<Longrightarrow> CHR 0x0A \<notin> set w \<Longrightarrow> fgets n (w @ CHR 0x0A # rest) = (w @ [CHR 0x0A], rest, False)"
proof (induction w arbitrary: n)
  case Nil
  then show ?case by (cases n) auto
next
  case (Cons c w)
  then show ?case by (cases n) auto
qed

lemma parse_line_pair:
  assumes "pair_ok p"
  shows "parse_line (conf_line p) = p"
proof -
  obtain k v where p: "p = (k, v)" by (cases p)
  let ?t = "'' = '' @ v @ [CHR 0x0A]"
  have "takeWhile key_char (k @ ?t) = k"
    using assms by (subst takeWhile_append2) (auto simp: p pair_ok_def list_all_iff key_char_def)
  moreover have "length k \<le> 49" "length v \<le> 49" using assms by (auto simp: p pair_ok_def)
  moreover have "dropWhile (\<lambda>c. c = CHR '' '' \<or> c = CHR ''='') ?t = v @ [CHR 0x0A]"
    using assms by (cases v) (auto simp: p pair_ok_def value_char_def)
  moreover have "takeWhile value_char (v @ [CHR 0x0A]) = v"
    using assms by (subst takeWhile_append2) (auto simp: p pair_ok_def list_all_iff value_char_def)
  ultimately show ?thesis unfolding p conf_line_def parse_line_def Let_def fst_conv snd_conv by simp
qed

lemma parse_lines_written:
  "list_all pair_ok ps \<Longrightarrow> conf_len cfg + length ps \<le> 49 \<Longrightarrow> buf \<noteq> None \<or> ps \<noteq> [] \<Longrightarrow>
   parse_lines (concat (map conf_line ps)) False buf 0 cfg = Inr (cfg\<lparr>pairs := pairs cfg @ ps\<rparr>)"
proof (induction ps arbitrary: cfg buf)
  case Nil
  have e: "parse_lines r True b i c = Inr c" for r b i c by (subst parse_lines.simps) simp
  have f: "fgets 49 [] = ([], [], True)" by (simp add: eval_nat_numeral)
  obtain b where "buf = Some b" using Nil by auto
  then show ?case using e f by (subst parse_lines.simps) (simp add: Let_def)
next
  case (Cons p ps)
  obtain k v where p: "p = (k, v)" by (cases p)
  let ?w = "k @ '' = '' @ v"
  let ?r = "concat (map conf_line ps)"
  have ok: "pair_ok p" using Cons.prems by simp
  then obtain c k' where k: "k = c # k'" by (cases k) (auto simp: p pair_ok_def)
  have "CHR 0x0A \<notin> set ?w" using ok by (auto simp: p pair_ok_def list_all_iff key_char_def value_char_def)
  then have f: "fgets 49 (concat (map conf_line (p # ps))) = (conf_line p, ?r, False)"
    using fgets_line [of ?w 49 ?r] ok by (simp add: p conf_line_def pair_ok_def)
  have nc: "\<not> is_comment (conf_line p)" "conf_line p \<noteq> []" "last (conf_line p) = CHR 0x0A"
    using ok by (auto simp: p conf_line_def is_comment_def k pair_ok_def key_char_def)
  have "parse_lines ?r False (Some (conf_line p)) 0 (cfg\<lparr>pairs := pairs cfg @ [p]\<rparr>) =
    Inr (cfg\<lparr>pairs := pairs cfg @ [p]\<rparr>\<lparr>pairs := pairs (cfg\<lparr>pairs := pairs cfg @ [p]\<rparr>) @ ps\<rparr>)"
    by (rule Cons.IH) (use Cons.prems in \<open>auto simp: conf_len_def\<close>)
  then show ?case
    using Cons.prems(2) nc parse_line_pair [OF ok]
    by (subst parse_lines.simps) (simp add: f [simplified] next_i_def conf_len_def)
qed

section \<open>Properties\<close>

text \<open>
  C35: a configuration file written one \<open>key = value\<close> per line, with up to 49 short pairs,
  is read back as those pairs in that order.
\<close>

theorem conf_parse_written:
  assumes "list_all pair_ok ps" "ps \<noteq> []" "length ps \<le> 49"
  shows "conf_parse (Some (concat (map conf_line ps))) conf_new = Inr (True, \<lparr>pairs = ps\<rparr>)"
  using parse_lines_written [of ps conf_new None] assms by (simp add: conf_parse_def conf_new_def conf_len_def)

lemma conf_parse_written_witness:
  "conf_parse (Some (conf_line (''redis_port'', ''6379'') @ conf_line (''memory_size'', ''64M''))) conf_new =
    Inr (True, \<lparr>pairs = [(''redis_port'', ''6379''), (''memory_size'', ''64M'')]\<rparr>)"
  using conf_parse_written [of "[(''redis_port'', ''6379''), (''memory_size'', ''64M'')]"]
  by (simp add: pair_ok_def key_char_def value_char_def)

text \<open>
  A number of megabytes under \<open>memory_size\<close> is the size in bytes when that is an \<open>int\<close>;
  when it is not, the size wraps and may be anything, down to the default of one megabyte for
  every multiple of 4096.
\<close>

theorem memory_size_megabytes:
  assumes "pairs c = xs @ (''memory_size'', dec_int n @ ''M'') # ys" "list_all (\<lambda>p. fst p \<noteq> ''memory_size'') xs"
    and "0 < n" "n < 2147483648"
  shows "(n < 2048 \<longrightarrow> get_memory_size c = Inr (n * 1048576)) \<and>
    (n mod 4096 = 0 \<longrightarrow> get_memory_size c = Inr 1048576)"
proof -
  have "conf_get c ''memory_size'' = Some (dec_int n @ ''M'')"
    by (rule conf.look_first) (use assms(1,2) in \<open>fastforce simp: conf_entries_def list_all_iff\<close>)+
  moreover have "atoi (dec_int n @ ''M'') = n"
  proof -
    have d: "list_all digit (dec_int n)" "dec_int n \<noteq> []"
      using dec_nat_digits dec_nat_ne assms(3) by (auto simp: dec_int_def)
    obtain x xs where x: "dec_int n = x # xs" using d by (cases "dec_int n") auto
    have "atoi (dec_int n @ ''M'') = saturate (digits_val 0 (dec_int n @ ''M''))"
      using d x digit_not_special [of x] by (auto simp: atoi_def)
    also have "digits_val 0 (dec_int n @ ''M'') = digits_val 0 (dec_int n)"
      using d by (intro digits_val_stop) (auto simp: digit_def)
    also have "\<dots> = n" using digits_val_dec_nat [of "nat n"] assms(3) by (simp add: dec_int_def)
    finally show ?thesis using assms(3,4) by (simp add: saturate_def)
  qed
  moreover have "has_char (dec_int n @ ''M'') (CHR ''M'')" "\<not> has_char (dec_int n @ ''M'') (CHR ''K'')"
    using dec_nat_digits [of "nat n"] assms(3) by (auto simp: has_char_def dec_int_def list_all_iff digit_def)
  ultimately have g: "get_memory_size c = Inr (if i32 (n * 1048576) \<le> 0 then 1048576 else i32 (n * 1048576))"
    by (simp add: get_memory_size_def Let_def)
  have "i32 (n * 1048576) = 0" if "n mod 4096 = 0"
  proof -
    have "n = 4096 * (n div 4096)" using that mult_div_mod_eq [of 4096 n] by linarith
    then have e: "n * 1048576 = (n div 4096) * 4294967296" by linarith
    show ?thesis unfolding e by (simp add: i32_def)
  qed
  moreover have "i32 (n * 1048576) = n * 1048576" if "n < 2048" using that assms(3) by (intro i32_id) auto
  ultimately show ?thesis using g assms(3) by auto
qed

lemma memory_size_megabytes_witness: "get_memory_size \<lparr>pairs = [(''memory_size'', ''64M'')]\<rparr> = Inr 67108864"
proof -
  have "dec_int 64 = ''64''" by code_simp
  then show ?thesis
    using memory_size_megabytes [of "\<lparr>pairs = [(''memory_size'', ''64M'')]\<rparr>" "[]" 64 "[]"] by simp
qed

end
