(* ===== verification/NodeList.thy ===== *)
theory NodeList
  imports Prelude
begin

text \<open>
  The doubly linked lists of the fish and the bullets of a room (\<open>src/source/fishs.hpp\<close>,
  \<open>src/source/bullets.hpp\<close> have the same list code): nodes in an explicit heap, with the
  \<open>prev\<close> and \<open>next\<close> pointers updated as the source updates them. A freed node is absent from
  the heap. The loops over the nodes take fuel: a list as long as the fuel is walked to its
  end, a cycle is \<open>Hang\<close>. The lock is a flag the operations wait for while it is set.
\<close>

record 'a node =
  body :: 'a
  prev :: "nat option"
  nxt :: "nat option"

record 'a nlist =
  heap :: "nat \<Rightarrow> 'a node option"
  lhead :: "nat option"
  lcurr :: "nat option"
  lid :: int
  llen :: int
  llock :: bool
  clearing :: bool

type_synonym 'a store = "nat \<Rightarrow> 'a node option"

abbreviation MAX_INT :: int where
  "MAX_INT \<equiv> 2147483647"

section \<open>Operations\<close>

definition deref :: "'a store \<Rightarrow> nat \<Rightarrow> 'a node res" where
  "deref h a = (case h a of None \<Rightarrow> Inl UseAfterFree | Some n \<Rightarrow> Inr n)"

definition nl_empty :: "'a nlist" where
  "nl_empty = \<lparr>heap = (\<lambda>_. None), lhead = None, lcurr = None, lid = 1, llen = 0, llock = False, clearing = False\<rparr>"

text \<open>
  Append node \<open>a\<close> behind \<open>_curr\<close>, or as the only node when \<open>_head\<close> is NULL. Each assignment reads
  the pointers it goes through at its own time.
\<close>

definition link_prev :: "nat \<Rightarrow> 'a \<Rightarrow> 'a nlist \<Rightarrow> 'a nlist" where
  "link_prev a e l = l\<lparr>heap := (heap l)(a \<mapsto> \<lparr>body = e, prev = lcurr l, nxt = None\<rparr>)\<rparr>"

definition link_next :: "nat \<Rightarrow> 'a nlist \<Rightarrow> 'a nlist res" where
  "link_next a l = (case lcurr l of None \<Rightarrow> Inl NullDeref
     | Some c \<Rightarrow> rbind (deref (heap l) c) (\<lambda>n. Inr (l\<lparr>heap := (heap l)(c \<mapsto> n\<lparr>nxt := Some a\<rparr>)\<rparr>)))"

definition link_first :: "nat \<Rightarrow> 'a \<Rightarrow> 'a nlist \<Rightarrow> 'a nlist" where
  "link_first a e l = l\<lparr>heap := (heap l)(a \<mapsto> \<lparr>body = e, prev = None, nxt = None\<rparr>)\<rparr>"

definition nl_link :: "nat \<Rightarrow> 'a \<Rightarrow> 'a nlist \<Rightarrow> 'a nlist res" where
  "nl_link a e l =
     (case lhead l of
        None \<Rightarrow> Inr ((link_first a e l)\<lparr>lhead := Some a, lcurr := Some a, llen := i32 (llen l + 1)\<rparr>)
      | Some _ \<Rightarrow> rbind (link_next a (link_prev a e l)) (\<lambda>l1. Inr (l1\<lparr>lcurr := Some a, llen := i32 (llen l1 + 1)\<rparr>)))"

text \<open>
  Unlink and free node \<open>a\<close>, statement by statement; the answer is the node after it. Nothing
  happens while clearing.
\<close>

definition pass_next :: "nat \<Rightarrow> 'a nlist \<Rightarrow> 'a nlist res" where
  "pass_next a l = rbind (deref (heap l) a) (\<lambda>n. case prev n of None \<Rightarrow> Inr l
     | Some p \<Rightarrow> rbind (deref (heap l) p) (\<lambda>m. Inr (l\<lparr>heap := (heap l)(p \<mapsto> m\<lparr>nxt := nxt n\<rparr>)\<rparr>)))"

definition pass_prev :: "nat \<Rightarrow> 'a nlist \<Rightarrow> 'a nlist res" where
  "pass_prev a l = rbind (deref (heap l) a) (\<lambda>n. case nxt n of None \<Rightarrow> Inr l
     | Some q \<Rightarrow> rbind (deref (heap l) q) (\<lambda>m. Inr (l\<lparr>heap := (heap l)(q \<mapsto> m\<lparr>prev := prev n\<rparr>)\<rparr>)))"

definition pass_head :: "nat \<Rightarrow> 'a nlist \<Rightarrow> 'a nlist res" where
  "pass_head a l = (if lhead l = Some a then rbind (deref (heap l) a) (\<lambda>n. Inr (l\<lparr>lhead := nxt n\<rparr>)) else Inr l)"

definition pass_curr :: "nat \<Rightarrow> 'a nlist \<Rightarrow> 'a nlist res" where
  "pass_curr a l = (if lcurr l = Some a then rbind (deref (heap l) a) (\<lambda>n. Inr (l\<lparr>lcurr := prev n\<rparr>)) else Inr l)"

definition free_node :: "nat \<Rightarrow> 'a nlist \<Rightarrow> 'a nlist res" where
  "free_node a l = rbind (deref (heap l) a) (\<lambda>_. Inr (l\<lparr>heap := (heap l)(a := None)\<rparr>))"

definition nl_unlink :: "nat \<Rightarrow> 'a nlist \<Rightarrow> (nat option \<times> 'a nlist) res" where
  "nl_unlink a l =
     (if clearing l then Inr (None, l)
      else rbind (deref (heap l) a) (\<lambda>n.
        rbind (pass_next a l) (\<lambda>l1. rbind (pass_prev a l1) (\<lambda>l2. rbind (pass_head a l2) (\<lambda>l3. rbind (pass_curr a l3) (\<lambda>l4.
        rbind (free_node a l4) (\<lambda>l5. Inr (nxt n, l5\<lparr>llen := i32 (llen l5 - 1)\<rparr>))))))))"

lemma pass_lid:
  "pass_next a l = Inr l' \<Longrightarrow> lid l' = lid l" "pass_prev a l = Inr l' \<Longrightarrow> lid l' = lid l" "pass_head a l = Inr l' \<Longrightarrow> lid l' = lid l"
  "pass_curr a l = Inr l' \<Longrightarrow> lid l' = lid l" "free_node a l = Inr l' \<Longrightarrow> lid l' = lid l"
  by (auto simp: pass_next_def pass_prev_def pass_head_def pass_curr_def free_node_def rbind_eq_Inr split: option.splits if_splits)

lemma nl_unlink_lid: "nl_unlink a l = Inr (r, l') \<Longrightarrow> lid l' = lid l"
  by (auto simp: nl_unlink_def rbind_eq_Inr split: if_splits dest!: pass_lid)

text \<open>When the node's links do not lead to itself the statements read what they have read at first.\<close>

lemma nl_unlink_away:
  assumes "heap l a = Some n" "prev n \<noteq> Some a" "nxt n \<noteq> Some a"
  shows "nl_unlink a l = (if clearing l then Inr (None, l) else
    rbind (case prev n of None \<Rightarrow> Inr (heap l) | Some p \<Rightarrow> rbind (deref (heap l) p) (\<lambda>m. Inr ((heap l)(p \<mapsto> m\<lparr>nxt := nxt n\<rparr>)))) (\<lambda>h1.
    rbind (case nxt n of None \<Rightarrow> Inr h1 | Some q \<Rightarrow> rbind (deref h1 q) (\<lambda>m. Inr (h1(q \<mapsto> m\<lparr>prev := prev n\<rparr>)))) (\<lambda>h2.
      Inr (nxt n, l\<lparr>heap := h2(a := None), lhead := (if lhead l = Some a then nxt n else lhead l),
             lcurr := (if lcurr l = Some a then prev n else lcurr l), llen := i32 (llen l - 1)\<rparr>))))"
  using assms
  by (cases "prev n"; cases "nxt n")
    (auto simp: nl_unlink_def pass_next_def pass_prev_def pass_head_def pass_curr_def free_node_def deref_def rbind_def split: option.splits)

text \<open>The first node from \<open>p\<close> on with the property.\<close>

fun find_node :: "nat \<Rightarrow> 'a store \<Rightarrow> ('a \<Rightarrow> bool) \<Rightarrow> nat option \<Rightarrow> nat option res" where
  "find_node n h P None = Inr None"
| "find_node 0 h P (Some a) = Inl Hang"
| "find_node (Suc n) h P (Some a) =
     rbind (deref h a) (\<lambda>m. if P (body m) then Inr (Some a) else find_node n h P (nxt m))"

text \<open>
  \<open>getID\<close>: the counter moves on while a node has it; at \<open>MAX_INT\<close> it starts again at 1. The
  first argument bounds the rounds of the outer loop.
\<close>

fun get_id :: "nat \<Rightarrow> nat \<Rightarrow> 'a store \<Rightarrow> ('a \<Rightarrow> int) \<Rightarrow> nat option \<Rightarrow> int \<Rightarrow> int res" where
  "get_id 0 n h idf h0 i = Inl Hang"
| "get_id (Suc k) n h idf h0 i =
     (let i1 = (if i \<ge> MAX_INT then 1 else i)
      in rbind (find_node n h (\<lambda>e. idf e = i1) h0) (\<lambda>r.
           case r of None \<Rightarrow> Inr i1 | Some _ \<Rightarrow> get_id k n h idf h0 (i1 + 1)))"

text \<open>Free every node from \<open>p\<close> on.\<close>

fun free_nodes :: "nat \<Rightarrow> 'a store \<Rightarrow> nat option \<Rightarrow> 'a store res" where
  "free_nodes n h None = Inr h"
| "free_nodes 0 h (Some a) = Inl Hang"
| "free_nodes (Suc n) h (Some a) = rbind (deref h a) (\<lambda>m. free_nodes n (h(a := None)) (nxt m))"

definition nl_clear :: "nat \<Rightarrow> 'a nlist \<Rightarrow> 'a nlist res" where
  "nl_clear n l = rbind (free_nodes n (heap l) (lhead l)) (\<lambda>h.
     Inr (l\<lparr>heap := h, lhead := None, llen := 0, clearing := False\<rparr>))"

text \<open>Reading and writing the fields of a node other than its links.\<close>

definition nl_look :: "'a nlist \<Rightarrow> nat \<Rightarrow> ('a \<times> nat option) res" where
  "nl_look l a = rbind (deref (heap l) a) (\<lambda>n. Inr (body n, nxt n))"

definition nl_put :: "nat \<Rightarrow> ('a \<Rightarrow> 'a) \<Rightarrow> 'a nlist \<Rightarrow> 'a nlist res" where
  "nl_put a f l = rbind (deref (heap l) a) (\<lambda>n. Inr (l\<lparr>heap := (heap l)(a \<mapsto> n\<lparr>body := f (body n)\<rparr>)\<rparr>))"

section \<open>The list a heap represents\<close>

definition first :: "nat list \<Rightarrow> nat option" where
  "first xs = (case xs of [] \<Rightarrow> None | a # _ \<Rightarrow> Some a)"

lemma first_simps [simp]: "first [] = None" "first (a # xs) = Some a"
  by (simp_all add: first_def)

text \<open>\<open>seg h p xs q\<close>: the nodes \<open>xs\<close>, between the nodes \<open>p\<close> and \<open>q\<close>.\<close>

definition first_or :: "nat option \<Rightarrow> nat list \<Rightarrow> nat option" where
  "first_or q xs = (case xs of [] \<Rightarrow> q | a # _ \<Rightarrow> Some a)"

definition last_or :: "nat option \<Rightarrow> nat list \<Rightarrow> nat option" where
  "last_or p xs = (if xs = [] then p else Some (last xs))"

lemma first_or_simps [simp]: "first_or q [] = q" "first_or q (a # xs) = Some a" "first_or None xs = first xs"
  "first_or q (xs @ ys) = first_or (first_or q ys) xs"
  by (auto simp: first_or_def first_def split: list.splits)

lemma last_or_simps [simp]: "last_or p [] = p" "last_or p (xs @ [a]) = Some a" "last_or p (a # xs) = last_or (Some a) xs"
  by (auto simp: last_or_def)

fun seg :: "'a store \<Rightarrow> nat option \<Rightarrow> nat list \<Rightarrow> nat option \<Rightarrow> bool" where
  "seg h p [] q = True"
| "seg h p (a # xs) q = ((\<exists>e. h a = Some \<lparr>body = e, prev = p, nxt = first_or q xs\<rparr>) \<and> seg h (Some a) xs q)"

lemma seg_append: "seg h p (xs @ ys) q \<longleftrightarrow> seg h p xs (first_or q ys) \<and> seg h (last_or p xs) ys q"
  by (induction xs arbitrary: p) auto

lemma seg_cong: "(\<And>a. a \<in> set xs \<Longrightarrow> h' a = h a) \<Longrightarrow> seg h' p xs q = seg h p xs q"
  by (induction xs arbitrary: p) auto

lemma seg_transfer: "seg h p xs q \<Longrightarrow> (\<And>a. a \<in> set xs \<Longrightarrow> h' a = h a) \<Longrightarrow> seg h' p xs q"
  using seg_cong by blast

lemma seg_upd_other: "a \<notin> set xs \<Longrightarrow> seg (h(a := v)) p xs q = seg h p xs q"
  by (rule seg_cong) auto

lemma seg_set_last:
  "seg h p (xs @ [c]) q \<Longrightarrow> c \<notin> set xs \<Longrightarrow> h c = Some n \<Longrightarrow> seg (h(c \<mapsto> n\<lparr>nxt := q'\<rparr>)) p (xs @ [c]) q'"
  by (auto simp: seg_append seg_upd_other)

lemma seg_set_first:
  "seg h p (b # ys) q \<Longrightarrow> b \<notin> set ys \<Longrightarrow> h b = Some n \<Longrightarrow> seg (h(b \<mapsto> n\<lparr>prev := p'\<rparr>)) p' (b # ys) q"
  by (auto simp: seg_upd_other)

definition nl_rep :: "'a nlist \<Rightarrow> nat list \<Rightarrow> bool" where
  "nl_rep l xs \<longleftrightarrow> seg (heap l) None xs None \<and> distinct xs \<and> lhead l = first xs \<and>
     (xs \<noteq> [] \<longrightarrow> lcurr l = Some (last xs)) \<and> llen l = int (length xs) \<and> length xs < 2147483647 \<and>
     \<not> llock l \<and> \<not> clearing l"

fun walk :: "nat \<Rightarrow> 'a store \<Rightarrow> nat option \<Rightarrow> nat list" where
  "walk 0 h p = []"
| "walk (Suc n) h None = []"
| "walk (Suc n) h (Some a) = a # (case h a of None \<Rightarrow> [] | Some m \<Rightarrow> walk n h (nxt m))"

definition nl_nodes :: "'a nlist \<Rightarrow> nat list" where
  "nl_nodes l = walk (nat (llen l)) (heap l) (lhead l)"

definition items_of :: "'a store \<Rightarrow> nat list \<Rightarrow> (nat \<times> 'a) list" where
  "items_of h xs = map (\<lambda>a. (a, body (the (h a)))) xs"

definition nl_items :: "'a nlist \<Rightarrow> (nat \<times> 'a) list" where
  "nl_items l = items_of (heap l) (nl_nodes l)"

definition nl_ok :: "'a nlist \<Rightarrow> bool" where
  "nl_ok l \<longleftrightarrow> nl_rep l (nl_nodes l)"

lemma walk_seg: "seg h p xs None \<Longrightarrow> walk (length xs) h (first xs) = xs"
  by (induction xs arbitrary: p) auto

lemma rep_nodes: "nl_rep l xs \<Longrightarrow> nl_nodes l = xs"
  by (auto simp: nl_rep_def nl_nodes_def walk_seg)

lemma rep_ok: "nl_rep l xs \<Longrightarrow> nl_ok l"
  by (simp add: nl_ok_def rep_nodes)

lemma rep_items: "nl_rep l xs \<Longrightarrow> nl_items l = items_of (heap l) xs"
  by (simp add: nl_items_def rep_nodes)

lemma items_of_simps [simp]:
  "items_of h [] = []" "items_of h (a # xs) = (a, body (the (h a))) # items_of h xs"
  "items_of h (xs @ ys) = items_of h xs @ items_of h ys" "map fst (items_of h xs) = xs"
  "length (items_of h xs) = length xs"
  by (simp_all add: items_of_def comp_def)

lemma items_of_cong: "(\<And>a. a \<in> set xs \<Longrightarrow> body (the (h' a)) = body (the (h a))) \<Longrightarrow> items_of h' xs = items_of h xs"
  by (simp add: items_of_def)

text \<open>A list in the right form, split at one of its nodes.\<close>

lemma ok_split:
  assumes "nl_ok l" "nl_items l = xs @ (a, e) # ys"
  shows "nl_rep l (map fst xs @ a # map fst ys)" "xs = items_of (heap l) (map fst xs)"
    "ys = items_of (heap l) (map fst ys)" "e = body (the (heap l a))"
    "heap l a = Some \<lparr>body = e, prev = last_or None (map fst xs), nxt = first (map fst ys)\<rparr>"
proof -
  have m: "map fst (nl_items l) = nl_nodes l" by (simp add: nl_items_def)
  then have n: "nl_nodes l = map fst xs @ a # map fst ys" using assms(2) by simp
  show r: "nl_rep l (map fst xs @ a # map fst ys)" using assms(1) n by (simp add: nl_ok_def)
  have i: "items_of (heap l) (map fst xs) @ (a, body (the (heap l a))) # items_of (heap l) (map fst ys) = xs @ (a, e) # ys"
    using rep_items [OF r] assms(2) by simp
  then show "xs = items_of (heap l) (map fst xs)" "ys = items_of (heap l) (map fst ys)"
    and e: "e = body (the (heap l a))"
    by (simp_all add: append_eq_append_conv)
  have "seg (heap l) None (map fst xs @ a # map fst ys) None" using r by (simp add: nl_rep_def)
  then show "heap l a = Some \<lparr>body = e, prev = last_or None (map fst xs), nxt = first (map fst ys)\<rparr>"
    using e by (auto simp: seg_append)
qed

section \<open>The operations on the list represented\<close>

lemma nl_empty_rep: "nl_rep nl_empty []"
  by (simp add: nl_rep_def nl_empty_def)

lemma nl_link_rep:
  assumes r: "nl_rep l xs" and a: "a \<notin> set xs" and n: "length xs < 2147483646"
  shows "\<exists>l'. nl_link a e l = Inr l' \<and> nl_rep l' (xs @ [a]) \<and> nl_items l' = nl_items l @ [(a, e)] \<and> lid l' = lid l"
proof (cases xs rule: rev_cases)
  case Nil
  then have h: "lhead l = None" "llen l = 0" using r by (simp_all add: nl_rep_def)
  define l' where "l' = l\<lparr>heap := (heap l)(a \<mapsto> \<lparr>body = e, prev = None, nxt = None\<rparr>), lhead := Some a,
      lcurr := Some a, llen := 1\<rparr>"
  have "nl_link a e l = Inr l'" using h by (simp add: nl_link_def link_first_def l'_def i32_id)
  moreover have r': "nl_rep l' [a]" using r Nil by (simp add: nl_rep_def l'_def)
  moreover have "nl_items l' = [(a, e)]" using rep_items [OF r'] by (simp add: l'_def)
  moreover have "nl_items l = []" using rep_items [OF r] Nil by simp
  ultimately show ?thesis using Nil by (auto simp: l'_def)
next
  case (snoc ys c)
  have s: "seg (heap l) None (ys @ [c]) None" "distinct (ys @ [c])" "lcurr l = Some c" "llen l = int (length xs)"
    and hd': "lhead l = first xs"
    using r snoc by (simp_all add: nl_rep_def)
  then obtain n where n': "heap l c = Some n" by (auto simp: seg_append)
  obtain b where b: "lhead l = Some b" using hd' snoc by (cases ys) auto
  define h where "h = (heap l)(a \<mapsto> \<lparr>body = e, prev = Some c, nxt = None\<rparr>, c \<mapsto> n\<lparr>nxt := Some a\<rparr>)"
  define l' where "l' = l\<lparr>heap := h, lcurr := Some a, llen := int (length xs) + 1\<rparr>"
  have ac: "a \<noteq> c" using a snoc by auto
  have e1: "nl_link a e l = Inr l'"
    using b s n' assms(3) ac by (simp add: nl_link_def link_prev_def link_next_def deref_def l'_def h_def i32_id)
  have "seg ((heap l)(c \<mapsto> n\<lparr>nxt := Some a\<rparr>)) None (ys @ [c]) (Some a)"
    by (rule seg_set_last [OF s(1)]) (use s n' in auto)
  then have "seg h None (ys @ [c]) (Some a)"
    by (rule iffD1 [OF seg_cong, rotated]) (use a snoc in \<open>auto simp: h_def\<close>)
  then have "seg h None ((ys @ [c]) @ [a]) None" using ac by (subst seg_append) (simp add: h_def)
  then have r': "nl_rep l' (xs @ [a])"
    using r snoc a n by (cases ys) (auto simp: nl_rep_def l'_def)
  have "items_of h xs = items_of (heap l) xs"
    by (rule items_of_cong) (use a n' in \<open>auto simp: h_def\<close>)
  then have "nl_items l' = nl_items l @ [(a, e)]"
    using rep_items [OF r] rep_items [OF r'] ac by (simp add: l'_def h_def)
  then show ?thesis using e1 r' by (auto simp: l'_def)
qed

lemma nl_unlink_items:
  assumes "nl_ok l" "nl_items l = xs @ (a, e) # ys"
  shows "\<exists>l'. nl_unlink a l = Inr (first (map fst ys), l') \<and> nl_ok l' \<and> nl_items l' = xs @ ys \<and> lid l' = lid l"
proof -
  note sp = ok_split [OF assms]
  let ?X = "map fst xs" and ?Y = "map fst ys"
  have rep: "seg (heap l) None (?X @ a # ?Y) None" "distinct (?X @ a # ?Y)" "lhead l = first (?X @ a # ?Y)"
    "lcurr l = Some (last (?X @ a # ?Y))" "llen l = int (length (?X @ a # ?Y))"
    "length (?X @ a # ?Y) < 2147483647" "\<not> llock l" "\<not> clearing l"
    using sp(1) by (simp_all add: nl_rep_def)
  have sX: "seg (heap l) None ?X (Some a)" and sY: "seg (heap l) (Some a) ?Y None"
    using rep(1) by (simp_all add: seg_append)
  obtain n where n: "heap l a = Some n" and pn: "prev n = last_or None ?X" "nxt n = first ?Y"
    using sp(5) by simp
  have away: "prev n \<noteq> Some a" "nxt n \<noteq> Some a"
    using rep(2) by (cases xs rule: rev_cases; cases ys; auto simp: pn)+
  text \<open>The predecessor's \<open>next\<close>.\<close>
  obtain h1 where h1: "(case prev n of None \<Rightarrow> Inr (heap l)
      | Some p \<Rightarrow> rbind (deref (heap l) p) (\<lambda>m. Inr ((heap l)(p \<mapsto> m\<lparr>nxt := nxt n\<rparr>)))) = Inr h1"
    and s1: "seg h1 None ?X (first ?Y)" and o1: "\<And>b. b \<notin> set ?X \<Longrightarrow> h1 b = heap l b"
    and b1: "\<And>b. body (the (h1 b)) = body (the (heap l b))"
  proof (cases xs rule: rev_cases)
    case Nil
    then show thesis using that [of "heap l"] pn by simp
  next
    case (snoc xs' x)
    then have x: "?X = map fst xs' @ [fst x]" by simp
    then obtain m where m: "heap l (fst x) = Some m" using sX by (auto simp: seg_append)
    let ?h = "(heap l)(fst x \<mapsto> m\<lparr>nxt := first ?Y\<rparr>)"
    have "seg ?h None ?X (first ?Y)"
      using seg_set_last [OF sX [unfolded x] _ m] rep(2) unfolding x by auto
    then show thesis using that [of ?h] m x pn by (auto simp: deref_def)
  qed
  text \<open>The successor's \<open>prev\<close>.\<close>
  have dj: "b \<in> set ?Y \<Longrightarrow> b \<notin> set ?X" for b using rep(2) by auto
  have sY1: "seg h1 (Some a) ?Y None" using sY by (rule seg_transfer) (use o1 dj in blast)
  obtain h2 where h2: "(case nxt n of None \<Rightarrow> Inr h1
      | Some q \<Rightarrow> rbind (deref h1 q) (\<lambda>m. Inr (h1(q \<mapsto> m\<lparr>prev := prev n\<rparr>)))) = Inr h2"
    and s2: "seg h2 (last_or None ?X) ?Y None" and o2: "\<And>b. b \<notin> set ?Y \<Longrightarrow> h2 b = h1 b"
    and b2: "\<And>b. body (the (h2 b)) = body (the (h1 b))"
  proof (cases ys)
    case Nil
    then show thesis using that [of h1] pn by simp
  next
    case (Cons y ys')
    then obtain m where m: "h1 (fst y) = Some m" using sY1 by auto
    let ?h = "h1(fst y \<mapsto> m\<lparr>prev := last_or None ?X\<rparr>)"
    have "seg ?h (last_or None ?X) ?Y None"
      using seg_set_first [OF sY1 [unfolded Cons list.map] _ m] rep(2) Cons by auto
    then show thesis using that [of ?h] m Cons pn by (auto simp: deref_def)
  qed
  define l' where "l' = l\<lparr>heap := h2(a := None), lhead := first (?X @ ?Y),
      lcurr := (if lcurr l = Some a then last_or None ?X else lcurr l), llen := int (length (?X @ ?Y))\<rparr>"
  have hd': "(if lhead l = Some a then first ?Y else lhead l) = first (?X @ ?Y)"
    using rep(2,3) by (cases xs) auto
  have len': "i32 (llen l - 1) = int (length (?X @ ?Y))" using rep(5,6) by (simp add: i32_id)
  have e1: "nl_unlink a l = Inr (first ?Y, l')"
    using rep(8) hd' len' unfolding nl_unlink_away [OF n away] l'_def pn [symmetric]
    by (simp add: h1 h2)
  have "seg h2 None ?X (first ?Y)" using s1 by (rule seg_transfer) (use o2 dj in blast)
  then have "seg h2 None (?X @ ?Y) None" using s2 by (simp add: seg_append)
  then have "seg (h2(a := None)) None (?X @ ?Y) None" using rep(2) by (subst seg_upd_other) auto
  moreover have "?X @ ?Y \<noteq> [] \<longrightarrow> (if lcurr l = Some a then last_or None ?X else lcurr l) = Some (last (?X @ ?Y))"
  proof (cases ys rule: rev_cases)
    case Nil
    then show ?thesis using rep(4) by (auto simp: last_or_def)
  next
    case (snoc ys' y)
    then show ?thesis using rep(2,4) by auto
  qed
  ultimately have r': "nl_rep l' (?X @ ?Y)" using rep by (auto simp: nl_rep_def l'_def)
  have "items_of (heap l') (?X @ ?Y) = items_of (heap l) (?X @ ?Y)"
    by (rule items_of_cong) (use b1 b2 rep(2) in \<open>auto simp: l'_def\<close>)
  then have "nl_items l' = xs @ ys" using rep_items [OF r'] sp(2,3) by simp
  then show ?thesis using e1 rep_ok [OF r'] by (auto simp: l'_def)
qed

lemma nl_look_items:
  assumes "nl_ok l" "nl_items l = xs @ (a, e) # ys"
  shows "nl_look l a = Inr (e, first (map fst ys))"
  using ok_split(5) [OF assms] by (simp add: nl_look_def deref_def)

lemma nl_put_items:
  assumes "nl_ok l" "nl_items l = xs @ (a, e) # ys"
  shows "\<exists>l'. nl_put a f l = Inr l' \<and> nl_ok l' \<and> nl_items l' = xs @ (a, f e) # ys"
proof -
  note sp = ok_split [OF assms]
  let ?X = "map fst xs" and ?Y = "map fst ys"
  have d: "distinct (?X @ a # ?Y)" "seg (heap l) None (?X @ a # ?Y) None" using sp(1) by (auto simp: nl_rep_def)
  define n where "n = \<lparr>body = f e, prev = last_or None ?X, nxt = first ?Y\<rparr>"
  define l' where "l' = l\<lparr>heap := (heap l)(a \<mapsto> n)\<rparr>"
  have e1: "nl_put a f l = Inr l'" using sp(5) by (simp add: nl_put_def deref_def l'_def n_def)
  have "seg ((heap l)(a \<mapsto> n)) None (?X @ a # ?Y) None"
    using d by (auto simp: seg_append seg_upd_other n_def)
  then have r': "nl_rep l' (?X @ a # ?Y)" using sp(1) by (simp add: nl_rep_def l'_def)
  have "items_of ((heap l)(a \<mapsto> n)) ?X = items_of (heap l) ?X" "items_of ((heap l)(a \<mapsto> n)) ?Y = items_of (heap l) ?Y"
    using d(1) by (auto intro!: items_of_cong)
  then have "nl_items l' = xs @ (a, f e) # ys"
    using rep_items [OF r'] sp(2,3) by (simp add: l'_def n_def)
  then show ?thesis using e1 rep_ok [OF r'] by blast
qed

lemma find_node_seg:
  "seg h p xs None \<Longrightarrow> length xs \<le> n \<Longrightarrow>
   find_node n h P (first xs) = Inr (map_option fst (List.find (\<lambda>(a, e). P e) (items_of h xs)))"
proof (induction xs arbitrary: p n)
  case (Cons a xs)
  obtain k where "n = Suc k" using Cons.prems by (cases n) auto
  then show ?case using Cons.prems Cons.IH [of "Some a" k] by (auto simp: deref_def)
qed simp

lemma find_node_ok:
  assumes "nl_ok l" "length (nl_items l) \<le> n"
  shows "find_node n (heap l) P (lhead l) = Inr (map_option fst (List.find (\<lambda>(a, e). P e) (nl_items l)))"
proof -
  have r: "nl_rep l (nl_nodes l)" using assms(1) by (simp add: nl_ok_def)
  then show ?thesis
    using find_node_seg [of "heap l" None "nl_nodes l" n P] assms(2) rep_items [OF r] by (simp add: nl_rep_def)
qed

text \<open>
  \<open>getID\<close> answers an identifier no node has: the values tried are consecutive, wrapping at
  \<open>MAX_INT\<close>, so there are at most as many useless rounds as nodes.
\<close>

definition id_norm :: "int \<Rightarrow> int" where
  "id_norm i = (if i \<ge> MAX_INT then 1 else i)"

fun id_tried :: "int \<Rightarrow> nat \<Rightarrow> int" where
  "id_tried i 0 = id_norm i"
| "id_tried i (Suc t) = id_tried (id_norm i + 1) t"

lemma id_tried_eq: "1 \<le> i \<Longrightarrow> i \<le> MAX_INT \<Longrightarrow> id_tried i t = (id_norm i - 1 + int t) mod (MAX_INT - 1) + 1"
proof (induction t arbitrary: i)
  case 0
  then show ?case by (auto simp: id_norm_def)
next
  case (Suc t)
  define j where "j = id_norm i"
  have j: "1 \<le> j" "j < MAX_INT" using Suc.prems by (auto simp: j_def id_norm_def)
  have "id_tried i (Suc t) = (id_norm (j + 1) - 1 + int t) mod (MAX_INT - 1) + 1"
    using Suc.IH [of "j + 1"] j by (simp add: j_def)
  also have "(id_norm (j + 1) - 1 + int t) mod (MAX_INT - 1) = (j - 1 + int (Suc t)) mod (MAX_INT - 1)"
  proof (cases "j + 1 \<ge> MAX_INT")
    case True
    then have "j = 2147483646" using j by simp
    then have e: "j - 1 + int (Suc t) = int t + (MAX_INT - 1)" by simp
    show ?thesis unfolding e mod_add_self2 using \<open>j = 2147483646\<close> by (simp add: id_norm_def)
  next
    case False
    then show ?thesis by (simp add: id_norm_def algebra_simps)
  qed
  finally show ?case by (simp add: j_def)
qed

lemma id_tried_inj:
  assumes "1 \<le> i" "i \<le> MAX_INT" "m \<le> 2147483646"
  shows "inj_on (id_tried i) {..<m}"
proof (rule inj_onI)
  fix s t assume "s \<in> {..<m}" "t \<in> {..<m}" "id_tried i s = id_tried i t"
  then have e: "(id_norm i - 1 + int s) mod 2147483646 = (id_norm i - 1 + int t) mod 2147483646"
    and b: "s < 2147483646" "t < 2147483646"
    using id_tried_eq [OF assms(1,2)] assms(3) by auto
  then have d: "2147483646 dvd (int s - int t)" by (simp add: mod_eq_dvd_iff)
  have "int s - int t = 0"
  proof (rule ccontr)
    assume "int s - int t \<noteq> 0"
    then have "\<bar>2147483646\<bar> \<le> \<bar>int s - int t\<bar>" using d by (rule dvd_imp_le_int)
    then show False using b by linarith
  qed
  then show "s = t" by simp
qed

lemma get_id_tried:
  assumes f: "\<And>P. find_node n h P h0 = Inr (map_option fst (List.find (\<lambda>(a, e). P e) its))"
  shows "id_tried i t \<notin> (idf \<circ> snd) ` set its \<Longrightarrow> t < k \<Longrightarrow>
    \<exists>j. get_id k n h idf h0 i = Inr j \<and> j \<notin> (idf \<circ> snd) ` set its \<and> (\<exists>t. j = id_tried i t)"
proof (induction k arbitrary: i t)
  case (Suc k)
  show ?case
  proof (cases "id_norm i \<in> (idf \<circ> snd) ` set its")
    case False
    then have "List.find (\<lambda>(a, e). idf e = id_norm i) its = None" by (force simp: find_None_iff)
    then have "get_id (Suc k) n h idf h0 i = Inr (id_norm i)" by (simp add: f id_norm_def Let_def)
    moreover have "id_norm i = id_tried i 0" by simp
    ultimately show ?thesis using False by blast
  next
    case True
    then obtain a e where "(a, e) \<in> set its" "idf e = id_norm i" by auto
    then have "List.find (\<lambda>(a, e). idf e = id_norm i) its \<noteq> None" by (auto simp: find_None_iff)
    then have s: "get_id (Suc k) n h idf h0 i = get_id k n h idf h0 (id_norm i + 1)"
      by (auto simp: f id_norm_def Let_def)
    obtain u where "t = Suc u" using True Suc.prems by (cases t) auto
    then obtain j v where "get_id k n h idf h0 (id_norm i + 1) = Inr j" "j \<notin> (idf \<circ> snd) ` set its" "j = id_tried (id_norm i + 1) v"
      using Suc.IH [of "id_norm i + 1" u] Suc.prems by auto
    moreover have "id_tried (id_norm i + 1) v = id_tried i (Suc v)" by simp
    ultimately show ?thesis using s by metis
  qed
qed simp

lemma get_id_fresh:
  assumes "nl_ok l" "length (nl_items l) \<le> n" "length (nl_items l) < k" "length (nl_items l) < 2147483646"
    and "1 \<le> lid l" "lid l \<le> MAX_INT"
  shows "\<exists>j. get_id k n (heap l) idf (lhead l) (lid l) = Inr j \<and> j \<notin> (idf \<circ> snd) ` set (nl_items l) \<and>
    1 \<le> j \<and> j < MAX_INT"
proof -
  let ?its = "nl_items l" and ?m = "Suc (length (nl_items l))"
  have c: "card (id_tried (lid l) ` {..<?m}) = ?m"
    using id_tried_inj [OF assms(5,6), of ?m] assms(4) by (simp add: card_image)
  have "\<not> id_tried (lid l) ` {..<?m} \<subseteq> (idf \<circ> snd) ` set ?its"
  proof
    assume "id_tried (lid l) ` {..<?m} \<subseteq> (idf \<circ> snd) ` set ?its"
    then have "card (id_tried (lid l) ` {..<?m}) \<le> card ((idf \<circ> snd) ` set ?its)"
      by (intro card_mono finite_imageI finite_set)
    then have "?m \<le> card ((idf \<circ> snd) ` set ?its)" unfolding c .
    also have "\<dots> \<le> card (set ?its)" by (rule card_image_le) simp
    also have "\<dots> \<le> length ?its" by (rule card_length)
    finally show False by simp
  qed
  then obtain t where t: "t < ?m" "id_tried (lid l) t \<notin> (idf \<circ> snd) ` set ?its" by auto
  have "t < k" using t(1) assms(3) by simp
  have "\<exists>j. get_id k n (heap l) idf (lhead l) (lid l) = Inr j \<and> j \<notin> (idf \<circ> snd) ` set ?its \<and> (\<exists>t. j = id_tried (lid l) t)"
    by (rule get_id_tried [OF find_node_ok [OF assms(1,2)] t(2) \<open>t < k\<close>])
  then obtain j v where j: "get_id k n (heap l) idf (lhead l) (lid l) = Inr j" "j \<notin> (idf \<circ> snd) ` set ?its" "j = id_tried (lid l) v"
    by (elim exE conjE)
  have "1 \<le> j \<and> j < MAX_INT" unfolding j(3) id_tried_eq [OF assms(5,6)] by simp
  then show ?thesis using j by blast
qed

lemma free_nodes_seg:
  "seg h p xs None \<Longrightarrow> distinct xs \<Longrightarrow> length xs \<le> n \<Longrightarrow>
   \<exists>h'. free_nodes n h (first xs) = Inr h' \<and> (\<forall>a. h' a = (if a \<in> set xs then None else h a))"
proof (induction xs arbitrary: p n h)
  case (Cons a xs)
  obtain k where k: "n = Suc k" using Cons.prems by (cases n) auto
  obtain e where e: "h a = Some \<lparr>body = e, prev = p, nxt = first xs\<rparr>" and s: "seg h (Some a) xs None"
    using Cons.prems by auto
  have "seg (h(a := None)) (Some a) xs None" using s Cons.prems by (simp add: seg_upd_other)
  then obtain h' where "free_nodes k (h(a := None)) (first xs) = Inr h'"
    "\<forall>b. h' b = (if b \<in> set xs then None else (h(a := None)) b)"
    using Cons.IH [OF \<open>seg (h(a := None)) (Some a) xs None\<close>, of k] Cons.prems(2,3) k by (auto simp del: fun_upd_apply)
  then show ?case using k e by (auto simp: deref_def)
qed auto

lemma nl_clear_ok:
  assumes "nl_ok l" "length (nl_items l) \<le> n"
  shows "\<exists>l'. nl_clear n l = Inr l' \<and> nl_ok l' \<and> nl_items l' = [] \<and>
    (\<forall>a. heap l' a = (if a \<in> fst ` set (nl_items l) then None else heap l a))"
proof -
  have r: "nl_rep l (nl_nodes l)" using assms(1) by (simp add: nl_ok_def)
  have s: "set (nl_nodes l) = fst ` set (nl_items l)"
    by (simp add: nl_items_def flip: set_map)
  obtain h' where h: "free_nodes n (heap l) (lhead l) = Inr h'"
    "\<forall>a. h' a = (if a \<in> set (nl_nodes l) then None else heap l a)"
    using free_nodes_seg [of "heap l" None "nl_nodes l" n] r assms(2) by (auto simp: nl_rep_def nl_items_def)
  define l' where "l' = l\<lparr>heap := h', lhead := None, llen := 0, clearing := False\<rparr>"
  have "nl_clear n l = Inr l'" using h by (simp add: nl_clear_def l'_def)
  moreover have r': "nl_rep l' []" using r by (simp add: nl_rep_def l'_def)
  moreover have "nl_items l' = []" using rep_items [OF r'] by simp
  ultimately show ?thesis using rep_ok [OF r'] h(2) s by (auto simp: l'_def)
qed

lemma nl_link_items:
  assumes "nl_ok l" "a \<notin> fst ` set (nl_items l)" "length (nl_items l) < 2147483646"
  shows "\<exists>l'. nl_link a e l = Inr l' \<and> nl_ok l' \<and> nl_items l' = nl_items l @ [(a, e)] \<and> lid l' = lid l"
proof -
  have r: "nl_rep l (nl_nodes l)" using assms(1) by (simp add: nl_ok_def)
  have "set (nl_nodes l) = fst ` set (nl_items l)" "length (nl_nodes l) = length (nl_items l)"
    by (simp_all add: nl_items_def flip: set_map)
  then show ?thesis using nl_link_rep [OF r, of a e] assms(2,3) rep_ok by fastforce
qed

section \<open>The contract of a list of live objects\<close>

text \<open>
  What the sweeping threads and the message handlers use: walk from the first node, read a
  node and its successor, drop the node the walk stands on.
\<close>

locale node_list =
  fixes ok :: "'s \<Rightarrow> bool"
    and items :: "'s \<Rightarrow> (nat \<times> 'e) list"
    and start :: "'s \<Rightarrow> nat option"
    and stopped :: "'s \<Rightarrow> bool"
    and look :: "'s \<Rightarrow> nat \<Rightarrow> ('e \<times> nat option) res"
    and drop_node :: "nat \<Rightarrow> 's \<Rightarrow> (nat option \<times> 's) res"
  assumes start_law: "ok s \<Longrightarrow> start s = first (map fst (items s))"
    and stopped_law: "ok s \<Longrightarrow> \<not> stopped s"
    and look_law: "ok s \<Longrightarrow> items s = xs @ (a, e) # ys \<Longrightarrow> look s a = Inr (e, first (map fst ys))"
    and drop_law: "ok s \<Longrightarrow> items s = xs @ (a, e) # ys \<Longrightarrow>
      \<exists>s'. drop_node a s = Inr (first (map fst ys), s') \<and> ok s' \<and> items s' = xs @ ys"

text \<open>
  The walk of a sweeping thread from node \<open>p\<close>; \<open>dead k e\<close> is the thread's test on the object
  it finds in its \<open>k\<close>-th turn.
\<close>

fun sweep :: "nat \<Rightarrow> ('s \<Rightarrow> bool) \<Rightarrow> ('s \<Rightarrow> nat \<Rightarrow> ('e \<times> nat option) res) \<Rightarrow> (nat \<Rightarrow> 's \<Rightarrow> (nat option \<times> 's) res)
    \<Rightarrow> (nat \<Rightarrow> 'e \<Rightarrow> bool) \<Rightarrow> nat \<Rightarrow> nat option \<Rightarrow> 's \<Rightarrow> 's res" where
  "sweep n stopped look drop_node dead k None s = Inr s"
| "sweep 0 stopped look drop_node dead k (Some a) s = Inl Hang"
| "sweep (Suc n) stopped look drop_node dead k (Some a) s =
     (if stopped s then Inr s
      else rbind (look s a) (\<lambda>(e, nx).
        if dead k e then rbind (drop_node a s) (\<lambda>(nx', s'). sweep n stopped look drop_node dead (Suc k) nx' s')
        else sweep n stopped look drop_node dead (Suc k) nx s))"

text \<open>The objects that survive a sweep whose first turn is turn \<open>k\<close>.\<close>

fun survivors :: "(nat \<Rightarrow> 'e \<Rightarrow> bool) \<Rightarrow> nat \<Rightarrow> (nat \<times> 'e) list \<Rightarrow> (nat \<times> 'e) list" where
  "survivors dead k [] = []"
| "survivors dead k ((a, e) # ys) = (if dead k e then [] else [(a, e)]) @ survivors dead (Suc k) ys"

lemma survivors_const: "survivors (\<lambda>_. dead) k ys = filter (\<lambda>(a, e). \<not> dead e) ys"
  by (induction ys arbitrary: k) auto

context node_list
begin

lemma sweep_from:
  "ok s \<Longrightarrow> items s = xs @ ys \<Longrightarrow> length ys \<le> n \<Longrightarrow>
   \<exists>s'. sweep n stopped look drop_node dead k (first (map fst ys)) s = Inr s' \<and> ok s' \<and> items s' = xs @ survivors dead k ys"
proof (induction ys arbitrary: xs s n k)
  case (Cons y ys)
  obtain a e where y: "y = (a, e)" by (cases y)
  obtain m where n: "n = Suc m" using Cons.prems by (cases n) auto
  have i: "items s = xs @ (a, e) # ys" using Cons.prems y by simp
  note l = look_law [OF Cons.prems(1) i]
  show ?case
  proof (cases "dead k e")
    case True
    obtain s' where s': "drop_node a s = Inr (first (map fst ys), s')" "ok s'" "items s' = xs @ ys"
      using drop_law [OF Cons.prems(1) i] by blast
    obtain s2 where "sweep m stopped look drop_node dead (Suc k) (first (map fst ys)) s' = Inr s2" "ok s2"
      "items s2 = xs @ survivors dead (Suc k) ys"
      using Cons.IH [OF s'(2,3), of m "Suc k"] Cons.prems(3) n by auto
    then show ?thesis using y n l True s'(1) stopped_law [OF Cons.prems(1)] by simp
  next
    case False
    have i': "items s = (xs @ [(a, e)]) @ ys" using i by simp
    obtain s2 where "sweep m stopped look drop_node dead (Suc k) (first (map fst ys)) s = Inr s2" "ok s2"
      "items s2 = (xs @ [(a, e)]) @ survivors dead (Suc k) ys"
      using Cons.IH [OF Cons.prems(1) i', of m "Suc k"] Cons.prems(3) n by auto
    then show ?thesis using y n l False stopped_law [OF Cons.prems(1)] by simp
  qed
qed simp

text \<open>A whole sweep removes exactly the dead objects and keeps the order of the others.\<close>

lemma sweep_all:
  assumes "ok s" "length (items s) \<le> n"
  shows "\<exists>s'. sweep n stopped look drop_node dead 0 (start s) s = Inr s' \<and> ok s' \<and> items s' = survivors dead 0 (items s)"
  using sweep_from [OF assms(1), of "[]" "items s" n dead 0] assms start_law [OF assms(1)] by simp

end

interpretation nl: node_list nl_ok nl_items lhead clearing nl_look nl_unlink
proof
  fix s :: "'a nlist" assume "nl_ok s"
  then have "lhead s = first (nl_nodes s) \<and> \<not> clearing s" by (simp only: nl_ok_def nl_rep_def simp_thms)
  moreover have "map fst (nl_items s) = nl_nodes s" by (simp add: nl_items_def)
  ultimately show "lhead s = first (map fst (nl_items s))" "\<not> clearing s" by simp_all
next
  fix s :: "'a nlist" and xs a e ys assume "nl_ok s" "nl_items s = xs @ (a, e) # ys"
  then show "nl_look s a = Inr (e, first (map fst ys))" by (rule nl_look_items)
next
  fix s :: "'a nlist" and xs a e ys assume "nl_ok s" "nl_items s = xs @ (a, e) # ys"
  from nl_unlink_items [OF this]
  show "\<exists>s'. nl_unlink a s = Inr (first (map fst ys), s') \<and> nl_ok s' \<and> nl_items s' = xs @ ys"
    by (elim exE conjE) (intro exI conjI, assumption+)
qed

end
