(* ===== verification/Fishs.thy ===== *)
theory Fishs
  imports NodeList Setting Format
begin

text \<open>
  The fish of a room (\<open>src/source/fishs.hpp\<close>): the objects, the list with its operations, and
  the message that announces a fish. \<open>rs k\<close> is the \<open>k\<close>-th value \<open>rand()\<close> answers during a
  call (never negative: \<open>replace_random\<close> of \<open>src/win32fixes.c\<close> shifts the sign bit out),
  \<open>a\<close> the address the allocator answers, \<open>now\<close> the time in microseconds. The member \<open>area\<close> is
  never assigned and never read.
\<close>

record Point =
  px :: int
  py :: int

record Fish =
  f_id :: int
  f_start :: Point
  f_ctr1 :: Point
  f_ctr2 :: Point
  f_end :: Point
  f_angle :: int
  f_factor :: int
  f_fish :: S_Setting_Fish
  f_type :: int
  f_hit_coin :: int
  f_lock :: int
  f_isdel :: int
  f_create_time :: int

type_synonym Fishs = "Fish nlist"

text \<open>The macro \<open>my_random(min_n, max_n)\<close>, over one value of \<open>rand()\<close>.\<close>

definition my_random :: "int \<Rightarrow> int \<Rightarrow> int \<Rightarrow> int" where
  "my_random r min_n max_n = min_n + c_mod r (max_n - min_n + 1)"

definition fishs_init :: Fishs where
  "fishs_init = \<lparr>heap = (\<lambda>_. None), lhead = None, lcurr = None, lid = 1, llen = 0, llock = False, clearing = False\<rparr>"

definition fishs_getLength :: "Fishs \<Rightarrow> int" where
  "fishs_getLength l = llen l"

definition fishs_getHead :: "Fishs \<Rightarrow> nat option" where
  "fishs_getHead l = lhead l"

definition fishs_getID :: "nat \<Rightarrow> nat \<Rightarrow> Fishs \<Rightarrow> int res" where
  "fishs_getID k n l = get_id k n (heap l) f_id (lhead l) (lid l)"

text \<open>The fields of a new fish. Value 0 of \<open>rs\<close> goes to the local variable \<open>rand\<close>.\<close>

definition new_fish :: "(nat \<Rightarrow> int) \<Rightarrow> int \<Rightarrow> int \<Rightarrow> S_Setting_Fish \<Rightarrow> Fish" where
  "new_fish rs i now sf =
     (let factor = my_random (rs 1) 1 100;
          sx0 = 0 - my_random (rs 2) 200 500;
          ex0 = my_random (rs 3) 1200 1500;
          turn = (my_random (rs 4) 0 1 \<noteq> 0);
          sx = (if turn then ex0 else sx0);
          ex = (if turn then sx0 else ex0)
      in \<lparr>f_id = i,
          f_start = \<lparr>px = sx, py = my_random (rs 5) 0 600\<rparr>,
          f_ctr1 = \<lparr>px = my_random (rs 7) 0 600, py = my_random (rs 8) 0 600\<rparr>,
          f_ctr2 = \<lparr>px = my_random (rs 9) 200 1000, py = my_random (rs 10) 0 600\<rparr>,
          f_end = \<lparr>px = ex, py = my_random (rs 6) 0 600\<rparr>,
          f_angle = my_random (rs 11) 0 360, f_factor = factor, f_fish = sf,
          f_type = my_random (rs 13) 0 22, f_hit_coin = 0, f_lock = 0, f_isdel = 0, f_create_time = now\<rparr>)"

text \<open>
  \<open>create\<close>: NULL when the settings have no such fish; with no fish at all the remainder is by 0.
\<close>

definition fishs_create :: "nat \<Rightarrow> nat \<Rightarrow> (nat \<Rightarrow> int) \<Rightarrow> nat \<Rightarrow> Setting \<Rightarrow> int \<Rightarrow> Fishs \<Rightarrow> (nat option \<times> Fishs) res" where
  "fishs_create k n rs a st now l =
     (if llock l then Inl Hang
      else rbind (fishs_getID k n l) (\<lambda>i.
        if getFishQty st = 0 then Inl DivByZero
        else rbind (setting_getFish st (my_random (rs 12) 0 (getFishQty st - 1))) (\<lambda>sf.
          case sf of
            None \<Rightarrow> Inr (None, l\<lparr>lid := i\<rparr>)
          | Some sf \<Rightarrow> rbind (nl_link a (new_fish rs i now sf) (l\<lparr>lid := i\<rparr>)) (\<lambda>l'. Inr (Some a, l')))))"

definition fishs_destroy :: "nat \<Rightarrow> Fishs \<Rightarrow> (nat option \<times> Fishs) res" where
  "fishs_destroy a l = (if llock l then Inl Hang else nl_unlink a l)"

text \<open>
  \<open>getFish(id)\<close> looks at the first fish with the identifier only: locked or deleted, the
  answer is NULL; otherwise the fish is locked.
\<close>

definition fishs_getFish :: "nat \<Rightarrow> int \<Rightarrow> Fishs \<Rightarrow> (nat option \<times> Fishs) res" where
  "fishs_getFish n i l =
     (if llock l then Inl Hang
      else rbind (find_node n (heap l) (\<lambda>e. f_id e = i) (lhead l)) (\<lambda>r.
        case r of None \<Rightarrow> Inr (None, l)
        | Some a \<Rightarrow> rbind (nl_look l a) (\<lambda>(e, _).
            if f_lock e = 0 \<and> f_isdel e = 0
            then rbind (nl_put a (f_lock_update (\<lambda>_. 1)) l) (\<lambda>l'. Inr (Some a, l'))
            else Inr (None, l))))"

definition fishs_clear :: "nat \<Rightarrow> Fishs \<Rightarrow> Fishs res" where
  "fishs_clear n l = (if llock l then Inl Hang else nl_clear n l)"

definition json_point :: "Point \<Rightarrow> string" where
  "json_point p = ''{x:'' @ dec_int (px p) @ '', y:'' @ dec_int (py p) @ ''}''"

definition fishJson :: "Fish \<Rightarrow> string res" where
  "fishJson p = sprintf_buf 300
     (''{op:'' @ [CHR 0x27] @ ''new fish'' @ [CHR 0x27] @ '', id:'' @ dec_int (f_id p) @ '', factor:'' @ dec_int (f_factor p) @
      '', type:'' @ dec_int (f_type p) @ '', cp:['' @ json_point (f_start p) @ '','' @ json_point (f_ctr1 p) @ '','' @
      json_point (f_ctr2 p) @ '','' @ json_point (f_end p) @ ''], create:'' @ fmt_time (f_create_time p) @ ''}'')"

section \<open>The fish are a list of live objects\<close>

definition fishs_ok :: "Fishs \<Rightarrow> bool" where
  "fishs_ok l \<longleftrightarrow> nl_ok l \<and> 1 \<le> lid l \<and> lid l \<le> MAX_INT \<and> distinct (map (f_id \<circ> snd) (nl_items l))"

lemma ok_unlocked: "nl_ok l \<Longrightarrow> \<not> llock l"
  by (simp only: nl_ok_def nl_rep_def simp_thms)

interpretation fishs: node_list fishs_ok nl_items fishs_getHead clearing nl_look fishs_destroy
proof
  fix s :: Fishs assume s: "fishs_ok s"
  then have ok: "nl_ok s" by (simp add: fishs_ok_def)
  show "fishs_getHead s = first (map fst (nl_items s))" using nl.start_law [OF ok] by (simp add: fishs_getHead_def)
  show "\<not> clearing s" by (rule nl.stopped_law [OF ok])
  fix xs a e ys assume i: "nl_items s = xs @ (a, e) # ys"
  show "nl_look s a = Inr (e, first (map fst ys))" by (rule nl.look_law [OF ok i])
  obtain s' where r: "nl_unlink a s = Inr (first (map fst ys), s')" "nl_ok s'" "nl_items s' = xs @ ys"
    using nl.drop_law [OF ok i] by (elim exE conjE)
  have "fishs_ok s'" using s r(2,3) nl_unlink_lid [OF r(1)] i by (simp add: fishs_ok_def)
  then show "\<exists>s'. fishs_destroy a s = Inr (first (map fst ys), s') \<and> fishs_ok s' \<and> nl_items s' = xs @ ys"
    using r ok_unlocked [OF ok] by (simp add: fishs_destroy_def)
qed

lemma fishs_init_ok: "fishs_ok fishs_init \<and> nl_items fishs_init = []"
proof -
  have "nl_rep fishs_init []" by (simp add: nl_rep_def fishs_init_def)
  from rep_ok [OF this] rep_items [OF this] show ?thesis by (simp add: fishs_ok_def fishs_init_def)
qed

lemma my_random_bounds: "0 \<le> r \<Longrightarrow> lo \<le> hi \<Longrightarrow> lo \<le> my_random r lo hi \<and> my_random r lo hi \<le> hi"
  using pos_mod_bound [of "hi - lo + 1" r] by (auto simp: my_random_def c_mod_nonneg pos_mod_sign)

text \<open>What a new fish looks like: it starts off one side of the screen and ends off the other.\<close>

definition fish_in_bounds :: "Fish \<Rightarrow> bool" where
  "fish_in_bounds p \<longleftrightarrow>
     (- 500 \<le> px (f_start p) \<and> px (f_start p) \<le> - 200 \<and> 1200 \<le> px (f_end p) \<and> px (f_end p) \<le> 1500 \<or>
      - 500 \<le> px (f_end p) \<and> px (f_end p) \<le> - 200 \<and> 1200 \<le> px (f_start p) \<and> px (f_start p) \<le> 1500) \<and>
     0 \<le> py (f_start p) \<and> py (f_start p) \<le> 600 \<and> 0 \<le> py (f_end p) \<and> py (f_end p) \<le> 600 \<and>
     0 \<le> px (f_ctr1 p) \<and> px (f_ctr1 p) \<le> 600 \<and> 0 \<le> py (f_ctr1 p) \<and> py (f_ctr1 p) \<le> 600 \<and>
     200 \<le> px (f_ctr2 p) \<and> px (f_ctr2 p) \<le> 1000 \<and> 0 \<le> py (f_ctr2 p) \<and> py (f_ctr2 p) \<le> 600 \<and>
     1 \<le> f_factor p \<and> f_factor p \<le> 100 \<and> 0 \<le> f_type p \<and> f_type p \<le> 22 \<and>
     f_hit_coin p = 0 \<and> f_lock p = 0 \<and> f_isdel p = 0"

lemma new_fish_in_bounds:
  assumes "\<And>k. 0 \<le> rs k"
  shows "fish_in_bounds (new_fish rs i now sf)"
  using my_random_bounds [OF assms, of 1 100 1] my_random_bounds [OF assms, of 200 500 2]
    my_random_bounds [OF assms, of 1200 1500 3] my_random_bounds [OF assms, of 0 600 5]
    my_random_bounds [OF assms, of 0 600 6] my_random_bounds [OF assms, of 0 600 7]
    my_random_bounds [OF assms, of 0 600 8] my_random_bounds [OF assms, of 200 1000 9]
    my_random_bounds [OF assms, of 0 600 10] my_random_bounds [OF assms, of 0 22 13]
  by (simp add: fish_in_bounds_def new_fish_def Let_def)

lemma fishs_create_ok:
  assumes "fishs_ok l" "a \<notin> fst ` set (nl_items l)" "length (nl_items l) < 2147483645"
    and "length (nl_items l) \<le> n" "length (nl_items l) < k" "\<And>j. 0 \<le> rs j" "fish st \<noteq> []"
  shows "\<exists>i sf l'. fishs_create k n rs a st now l = Inr (Some a, l') \<and> fishs_ok l' \<and> sf \<in> set (fish st) \<and>
    i \<notin> (f_id \<circ> snd) ` set (nl_items l) \<and> 1 \<le> i \<and> i < MAX_INT \<and>
    nl_items l' = nl_items l @ [(a, new_fish rs i now sf)]"
proof -
  have ok: "nl_ok l" and d: "distinct (map (f_id \<circ> snd) (nl_items l))" and b: "1 \<le> lid l" "lid l \<le> MAX_INT"
    using assms(1) by (auto simp: fishs_ok_def)
  obtain i where i: "fishs_getID k n l = Inr i" "i \<notin> (f_id \<circ> snd) ` set (nl_items l)" "1 \<le> i" "i < MAX_INT"
    using get_id_fresh [OF ok assms(4,5) _ b, of f_id] assms(3) by (auto simp: fishs_getID_def)
  define q where "q = my_random (rs 12) 0 (getFishQty st - 1)"
  have q: "0 \<le> q" "q < getFishQty st"
    using my_random_bounds [OF assms(6), of 0 "getFishQty st - 1" 12] assms(7)
    by (auto simp: q_def getFishQty_def)
  define sf where "sf = fish st ! nat q"
  have sf: "setting_getFish st q = Inr (Some sf)" "sf \<in> set (fish st)"
    using q by (auto simp: setting_getFish_def sf_def getFishQty_def)
  let ?l = "l\<lparr>lid := i\<rparr>"
  have ni: "nl_items ?l = nl_items l" "nl_nodes ?l = nl_nodes l" by (simp_all add: nl_items_def nl_nodes_def)
  have ok': "nl_ok ?l" using ok unfolding nl_ok_def ni(2) by (simp add: nl_rep_def)
  obtain l' where l': "nl_link a (new_fish rs i now sf) ?l = Inr l'" "nl_ok l'"
    "nl_items l' = nl_items ?l @ [(a, new_fish rs i now sf)]" "lid l' = lid ?l"
    using nl_link_items [OF ok', of a "new_fish rs i now sf"] assms(2,3) ni by auto
  have idn: "f_id (new_fish rs i now sf) = i" by (simp add: new_fish_def Let_def)
  have e: "fishs_create k n rs a st now l = Inr (Some a, l')"
    using ok_unlocked [OF ok] i sf l'(1) assms(7) by (simp add: fishs_create_def q_def getFishQty_def)
  have "fishs_ok l'" using l' d i idn ni by (auto simp: fishs_ok_def)
  then show ?thesis using e sf(2) i l' ni by auto
qed

lemma fishJson_fits:
  assumes "fish_in_bounds p" "1 \<le> f_id p" "f_id p < MAX_INT" "0 \<le> f_create_time p" "f_create_time p < 4000000000000000"
  shows "\<exists>s. fishJson p = Inr s \<and> length s < 300"
proof -
  have l: "length (dec_int i) \<le> 11" if "- 500 \<le> i" "i < MAX_INT" for i using length_dec_i32 [of i] that by simp
  have b: "length (dec_int (f_id p)) \<le> 11" "length (dec_int (f_factor p)) \<le> 11" "length (dec_int (f_type p)) \<le> 11"
    "length (json_point (f_start p)) \<le> 30" "length (json_point (f_ctr1 p)) \<le> 30"
    "length (json_point (f_ctr2 p)) \<le> 30" "length (json_point (f_end p)) \<le> 30"
    using assms(1-3) l [of "f_id p"] l [of "f_factor p"] l [of "f_type p"]
      l [of "px (f_start p)"] l [of "py (f_start p)"] l [of "px (f_ctr1 p)"] l [of "py (f_ctr1 p)"]
      l [of "px (f_ctr2 p)"] l [of "py (f_ctr2 p)"] l [of "px (f_end p)"] l [of "py (f_end p)"]
    by (auto simp: fish_in_bounds_def json_point_def)
  show ?thesis using b length_fmt_time [OF assms(4,5)] by (simp add: fishJson_def sprintf_buf_def)
qed

text \<open>Looking a fish up locks it; a second look-up of the same fish fails until it is unlocked.\<close>

lemma fishs_getFish_locks:
  assumes "fishs_ok l" "nl_items l = xs @ (a, e) # ys" "f_lock e = 0" "f_isdel e = 0" "length (nl_items l) \<le> n"
  shows "\<exists>l'. fishs_getFish n (f_id e) l = Inr (Some a, l') \<and> fishs_ok l' \<and> nl_items l' = xs @ (a, e\<lparr>f_lock := 1\<rparr>) # ys \<and>
    fishs_getFish n (f_id e) l' = Inr (None, l')"
proof -
  have ok: "nl_ok l" and d: "distinct (map (f_id \<circ> snd) (nl_items l))" using assms(1) by (auto simp: fishs_ok_def)
  have "f_id e \<notin> set (map (f_id \<circ> snd) xs)" using d assms(2) by simp
  then have notin: "\<forall>z \<in> set xs. f_id (snd z) \<noteq> f_id e" by (metis comp_apply image_eqI list.set_map)
  have fnd: "List.find (\<lambda>(a, e'). f_id e' = f_id e) (xs @ (a, e') # ys) = Some (a, e')" if "f_id e' = f_id e" for e'
    using notin that by (induction xs) auto
  have u: "\<not> llock l" by (rule ok_unlocked [OF ok])
  obtain l' where l': "nl_put a (f_lock_update (\<lambda>_. 1)) l = Inr l'" "nl_ok l'" "nl_items l' = xs @ (a, e\<lparr>f_lock := 1\<rparr>) # ys"
    using nl_put_items [OF ok assms(2), of "f_lock_update (\<lambda>_. 1)"] by auto
  have "fishs_getFish n (f_id e) l = Inr (Some a, l')"
    using find_node_ok [OF ok assms(5), of "\<lambda>e'. f_id e' = f_id e"] fnd [of e] assms(2-4) u l'(1) nl.look_law [OF ok assms(2)]
    by (simp add: fishs_getFish_def)
  moreover have "lid l' = lid l" using l'(1) by (auto simp: nl_put_def rbind_eq_Inr)
  then have "fishs_ok l'" using assms(1,2) l' by (simp add: fishs_ok_def)
  moreover have "fishs_getFish n (f_id e) l' = Inr (None, l')"
    using find_node_ok [OF l'(2), of n "\<lambda>e'. f_id e' = f_id e"] fnd [of "e\<lparr>f_lock := 1\<rparr>"] assms(2,5) l'(3)
      ok_unlocked [OF l'(2)] nl.look_law [OF l'(2,3)]
    by (simp add: fishs_getFish_def)
  ultimately show ?thesis using l'(3) by blast
qed

lemma create_announces:
  assumes "fishs_ok l" "a \<notin> fst ` set (nl_items l)" "length (nl_items l) < 2147483645"
    and "length (nl_items l) \<le> n" "length (nl_items l) < k" "\<And>j. 0 \<le> rs j" "fish st \<noteq> []"
    and "0 \<le> now" "now < 4000000000000000"
  shows "\<exists>p s l'. fishs_create k n rs a st now l = Inr (Some a, l') \<and> fishs_ok l' \<and>
    nl_items l' = nl_items l @ [(a, p)] \<and> f_id p \<notin> (f_id \<circ> snd) ` set (nl_items l) \<and>
    fish_in_bounds p \<and> f_fish p \<in> set (fish st) \<and> fishJson p = Inr s \<and> length s < 300"
proof -
  obtain i sf l' where r: "fishs_create k n rs a st now l = Inr (Some a, l')" "fishs_ok l'" "sf \<in> set (fish st)"
    "i \<notin> (f_id \<circ> snd) ` set (nl_items l)" "1 \<le> i" "i < MAX_INT" "nl_items l' = nl_items l @ [(a, new_fish rs i now sf)]"
    using fishs_create_ok [of l a n k rs st now] assms by blast
  have f: "f_id (new_fish rs i now sf) = i" "f_fish (new_fish rs i now sf) = sf" "f_create_time (new_fish rs i now sf) = now"
    by (simp_all add: new_fish_def Let_def)
  have nb: "fish_in_bounds (new_fish rs i now sf)" by (rule new_fish_in_bounds [OF assms(6)])
  obtain s where "fishJson (new_fish rs i now sf) = Inr s" "length s < 300"
    using fishJson_fits [OF nb] f r(5,6) assms(8,9) by auto
  then show ?thesis using r f nb by fastforce
qed

section \<open>Properties\<close>

text \<open>
  C33: with at least one fish configured, \<open>create\<close> ends, appends one fish to the list and
  keeps the list well linked and the identifiers distinct; the new identifier is not in use,
  also when the counter has wrapped; the path starts beyond one side of the screen and ends
  beyond the other; and the message announcing the fish fits its buffer of 300 bytes.
\<close>

theorem fishs_create_appends:
  assumes "fishs_ok l" "a \<notin> fst ` set (nl_items l)" "length (nl_items l) < 2147483645"
    and "length (nl_items l) \<le> n" "length (nl_items l) < k" "\<And>j. 0 \<le> rs j" "fish st \<noteq> []"
    and "0 \<le> now" "now < 4000000000000000"
  shows "\<exists>p s l'. fishs_create k n rs a st now l = Inr (Some a, l') \<and> fishs_ok l' \<and>
    nl_items l' = nl_items l @ [(a, p)] \<and> f_id p \<notin> (f_id \<circ> snd) ` set (nl_items l) \<and>
    fish_in_bounds p \<and> f_fish p \<in> set (fish st) \<and> fishJson p = Inr s \<and> length s < 300"
  by (rule create_announces [OF assms])

lemma fishs_create_appends_witness:
  "\<exists>p s l'. fishs_create 1 0 (\<lambda>_. 7) 11 \<lparr>vals = no_values, systems = [], level_list = [], vip_level_list = [],
      fish = [\<lparr>fish_id = 1, fish_no = 2, fish_coin = 3\<rparr>], closeing = False\<rparr> 1500000000000000 fishs_init = Inr (Some 11, l') \<and>
    fishs_ok l' \<and> nl_items l' = nl_items fishs_init @ [(11, p)] \<and> f_id p \<notin> (f_id \<circ> snd) ` set (nl_items fishs_init) \<and>
    fish_in_bounds p \<and> f_fish p \<in> set [\<lparr>fish_id = 1, fish_no = 2, fish_coin = 3\<rparr>] \<and> fishJson p = Inr s \<and> length s < 300"
  using fishs_create_appends [of fishs_init 11 0 1 "\<lambda>_. 7" "\<lparr>vals = no_values, systems = [], level_list = [], vip_level_list = [],
      fish = [\<lparr>fish_id = 1, fish_no = 2, fish_coin = 3\<rparr>], closeing = False\<rparr>" 1500000000000000] fishs_init_ok
  by simp

text \<open>
  Looking a fish up by its identifier locks it: the fish that is neither locked nor
  deleted is answered and marked, and until it is unlocked every further look-up of the same
  identifier answers NULL and changes nothing, so two hits never count the same fish twice.
\<close>

theorem fishs_getFish_exclusive:
  assumes "fishs_ok l" "nl_items l = xs @ (a, e) # ys" "f_lock e = 0" "f_isdel e = 0" "length (nl_items l) \<le> n"
  shows "\<exists>l'. fishs_getFish n (f_id e) l = Inr (Some a, l') \<and> fishs_ok l' \<and> nl_items l' = xs @ (a, e\<lparr>f_lock := 1\<rparr>) # ys \<and>
    fishs_getFish n (f_id e) l' = Inr (None, l')"
  by (rule fishs_getFish_locks [OF assms])

text \<open>A list of one fish.\<close>

definition one_fish :: Fishs where
  "one_fish = fishs_init\<lparr>heap := [11 \<mapsto> \<lparr>body = new_fish (\<lambda>_. 7) 1 0 \<lparr>fish_id = 1, fish_no = 2, fish_coin = 3\<rparr>,
      prev = None, nxt = None\<rparr>], lhead := Some 11, lcurr := Some 11, llen := 1\<rparr>"

lemma one_fish_ok:
  "fishs_ok one_fish \<and> nl_items one_fish = [(11, new_fish (\<lambda>_. 7) 1 0 \<lparr>fish_id = 1, fish_no = 2, fish_coin = 3\<rparr>)]"
proof -
  have "nl_rep one_fish [11]" by (simp add: nl_rep_def one_fish_def fishs_init_def)
  from rep_ok [OF this] rep_items [OF this] show ?thesis by (simp add: fishs_ok_def one_fish_def fishs_init_def)
qed

lemma fishs_getFish_exclusive_witness:
  "\<exists>l'. fishs_getFish 1 1 one_fish = Inr (Some 11, l') \<and> fishs_getFish 1 1 l' = Inr (None, l')"
proof -
  let ?e = "new_fish (\<lambda>_. 7) 1 0 \<lparr>fish_id = 1, fish_no = 2, fish_coin = 3\<rparr>"
  have e: "f_lock ?e = 0" "f_isdel ?e = 0" "f_id ?e = 1" by (simp_all add: new_fish_def Let_def)
  show ?thesis
    using fishs_getFish_exclusive [of one_fish "[]" 11 ?e "[]" 1] one_fish_ok e by auto
qed

end
