(* ===== verification/Bullets.thy ===== *)
theory Bullets
  imports NodeList Format
begin

text \<open>
  The bullets of a room (\<open>src/source/bullets.hpp\<close>). The angle is a \<open>float\<close> the program only
  stores and prints: a type parameter. The list code is that of the fish.
\<close>

record 'f Bullet =
  b_id :: int
  b_uid :: int
  b_x :: int
  b_y :: int
  b_angle :: 'f
  b_create_time :: int
  b_lock :: int
  b_isdel :: int

type_synonym 'f Bullets = "'f Bullet nlist"

definition bullets_init :: "'f Bullets" where
  "bullets_init = \<lparr>heap = (\<lambda>_. None), lhead = None, lcurr = None, lid = 1, llen = 0, llock = False, clearing = False\<rparr>"

definition bullets_getLength :: "'f Bullets \<Rightarrow> int" where
  "bullets_getLength l = llen l"

definition bullets_getHead :: "'f Bullets \<Rightarrow> nat option" where
  "bullets_getHead l = lhead l"

definition bullets_getID :: "nat \<Rightarrow> nat \<Rightarrow> 'f Bullets \<Rightarrow> int res" where
  "bullets_getID k n l = get_id k n (heap l) b_id (lhead l) (lid l)"

definition bullets_create :: "nat \<Rightarrow> nat \<Rightarrow> nat \<Rightarrow> int \<Rightarrow> int \<Rightarrow> int \<Rightarrow> 'f \<Rightarrow> int \<Rightarrow> 'f Bullets \<Rightarrow> (nat \<times> 'f Bullets) res" where
  "bullets_create k n a uid x y angle now l =
     (if llock l then Inl Hang
      else rbind (bullets_getID k n l) (\<lambda>i.
        rbind (nl_link a \<lparr>b_id = i, b_uid = uid, b_x = x, b_y = y, b_angle = angle, b_create_time = now,
            b_lock = 0, b_isdel = 0\<rparr> (l\<lparr>lid := i\<rparr>)) (\<lambda>l'. Inr (a, l'))))"

definition bullets_destroy :: "nat \<Rightarrow> 'f Bullets \<Rightarrow> (nat option \<times> 'f Bullets) res" where
  "bullets_destroy a l = (if llock l then Inl Hang else nl_unlink a l)"

definition bullets_getBullet :: "nat \<Rightarrow> int \<Rightarrow> int \<Rightarrow> 'f Bullets \<Rightarrow> nat option res" where
  "bullets_getBullet n i uid l =
     (if llock l then Inl Hang
      else find_node n (heap l) (\<lambda>e. b_id e = i \<and> b_uid e = uid \<and> b_lock e = 0 \<and> b_isdel e = 0) (lhead l))"

definition bullets_clear :: "nat \<Rightarrow> 'f Bullets \<Rightarrow> 'f Bullets res" where
  "bullets_clear n l = (if llock l then Inl Hang else nl_clear n l)"

section \<open>The bullets are a list of live objects\<close>

definition bullets_ok :: "'f Bullets \<Rightarrow> bool" where
  "bullets_ok l \<longleftrightarrow> nl_ok l \<and> 1 \<le> lid l \<and> lid l \<le> MAX_INT \<and> distinct (map (b_id \<circ> snd) (nl_items l))"

lemma bullets_unlocked: "nl_ok l \<Longrightarrow> \<not> llock l"
  by (simp only: nl_ok_def nl_rep_def simp_thms)

interpretation bullets: node_list bullets_ok nl_items bullets_getHead clearing nl_look bullets_destroy
proof
  fix s :: "'f Bullets" assume s: "bullets_ok s"
  then have ok: "nl_ok s" by (simp add: bullets_ok_def)
  show "bullets_getHead s = first (map fst (nl_items s))" using nl.start_law [OF ok] by (simp add: bullets_getHead_def)
  show "\<not> clearing s" by (rule nl.stopped_law [OF ok])
  fix xs a e ys assume i: "nl_items s = xs @ (a, e) # ys"
  show "nl_look s a = Inr (e, first (map fst ys))" by (rule nl.look_law [OF ok i])
  obtain s' where r: "nl_unlink a s = Inr (first (map fst ys), s')" "nl_ok s'" "nl_items s' = xs @ ys"
    using nl.drop_law [OF ok i] by (elim exE conjE)
  have "bullets_ok s'" using s r(2,3) nl_unlink_lid [OF r(1)] i by (simp add: bullets_ok_def)
  then show "\<exists>s'. bullets_destroy a s = Inr (first (map fst ys), s') \<and> bullets_ok s' \<and> nl_items s' = xs @ ys"
    using r bullets_unlocked [OF ok] by (simp add: bullets_destroy_def)
qed

lemma bullets_init_ok: "bullets_ok (bullets_init :: 'f Bullets) \<and> nl_items (bullets_init :: 'f Bullets) = []"
proof -
  have "nl_rep (bullets_init :: 'f Bullets) []" by (simp add: nl_rep_def bullets_init_def)
  from rep_ok [OF this] rep_items [OF this] show ?thesis by (simp add: bullets_ok_def bullets_init_def)
qed

lemma bullets_create_ok:
  assumes "bullets_ok l" "a \<notin> fst ` set (nl_items l)" "length (nl_items l) < 2147483645"
    and "length (nl_items l) \<le> n" "length (nl_items l) < k"
  shows "\<exists>i l'. bullets_create k n a uid x y angle now l = Inr (a, l') \<and> bullets_ok l' \<and>
    i \<notin> (b_id \<circ> snd) ` set (nl_items l) \<and> 1 \<le> i \<and> i < MAX_INT \<and>
    nl_items l' = nl_items l @ [(a, \<lparr>b_id = i, b_uid = uid, b_x = x, b_y = y, b_angle = angle, b_create_time = now,
            b_lock = 0, b_isdel = 0\<rparr>)]"
proof -
  have ok: "nl_ok l" and d: "distinct (map (b_id \<circ> snd) (nl_items l))" and b: "1 \<le> lid l" "lid l \<le> MAX_INT"
    using assms(1) by (auto simp: bullets_ok_def)
  obtain i where i: "bullets_getID k n l = Inr i" "i \<notin> (b_id \<circ> snd) ` set (nl_items l)" "1 \<le> i" "i < MAX_INT"
    using get_id_fresh [OF ok assms(4,5) _ b, of b_id] assms(3) by (auto simp: bullets_getID_def)
  let ?l = "l\<lparr>lid := i\<rparr>"
  let ?e = "\<lparr>b_id = i, b_uid = uid, b_x = x, b_y = y, b_angle = angle, b_create_time = now, b_lock = 0, b_isdel = 0\<rparr>"
  have ni: "nl_items ?l = nl_items l" "nl_nodes ?l = nl_nodes l" by (simp_all add: nl_items_def nl_nodes_def)
  have ok': "nl_ok ?l" using ok unfolding nl_ok_def ni(2) by (simp add: nl_rep_def)
  obtain l' where l': "nl_link a ?e ?l = Inr l'" "nl_ok l'"
    "nl_items l' = nl_items ?l @ [(a, ?e)]" "lid l' = lid ?l"
    using nl_link_items [OF ok', of a ?e] assms(2,3) ni by auto
  have e: "bullets_create k n a uid x y angle now l = Inr (a, l')"
    using bullets_unlocked [OF ok] i l'(1) by (simp add: bullets_create_def)
  have "bullets_ok l'" using l' d i ni by (auto simp: bullets_ok_def)
  then show ?thesis using e i l' ni by auto
qed

lemma bullets_getBullet_own:
  assumes "bullets_ok l" "length (nl_items l) \<le> n"
  shows "bullets_getBullet n i uid l = Inr (map_option fst (List.find
     (\<lambda>(a, e). b_id e = i \<and> b_uid e = uid \<and> b_lock e = 0 \<and> b_isdel e = 0) (nl_items l)))"
proof -
  have ok: "nl_ok l" using assms(1) by (simp add: bullets_ok_def)
  show ?thesis using find_node_ok [OF ok assms(2)] bullets_unlocked [OF ok] by (simp add: bullets_getBullet_def)
qed

section \<open>Properties\<close>

text \<open>
  \<open>create\<close> ends and appends exactly one bullet with the shooter's data and an identifier
  not in use; the bullet can then be looked up by its own player only: under another player's
  identifier the answer is NULL.
\<close>

theorem bullets_create_owned:
  assumes "bullets_ok l" "a \<notin> fst ` set (nl_items l)" "length (nl_items l) < 2147483645"
    and "length (nl_items l) < n" "length (nl_items l) < k" "other \<noteq> uid"
  shows "\<exists>i l'. bullets_create k n a uid x y angle now l = Inr (a, l') \<and> bullets_ok l' \<and>
    map fst (nl_items l') = map fst (nl_items l) @ [a] \<and>
    bullets_getBullet n i uid l' = Inr (Some a) \<and> bullets_getBullet n i other l' = Inr None"
proof -
  obtain i l' where r: "bullets_create k n a uid x y angle now l = Inr (a, l')" "bullets_ok l'"
    "i \<notin> (b_id \<circ> snd) ` set (nl_items l)"
    "nl_items l' = nl_items l @ [(a, \<lparr>b_id = i, b_uid = uid, b_x = x, b_y = y, b_angle = angle, b_create_time = now,
            b_lock = 0, b_isdel = 0\<rparr>)]"
    using bullets_create_ok [OF assms(1-3) _ assms(5), of n uid x y angle now] assms(4) by auto
  have skip: "List.find (\<lambda>(a, e). b_id e = i \<and> P e) (xs @ ys) = List.find (\<lambda>(a, e). b_id e = i \<and> P e) ys"
    if "i \<notin> (b_id \<circ> snd) ` set xs" for P :: "'a Bullet \<Rightarrow> bool" and xs ys
    using that by (induction xs) auto
  have le: "length (nl_items l') \<le> n" using r(4) assms(4) by simp
  have "map fst (nl_items l') = map fst (nl_items l) @ [a]" by (simp add: r(4))
  then show ?thesis
    using r(1,2) bullets_getBullet_own [OF r(2) le, of i uid] bullets_getBullet_own [OF r(2) le, of i other]
      skip [OF r(3)] assms(6) by (auto simp: r(4) simp del: map_append)
qed

lemma bullets_create_owned_witness:
  "\<exists>i l'. bullets_create 1 1 5 42 10 20 () 0 (bullets_init :: unit Bullets) = Inr (5, l') \<and> bullets_ok l' \<and>
    map fst (nl_items l') = map fst (nl_items (bullets_init :: unit Bullets)) @ [5] \<and>
    bullets_getBullet 1 i 42 l' = Inr (Some 5) \<and> bullets_getBullet 1 i 43 l' = Inr None"
  using bullets_create_owned [of "bullets_init :: unit Bullets" 5 1 1 43 42 10 20 "()" 0] bullets_init_ok [where 'f = unit] by simp

end
