(* ===== verification/Locks.thy ===== *)
theory Locks
  imports Prelude
begin

text \<open>
  The spin lock of the lists, between threads. The program takes a lock with two statements,
  \<open>while (lock); lock = 1;\<close>, and gives it back with \<open>lock = 0\<close>; what is between is a sequence of
  statements over the shared state. \<open>thread_step\<close> lets the threads take turns at single
  statements; in a \<open>calm\<close> run no thread passes the loop while another stands between the loop and
  the assignment, as with a lock that is tested and set at once.
\<close>

datatype ('op, 'pc, 'r) thread = Waiting 'op | Taking 'op | Inside 'pc | Finished 'r

record ('op, 'pc, 'r, 's) machine =
  enter :: "'op \<Rightarrow> 'pc"
  body_step :: "'pc \<Rightarrow> 's \<Rightarrow> ('pc \<times> 's) res"
  leaving_with :: "'pc \<Rightarrow> 'r option"
  is_locked :: "'s \<Rightarrow> bool"
  set_lock :: "bool \<Rightarrow> 's \<Rightarrow> 's"

record ('op, 'pc, 'r, 's) conf =
  shared :: 's
  threads :: "nat \<Rightarrow> ('op, 'pc, 'r) thread"

definition set_thread :: "nat \<Rightarrow> ('op, 'pc, 'r) thread \<Rightarrow> ('op, 'pc, 'r, 's) conf \<Rightarrow> ('op, 'pc, 'r, 's) conf" where
  "set_thread i t c = c\<lparr>threads := (threads c)(i := t)\<rparr>"

text \<open>One statement of thread \<open>i\<close>; a thread that spins or has finished stays where it is.\<close>

definition thread_move :: "('op, 'pc, 'r, 's) machine \<Rightarrow> nat \<Rightarrow> ('op, 'pc, 'r, 's) conf \<Rightarrow> ('op, 'pc, 'r, 's) conf res" where
  "thread_move M i c = (case threads c i of
       Waiting p \<Rightarrow> Inr (if is_locked M (shared c) then c else set_thread i (Taking p) c)
     | Taking p \<Rightarrow> Inr (set_thread i (Inside (enter M p)) (c\<lparr>shared := set_lock M True (shared c)\<rparr>))
     | Inside pc \<Rightarrow> (case leaving_with M pc of
           Some r \<Rightarrow> Inr (set_thread i (Finished r) (c\<lparr>shared := set_lock M False (shared c)\<rparr>))
         | None \<Rightarrow> rbind (body_step M pc (shared c)) (\<lambda>(pc', s). Inr (set_thread i (Inside pc') (c\<lparr>shared := s\<rparr>))))
     | Finished r \<Rightarrow> Inr c)"

text \<open>A schedule names the thread of each turn.\<close>

fun play :: "('op, 'pc, 'r, 's) machine \<Rightarrow> nat list \<Rightarrow> ('op, 'pc, 'r, 's) conf \<Rightarrow> ('op, 'pc, 'r, 's) conf res" where
  "play M [] c = Inr c"
| "play M (i # is) c = rbind (thread_move M i c) (play M is)"

lemma play_append: "play M (is @ js) c = rbind (play M is c) (play M js)"
  by (induction "is" arbitrary: c) (auto simp: rbind_def split: sum.splits)

definition in_section :: "('op, 'pc, 'r) thread \<Rightarrow> bool" where
  "in_section t \<longleftrightarrow> (case t of Inside _ \<Rightarrow> True | _ \<Rightarrow> False)"

definition taking :: "('op, 'pc, 'r) thread \<Rightarrow> bool" where
  "taking t \<longleftrightarrow> (case t of Taking _ \<Rightarrow> True | _ \<Rightarrow> False)"

lemma thread_kinds [simp]:
  "in_section (Inside pc)" "\<not> in_section (Waiting p)" "\<not> in_section (Taking p)" "\<not> in_section (Finished r)"
  "taking (Taking p)" "\<not> taking (Waiting p)" "\<not> taking (Inside pc)" "\<not> taking (Finished r)"
  by (simp_all add: in_section_def taking_def)

text \<open>The steps of any thread, and those of a calm run.\<close>

inductive thread_step :: "('op, 'pc, 'r, 's) machine \<Rightarrow> ('op, 'pc, 'r, 's) conf \<Rightarrow> ('op, 'pc, 'r, 's) conf \<Rightarrow> bool" for M where
  turn: "thread_move M i c = Inr c' \<Longrightarrow> thread_step M c c'"

inductive calm_step :: "('op, 'pc, 'r, 's) machine \<Rightarrow> ('op, 'pc, 'r, 's) conf \<Rightarrow> ('op, 'pc, 'r, 's) conf \<Rightarrow> bool" for M where
  calm: "thread_move M i c = Inr c' \<Longrightarrow> (\<And>j. taking (threads c j) \<Longrightarrow> j = i) \<Longrightarrow> calm_step M c c'"

inductive_cases calm_stepE: "calm_step M c c'"

lemma play_steps: "play M is c = Inr c' \<Longrightarrow> (thread_step M)\<^sup>*\<^sup>* c c'"
proof (induction "is" arbitrary: c)
  case (Cons i "is")
  then obtain c1 where "thread_move M i c = Inr c1" "play M is c1 = Inr c'" by (auto simp: rbind_eq_Inr)
  then show ?case using Cons.IH [of c1] by (meson converse_rtranclp_into_rtranclp turn)
qed simp

lemma move_threads: "thread_move M i c = Inr c' \<Longrightarrow> j \<noteq> i \<Longrightarrow> threads c' j = threads c j"
  by (auto simp: thread_move_def set_thread_def rbind_eq_Inr split: thread.splits if_splits option.splits)

text \<open>A thread that moves while no other one is about to take the lock moves calmly.\<close>

lemma play_calm:
  assumes "play M (replicate m i) c = Inr c'" "\<And>j. j \<noteq> i \<Longrightarrow> \<not> taking (threads c j)"
  shows "(calm_step M)\<^sup>*\<^sup>* c c'"
  using assms
proof (induction m arbitrary: c)
  case (Suc m)
  then obtain c1 where c1: "thread_move M i c = Inr c1" "play M (replicate m i) c1 = Inr c'" by (auto simp: rbind_eq_Inr)
  have "calm_step M c c1" using calm_step.calm [OF c1(1)] Suc.prems(2) by blast
  moreover have "(calm_step M)\<^sup>*\<^sup>* c1 c'" using Suc.IH [OF c1(2)] Suc.prems(2) move_threads [OF c1(1)] by metis
  ultimately show ?case by (rule converse_rtranclp_into_rtranclp)
qed simp

text \<open>Operations done one after the other, each with the result it must have had.\<close>

fun replay :: "('op \<Rightarrow> 's \<Rightarrow> ('r \<times> 's) res) \<Rightarrow> ('op \<times> 'r) list \<Rightarrow> 's \<Rightarrow> 's option" where
  "replay f [] s = Some s"
| "replay f ((p, r) # ps) s = (case f p s of Inr (r', s') \<Rightarrow> if r' = r then replay f ps s' else None | Inl _ \<Rightarrow> None)"

lemma replay_snoc: "replay f ps s = Some b \<Longrightarrow> f p b = Inr (r, b') \<Longrightarrow> replay f (ps @ [(p, r)]) s = Some b'"
  by (induction f ps s rule: replay.induct) (auto split: sum.splits if_splits)

section \<open>The contract of a lock\<close>

text \<open>
  Where a calm run stands: the threads in \<open>ready\<close> have finished, one after the other, which leads
  from \<open>s0\<close> to \<open>b\<close>; at most one more thread is past the loop, and what is left of its operation is
  the whole of it from \<open>b\<close>. \<open>whole\<close> is an operation done at once, \<open>rest\<close> what is left of it at a
  statement.
\<close>

definition idle :: "(nat \<Rightarrow> 'op) \<Rightarrow> nat \<Rightarrow> ('op, 'pc, 'r, 's) conf \<Rightarrow> bool" where
  "idle ops i c \<longleftrightarrow> (\<forall>j. j \<noteq> i \<longrightarrow> threads c j = Waiting (ops j) \<or> (\<exists>r. threads c j = Finished r))"

definition entrant :: "('op, 'pc, 'r, 's) machine \<Rightarrow> ('op \<Rightarrow> 's \<Rightarrow> ('r \<times> 's) res) \<Rightarrow> ('pc \<Rightarrow> 's \<Rightarrow> ('r \<times> 's) res) \<Rightarrow>
    (nat \<Rightarrow> 'op) \<Rightarrow> 's \<Rightarrow> nat \<Rightarrow> ('op, 'pc, 'r, 's) conf \<Rightarrow> bool" where
  "entrant M whole rest ops b i c \<longleftrightarrow> (case threads c i of
       Waiting p \<Rightarrow> p = ops i \<and> shared c = b
     | Finished r \<Rightarrow> shared c = b
     | Taking p \<Rightarrow> p = ops i \<and> shared c = b
     | Inside pc \<Rightarrow> is_locked M (shared c) \<and> rest pc (set_lock M False (shared c)) = whole (ops i) b)"

definition serial :: "('op, 'pc, 'r, 's) machine \<Rightarrow> ('op \<Rightarrow> 's \<Rightarrow> ('r \<times> 's) res) \<Rightarrow> ('pc \<Rightarrow> 's \<Rightarrow> ('r \<times> 's) res) \<Rightarrow>
    (nat \<Rightarrow> 'op) \<Rightarrow> 's \<Rightarrow> (nat \<times> 'r) list \<Rightarrow> 's \<Rightarrow> ('op, 'pc, 'r, 's) conf \<Rightarrow> bool" where
  "serial M whole rest ops s0 ready b c \<longleftrightarrow> distinct (map fst ready) \<and> \<not> is_locked M b \<and>
     (\<forall>i r. threads c i = Finished r \<longleftrightarrow> (i, r) \<in> set ready) \<and>
     replay whole (map (\<lambda>(i, r). (ops i, r)) ready) s0 = Some b \<and> (\<exists>i. idle ops i c \<and> entrant M whole rest ops b i c)"

text \<open>
  The laws: from its first statement an operation is the whole one; a statement leaves the rest
  of its operation as it was, does not touch the lock and brings the end nearer; it does not fail
  where the rest would not; at the last position nothing is left.
\<close>

locale spin_lock =
  fixes M :: "('op, 'pc, 'r, 's) machine"
    and whole :: "'op \<Rightarrow> 's \<Rightarrow> ('r \<times> 's) res"
    and rest :: "'pc \<Rightarrow> 's \<Rightarrow> ('r \<times> 's) res"
    and steps_left :: "'pc \<Rightarrow> nat"
  assumes lock_law: "is_locked M (set_lock M b s) = b" "set_lock M b (set_lock M b' s) = set_lock M b s"
      "is_locked M s = b \<Longrightarrow> set_lock M b s = s"
    and enter_law: "\<not> is_locked M s \<Longrightarrow> rest (enter M p) s = whole p s"
    and body_law: "leaving_with M pc = None \<Longrightarrow> body_step M pc s = Inr (pc', s') \<Longrightarrow>
      is_locked M s' = is_locked M s \<and> steps_left pc' < steps_left pc \<and> rest pc (set_lock M False s) = rest pc' (set_lock M False s')"
    and go_law: "leaving_with M pc = None \<Longrightarrow> rest pc (set_lock M False s) = Inr x \<Longrightarrow> \<exists>y. body_step M pc s = Inr y"
    and left_law: "leaving_with M pc = Some r \<Longrightarrow> rest pc s = Inr (r, s)"
begin

lemma serial_start: "\<not> is_locked M s0 \<Longrightarrow> serial M whole rest ops s0 [] s0 \<lparr>shared = s0, threads = (\<lambda>i. Waiting (ops i))\<rparr>"
  by (simp add: serial_def idle_def entrant_def)

lemma serial_set:
  assumes "serial M whole rest ops s0 ready b c" "idle ops i c" "\<forall>r. threads c i \<noteq> Finished r" "\<forall>r. x \<noteq> Finished r"
    and e: "entrant M whole rest ops b i (set_thread i x (c\<lparr>shared := s\<rparr>))"
  shows "serial M whole rest ops s0 ready b (set_thread i x (c\<lparr>shared := s\<rparr>))"
proof -
  have "idle ops i (set_thread i x (c\<lparr>shared := s\<rparr>))" using assms(2) by (simp add: idle_def set_thread_def)
  moreover have "\<forall>j r. threads (set_thread i x (c\<lparr>shared := s\<rparr>)) j = Finished r \<longleftrightarrow> (j, r) \<in> set ready"
    using assms(1,3,4) unfolding serial_def set_thread_def by auto
  ultimately show ?thesis using assms(1) e unfolding serial_def by blast
qed

lemma move_entrant:
  assumes c: "serial M whole rest ops s0 ready b c" and i: "idle ops i c" "entrant M whole rest ops b i c" and m: "thread_move M i c = Inr c'"
  shows "\<exists>ready b. serial M whole rest ops s0 ready b c'"
proof (cases "threads c i")
  case (Inside pc)
  then have l: "is_locked M (shared c)" and r: "rest pc (set_lock M False (shared c)) = whole (ops i) b"
    using i(2) by (simp_all add: entrant_def)
  show ?thesis
  proof (cases "leaving_with M pc")
    case None
    then obtain pc' s' where b: "body_step M pc (shared c) = Inr (pc', s')" and c': "c' = set_thread i (Inside pc') (c\<lparr>shared := s'\<rparr>)"
      using m Inside by (auto simp: thread_move_def rbind_eq_Inr)
    have "serial M whole rest ops s0 ready b c'" unfolding c'
      by (rule serial_set [OF c i(1)]) (use body_law [OF None b] l r Inside in \<open>simp_all add: entrant_def set_thread_def\<close>)
    then show ?thesis by blast
  next
    case (Some x)
    let ?b = "set_lock M False (shared c)"
    have w: "whole (ops i) b = Inr (x, ?b)" using left_law [OF Some] r by simp
    have c': "c' = set_thread i (Finished x) (c\<lparr>shared := ?b\<rparr>)" using m Inside Some by (simp add: thread_move_def)
    have f: "\<forall>j r. threads c j = Finished r \<longleftrightarrow> (j, r) \<in> set ready" using c unfolding serial_def by blast
    have "(i, r) \<notin> set ready" for r using f Inside by (metis thread.distinct(11))
    then have n: "i \<notin> fst ` set ready" by auto
    have "serial M whole rest ops s0 (ready @ [(i, x)]) ?b c'" unfolding serial_def
    proof (intro conjI)
      show "distinct (map fst (ready @ [(i, x)]))" using c n by (auto simp: serial_def)
      show "\<forall>j r. threads c' j = Finished r \<longleftrightarrow> (j, r) \<in> set (ready @ [(i, x)])"
        using f n by (auto simp: c' set_thread_def) force
      show "replay whole (map (\<lambda>(i, r). (ops i, r)) (ready @ [(i, x)])) s0 = Some ?b"
        using replay_snoc [where f = whole and p = "ops i" and b = b, OF _ w] c by (simp add: serial_def)
      show "\<exists>i. idle ops i c' \<and> entrant M whole rest ops ?b i c'"
        using i(1) by (intro exI [of _ i]) (simp add: c' set_thread_def idle_def entrant_def)
    qed (simp add: lock_law)
    then show ?thesis by blast
  qed
next
  case (Taking p)
  then have p: "p = ops i" "shared c = b" "\<not> is_locked M b" using i(2) c by (simp_all add: entrant_def serial_def)
  have c': "c' = set_thread i (Inside (enter M p)) (c\<lparr>shared := set_lock M True b\<rparr>)" using m Taking p by (simp add: thread_move_def)
  have "serial M whole rest ops s0 ready b c'" unfolding c'
    by (rule serial_set [OF c i(1)]) (use p Taking in \<open>simp_all add: entrant_def set_thread_def lock_law enter_law\<close>)
  then show ?thesis by blast
next
  case (Waiting p)
  then have "c' = c \<or> c' = set_thread i (Taking p) c" using m by (auto simp: thread_move_def split: if_splits)
  moreover have "serial M whole rest ops s0 ready b (set_thread i (Taking p) (c\<lparr>shared := shared c\<rparr>))"
    by (rule serial_set [OF c i(1)]) (use i(2) Waiting in \<open>simp_all add: entrant_def set_thread_def\<close>)
  moreover have "c\<lparr>shared := shared c\<rparr> = c" by simp
  ultimately show ?thesis using c by (metis (no_types))
qed (use c m in \<open>auto simp: thread_move_def\<close>)

lemma idle_other: "idle ops i c \<Longrightarrow> entrant M whole rest ops b i c \<Longrightarrow> j \<noteq> i \<Longrightarrow> \<not> taking (threads c i) \<Longrightarrow> \<not> in_section (threads c i) \<Longrightarrow>
    idle ops j c \<and> entrant M whole rest ops b j c"
  by (cases "threads c i"; cases "threads c j") (auto simp: idle_def entrant_def)

lemma move_calm:
  assumes c: "serial M whole rest ops s0 ready b c" and m: "thread_move M i c = Inr c'" and t: "\<And>j. taking (threads c j) \<Longrightarrow> j = i"
  shows "\<exists>ready b. serial M whole rest ops s0 ready b c'"
proof -
  obtain k where k: "idle ops k c" "entrant M whole rest ops b k c" using c by (auto simp: serial_def)
  show ?thesis
  proof (cases "k = i \<or> (\<not> taking (threads c k) \<and> \<not> in_section (threads c k))")
    case True
    then have "idle ops i c \<and> entrant M whole rest ops b i c" using k idle_other [OF k, of i] by (cases "k = i") auto
    then show ?thesis using move_entrant [OF c _ _ m] by blast
  next
    case False
    then have "in_section (threads c k)" "i \<noteq> k" using t by blast+
    then have "is_locked M (shared c)" using k(2) by (cases "threads c k") (simp_all add: entrant_def)
    moreover have "threads c i = Waiting (ops i) \<or> (\<exists>r. threads c i = Finished r)" using k(1) \<open>i \<noteq> k\<close> by (simp add: idle_def)
    ultimately have "c' = c" using m by (auto simp: thread_move_def)
    then show ?thesis using c by blast
  qed
qed

lemma calm_serial:
  assumes "\<not> is_locked M s0" "(calm_step M)\<^sup>*\<^sup>* \<lparr>shared = s0, threads = (\<lambda>i. Waiting (ops i))\<rparr> c"
  shows "\<exists>ready b. serial M whole rest ops s0 ready b c"
  using assms(2)
proof (induction rule: rtranclp_induct)
  case base
  show ?case using serial_start [OF assms(1)] by blast
next
  case (step c c')
  then obtain ready b where "serial M whole rest ops s0 ready b c" by blast
  then show ?case using step.hyps(2) move_calm by (elim calm_stepE) blast
qed

text \<open>What a calm run shows of its threads and of the state while nobody is in the section.\<close>

lemma calm_exclusion:
  assumes "serial M whole rest ops s0 ready b c" "in_section (threads c i)" "in_section (threads c j)"
  shows "i = j"
proof -
  obtain k where "idle ops k c" using assms(1) by (auto simp: serial_def)
  then show ?thesis using assms(2,3) by (metis idle_def thread_kinds(2,4))
qed

lemma calm_state:
  assumes "serial M whole rest ops s0 ready b c" "\<And>i. \<not> in_section (threads c i)"
  shows "shared c = b"
proof -
  obtain k where "entrant M whole rest ops b k c" using assms(1) by (auto simp: serial_def)
  then show ?thesis using assms(2) [of k] by (cases "threads c k") (simp_all add: entrant_def)
qed

text \<open>A thread in the section, left alone, gives the lock back.\<close>

lemma holder_leaves:
  assumes "threads c i = Inside pc" "is_locked M (shared c)" "rest pc (set_lock M False (shared c)) = Inr (r, s)"
  shows "\<exists>m. play M (replicate m i) c = Inr (set_thread i (Finished r) (c\<lparr>shared := s\<rparr>))"
  using assms
proof (induction "steps_left pc" arbitrary: pc c rule: less_induct)
  case less
  show ?case
  proof (cases "leaving_with M pc")
    case None
    obtain pc' s' where b: "body_step M pc (shared c) = Inr (pc', s')" using go_law [OF None less.prems(3)] by auto
    let ?c = "set_thread i (Inside pc') (c\<lparr>shared := s'\<rparr>)"
    have m: "thread_move M i c = Inr ?c" using less.prems(1) None b by (simp add: thread_move_def)
    obtain k where "play M (replicate k i) ?c = Inr (set_thread i (Finished r) (?c\<lparr>shared := s\<rparr>))"
      using less.hyps [of pc' ?c] body_law [OF None b] less.prems by (auto simp: set_thread_def)
    then have "play M (replicate (Suc k) i) c = Inr (set_thread i (Finished r) (c\<lparr>shared := s\<rparr>))"
      using m by (simp add: set_thread_def)
    then show ?thesis by blast
  next
    case (Some x)
    then have "play M (replicate 1 i) c = Inr (set_thread i (Finished r) (c\<lparr>shared := s\<rparr>))"
      using less.prems left_law [OF Some, of "set_lock M False (shared c)"] by (simp add: thread_move_def)
    then show ?thesis by blast
  qed
qed

text \<open>The whole of it, for a run from the start.\<close>

lemma calm_runs:
  assumes "\<not> is_locked M s0" "(calm_step M)\<^sup>*\<^sup>* \<lparr>shared = s0, threads = (\<lambda>i. Waiting (ops i))\<rparr> c"
  shows "\<exists>ready b. distinct (map fst ready) \<and> (\<forall>i r. threads c i = Finished r \<longleftrightarrow> (i, r) \<in> set ready) \<and>
    replay whole (map (\<lambda>(i, r). (ops i, r)) ready) s0 = Some b \<and> ((\<forall>i. \<not> in_section (threads c i)) \<longrightarrow> shared c = b) \<and>
    (\<forall>i j. in_section (threads c i) \<and> in_section (threads c j) \<longrightarrow> i = j) \<and>
    (\<forall>i r b'. in_section (threads c i) \<and> whole (ops i) b = Inr (r, b') \<longrightarrow>
      (\<exists>m. play M (replicate m i) c = Inr (set_thread i (Finished r) (c\<lparr>shared := b'\<rparr>))))"
proof -
  obtain ready b where s: "serial M whole rest ops s0 ready b c" using calm_serial [OF assms] by blast
  have "\<exists>m. play M (replicate m i) c = Inr (set_thread i (Finished r) (c\<lparr>shared := b'\<rparr>))"
    if i: "in_section (threads c i)" and w: "whole (ops i) b = Inr (r, b')" for i r b'
  proof -
    obtain k where k: "idle ops k c" "entrant M whole rest ops b k c" using s by (auto simp: serial_def)
    have "k = i" using k(1) i by (metis idle_def thread_kinds(2,4))
    moreover obtain pc where "threads c i = Inside pc" using i by (cases "threads c i") auto
    ultimately show ?thesis using holder_leaves [of c i pc r b'] k(2) w by (simp add: entrant_def)
  qed
  moreover have "(\<forall>i. \<not> in_section (threads c i)) \<longrightarrow> shared c = b" using calm_state [OF s] by blast
  moreover have "\<forall>i j. in_section (threads c i) \<and> in_section (threads c j) \<longrightarrow> i = j" using calm_exclusion [OF s] by blast
  ultimately show ?thesis using s unfolding serial_def by blast
qed

end

end
