(* ===== verification/ListRaces.thy ===== *)
theory ListRaces
  imports Locks Fishs Bullets
begin

text \<open>
  The list operations of \<open>src/source/fishs.hpp\<close> and \<open>src/source/bullets.hpp\<close> as the statements
  between taking and giving back the list's lock, for the machine of theory \<open>Locks\<close>. The main
  thread and the two sweeping threads share these lists. Shown: with a lock that is tested and
  set at once the operations of any number of threads act as the operations of theories \<open>Fishs\<close>
  and \<open>Bullets\<close> do, one after the other; and what goes wrong with the lock as it is written.
\<close>

section \<open>The statements\<close>

text \<open>
  Locals are arguments: the new node \<open>a\<close> and its fields \<open>e\<close>, the node after the one to destroy, the
  position of a walk with a bound on its length. \<open>getID\<close> and filling the new node are one statement.
\<close>

datatype 'a stmt =
    NewId nat nat nat "int \<Rightarrow> 'a option res"
  | Choose nat 'a | FirstLinks nat 'a | HeadIs nat | CurrIsHead nat
  | PrevIsCurr nat 'a | CurrNext nat | CurrIs nat | CountUp nat
  | TestClearing nat | ReadNext nat | PassNext nat "nat option" | PassPrev nat "nat option" | PassHead nat "nat option"
  | PassCurr nat "nat option" | FreeNode nat "nat option" | CountDown "nat option"
  | FromHead nat "'a \<Rightarrow> bool" "(('a \<Rightarrow> bool) \<times> ('a \<Rightarrow> 'a)) option"
  | Seek nat "'a \<Rightarrow> bool" "(('a \<Rightarrow> bool) \<times> ('a \<Rightarrow> 'a)) option" "nat option"
  | Try nat "'a \<Rightarrow> bool" "'a \<Rightarrow> 'a" | Mark nat "'a \<Rightarrow> 'a"
  | SetClearing nat | FreeFrom nat "nat option" | HeadNull | LenZero | ClearingOff
  | Leave "nat option"

fun list_step :: "('a \<Rightarrow> int) \<Rightarrow> 'a stmt \<Rightarrow> 'a nlist \<Rightarrow> ('a stmt \<times> 'a nlist) res" where
  "list_step idf (NewId k n a mk) l = rbind (get_id k n (heap l) idf (lhead l) (lid l)) (\<lambda>i. rbind (mk i) (\<lambda>e.
     Inr (case e of None \<Rightarrow> Leave None | Some e \<Rightarrow> Choose a e, l\<lparr>lid := i\<rparr>)))"
| "list_step idf (Choose a e) l = Inr (if lhead l = None then FirstLinks a e else PrevIsCurr a e, l)"
| "list_step idf (FirstLinks a e) l = Inr (HeadIs a, link_first a e l)"
| "list_step idf (HeadIs a) l = Inr (CurrIsHead a, l\<lparr>lhead := Some a\<rparr>)"
| "list_step idf (CurrIsHead a) l = Inr (CountUp a, l\<lparr>lcurr := lhead l\<rparr>)"
| "list_step idf (PrevIsCurr a e) l = Inr (CurrNext a, link_prev a e l)"
| "list_step idf (CurrNext a) l = rbind (link_next a l) (\<lambda>l1. Inr (CurrIs a, l1))"
| "list_step idf (CurrIs a) l = Inr (CountUp a, l\<lparr>lcurr := Some a\<rparr>)"
| "list_step idf (CountUp a) l = Inr (Leave (Some a), l\<lparr>llen := i32 (llen l + 1)\<rparr>)"
| "list_step idf (TestClearing a) l = Inr (if clearing l then Leave None else ReadNext a, l)"
| "list_step idf (ReadNext a) l = rbind (deref (heap l) a) (\<lambda>n. Inr (PassNext a (nxt n), l))"
| "list_step idf (PassNext a q) l = rbind (pass_next a l) (\<lambda>l1. Inr (PassPrev a q, l1))"
| "list_step idf (PassPrev a q) l = rbind (pass_prev a l) (\<lambda>l1. Inr (PassHead a q, l1))"
| "list_step idf (PassHead a q) l = rbind (pass_head a l) (\<lambda>l1. Inr (PassCurr a q, l1))"
| "list_step idf (PassCurr a q) l = rbind (pass_curr a l) (\<lambda>l1. Inr (FreeNode a q, l1))"
| "list_step idf (FreeNode a q) l = rbind (free_node a l) (\<lambda>l1. Inr (CountDown q, l1))"
| "list_step idf (CountDown q) l = Inr (Leave q, l\<lparr>llen := i32 (llen l - 1)\<rparr>)"
| "list_step idf (FromHead n P act) l = Inr (Seek n P act (lhead l), l)"
| "list_step idf (Seek n P act None) l = Inr (Leave None, l)"
| "list_step idf (Seek 0 P act (Some a)) l = Inl Hang"
| "list_step idf (Seek (Suc n) P act (Some a)) l = rbind (deref (heap l) a) (\<lambda>m.
     Inr (if P (body m) then (case act of None \<Rightarrow> Leave (Some a) | Some (ok, f) \<Rightarrow> Try a ok f) else Seek n P act (nxt m), l))"
| "list_step idf (Try a ok f) l = rbind (nl_look l a) (\<lambda>(e, _). Inr (if ok e then Mark a f else Leave None, l))"
| "list_step idf (Mark a f) l = rbind (nl_put a f l) (\<lambda>l1. Inr (Leave (Some a), l1))"
| "list_step idf (SetClearing n) l = Inr (FreeFrom n (lhead l), l\<lparr>clearing := True\<rparr>)"
| "list_step idf (FreeFrom n None) l = Inr (HeadNull, l)"
| "list_step idf (FreeFrom 0 (Some a)) l = Inl Hang"
| "list_step idf (FreeFrom (Suc n) (Some a)) l = rbind (deref (heap l) a) (\<lambda>m. Inr (FreeFrom n (nxt m), l\<lparr>heap := (heap l)(a := None)\<rparr>))"
| "list_step idf HeadNull l = Inr (LenZero, l\<lparr>lhead := None\<rparr>)"
| "list_step idf LenZero l = Inr (ClearingOff, l\<lparr>llen := 0\<rparr>)"
| "list_step idf ClearingOff l = Inr (Leave None, l\<lparr>clearing := False\<rparr>)"
| "list_step idf (Leave r) l = Inr (Leave r, l)"

definition leave_with :: "'a stmt \<Rightarrow> nat option option" where
  "leave_with s = (case s of Leave r \<Rightarrow> Some r | _ \<Rightarrow> None)"

definition list_machine :: "('op \<Rightarrow> 'a stmt) \<Rightarrow> ('a \<Rightarrow> int) \<Rightarrow> ('op, 'a stmt, nat option, 'a nlist) machine" where
  "list_machine ent idf = \<lparr>enter = ent, body_step = list_step idf, leaving_with = leave_with, is_locked = llock,
     set_lock = (\<lambda>b l. l\<lparr>llock := b\<rparr>)\<rparr>"

section \<open>What is left of an operation\<close>

definition found :: "(('a \<Rightarrow> bool) \<times> ('a \<Rightarrow> 'a)) option \<Rightarrow> 'a nlist \<Rightarrow> nat option \<Rightarrow> (nat option \<times> 'a nlist) res" where
  "found act l r = (case r of None \<Rightarrow> Inr (None, l) | Some a \<Rightarrow> (case act of None \<Rightarrow> Inr (Some a, l)
     | Some (ok, f) \<Rightarrow> rbind (nl_look l a) (\<lambda>(e, _). if ok e then rbind (nl_put a f l) (\<lambda>l1. Inr (Some a, l1)) else Inr (None, l))))"

definition freed :: "nat option \<Rightarrow> 'a nlist \<Rightarrow> (nat option \<times> 'a nlist) res" where
  "freed q l = Inr (q, l\<lparr>llen := i32 (llen l - 1)\<rparr>)"

fun list_rest :: "('a \<Rightarrow> int) \<Rightarrow> 'a stmt \<Rightarrow> 'a nlist \<Rightarrow> (nat option \<times> 'a nlist) res" where
  "list_rest idf (NewId k n a mk) l = rbind (get_id k n (heap l) idf (lhead l) (lid l)) (\<lambda>i. rbind (mk i) (\<lambda>e.
     case e of None \<Rightarrow> Inr (None, l\<lparr>lid := i\<rparr>) | Some e \<Rightarrow> rbind (nl_link a e (l\<lparr>lid := i\<rparr>)) (\<lambda>l1. Inr (Some a, l1))))"
| "list_rest idf (Choose a e) l = rbind (nl_link a e l) (\<lambda>l1. Inr (Some a, l1))"
| "list_rest idf (FirstLinks a e) l = Inr (Some a, (link_first a e l)\<lparr>lhead := Some a, lcurr := Some a, llen := i32 (llen l + 1)\<rparr>)"
| "list_rest idf (HeadIs a) l = Inr (Some a, l\<lparr>lhead := Some a, lcurr := Some a, llen := i32 (llen l + 1)\<rparr>)"
| "list_rest idf (CurrIsHead a) l = Inr (Some a, l\<lparr>lcurr := lhead l, llen := i32 (llen l + 1)\<rparr>)"
| "list_rest idf (PrevIsCurr a e) l = rbind (link_next a (link_prev a e l)) (\<lambda>l1. Inr (Some a, l1\<lparr>lcurr := Some a, llen := i32 (llen l1 + 1)\<rparr>))"
| "list_rest idf (CurrNext a) l = rbind (link_next a l) (\<lambda>l1. Inr (Some a, l1\<lparr>lcurr := Some a, llen := i32 (llen l1 + 1)\<rparr>))"
| "list_rest idf (CurrIs a) l = Inr (Some a, l\<lparr>lcurr := Some a, llen := i32 (llen l + 1)\<rparr>)"
| "list_rest idf (CountUp a) l = Inr (Some a, l\<lparr>llen := i32 (llen l + 1)\<rparr>)"
| "list_rest idf (TestClearing a) l = nl_unlink a l"
| "list_rest idf (ReadNext a) l = rbind (deref (heap l) a) (\<lambda>n. rbind (pass_next a l) (\<lambda>l1. rbind (pass_prev a l1) (\<lambda>l2.
     rbind (pass_head a l2) (\<lambda>l3. rbind (pass_curr a l3) (\<lambda>l4. rbind (free_node a l4) (freed (nxt n)))))))"
| "list_rest idf (PassNext a q) l = rbind (pass_next a l) (\<lambda>l1. rbind (pass_prev a l1) (\<lambda>l2. rbind (pass_head a l2) (\<lambda>l3.
     rbind (pass_curr a l3) (\<lambda>l4. rbind (free_node a l4) (freed q)))))"
| "list_rest idf (PassPrev a q) l = rbind (pass_prev a l) (\<lambda>l2. rbind (pass_head a l2) (\<lambda>l3. rbind (pass_curr a l3) (\<lambda>l4.
     rbind (free_node a l4) (freed q))))"
| "list_rest idf (PassHead a q) l = rbind (pass_head a l) (\<lambda>l3. rbind (pass_curr a l3) (\<lambda>l4. rbind (free_node a l4) (freed q)))"
| "list_rest idf (PassCurr a q) l = rbind (pass_curr a l) (\<lambda>l4. rbind (free_node a l4) (freed q))"
| "list_rest idf (FreeNode a q) l = rbind (free_node a l) (freed q)"
| "list_rest idf (CountDown q) l = freed q l"
| "list_rest idf (FromHead n P act) l = rbind (find_node n (heap l) P (lhead l)) (found act l)"
| "list_rest idf (Seek n P act p) l = rbind (find_node n (heap l) P p) (found act l)"
| "list_rest idf (Try a ok f) l = found (Some (ok, f)) l (Some a)"
| "list_rest idf (Mark a f) l = rbind (nl_put a f l) (\<lambda>l1. Inr (Some a, l1))"
| "list_rest idf (SetClearing n) l = rbind (nl_clear n l) (\<lambda>l1. Inr (None, l1))"
| "list_rest idf (FreeFrom n p) l = rbind (free_nodes n (heap l) p) (\<lambda>h. Inr (None, l\<lparr>heap := h, lhead := None, llen := 0, clearing := False\<rparr>))"
| "list_rest idf HeadNull l = Inr (None, l\<lparr>lhead := None, llen := 0, clearing := False\<rparr>)"
| "list_rest idf LenZero l = Inr (None, l\<lparr>llen := 0, clearing := False\<rparr>)"
| "list_rest idf ClearingOff l = Inr (None, l\<lparr>clearing := False\<rparr>)"
| "list_rest idf (Leave r) l = Inr (r, l)"

fun stmts_left :: "'a stmt \<Rightarrow> nat" where
  "stmts_left (NewId k n a mk) = 8" | "stmts_left (Choose a e) = 7" | "stmts_left (FirstLinks a e) = 6" | "stmts_left (HeadIs a) = 5"
| "stmts_left (CurrIsHead a) = 4" | "stmts_left (PrevIsCurr a e) = 6" | "stmts_left (CurrNext a) = 5" | "stmts_left (CurrIs a) = 4"
| "stmts_left (CountUp a) = 1" | "stmts_left (TestClearing a) = 8" | "stmts_left (ReadNext a) = 7" | "stmts_left (PassNext a q) = 6"
| "stmts_left (PassPrev a q) = 5" | "stmts_left (PassHead a q) = 4" | "stmts_left (PassCurr a q) = 3" | "stmts_left (FreeNode a q) = 2"
| "stmts_left (CountDown q) = 1" | "stmts_left (FromHead n P act) = n + 4" | "stmts_left (Seek n P act p) = n + 3" | "stmts_left (Try a ok f) = 2" | "stmts_left (Mark a f) = 1"
| "stmts_left (SetClearing n) = n + 5" | "stmts_left (FreeFrom n p) = n + 4" | "stmts_left HeadNull = 3" | "stmts_left LenZero = 2"
| "stmts_left ClearingOff = 1" | "stmts_left (Leave r) = 0"

text \<open>The pieces neither read nor write the lock.\<close>

lemma pieces_lock:
  "link_first a e (l\<lparr>llock := b\<rparr>) = (link_first a e l)\<lparr>llock := b\<rparr>"
  "link_prev a e (l\<lparr>llock := b\<rparr>) = (link_prev a e l)\<lparr>llock := b\<rparr>"
  "link_next a (l\<lparr>llock := b\<rparr>) = rbind (link_next a l) (\<lambda>l1. Inr (l1\<lparr>llock := b\<rparr>))"
  "pass_next a (l\<lparr>llock := b\<rparr>) = rbind (pass_next a l) (\<lambda>l1. Inr (l1\<lparr>llock := b\<rparr>))"
  "pass_prev a (l\<lparr>llock := b\<rparr>) = rbind (pass_prev a l) (\<lambda>l1. Inr (l1\<lparr>llock := b\<rparr>))"
  "pass_head a (l\<lparr>llock := b\<rparr>) = rbind (pass_head a l) (\<lambda>l1. Inr (l1\<lparr>llock := b\<rparr>))"
  "pass_curr a (l\<lparr>llock := b\<rparr>) = rbind (pass_curr a l) (\<lambda>l1. Inr (l1\<lparr>llock := b\<rparr>))"
  "free_node a (l\<lparr>llock := b\<rparr>) = rbind (free_node a l) (\<lambda>l1. Inr (l1\<lparr>llock := b\<rparr>))"
  "nl_look (l\<lparr>llock := b\<rparr>) a = nl_look l a"
  "nl_put a f (l\<lparr>llock := b\<rparr>) = rbind (nl_put a f l) (\<lambda>l1. Inr (l1\<lparr>llock := b\<rparr>))"
  by (auto simp: link_first_def link_prev_def link_next_def pass_next_def pass_prev_def pass_head_def pass_curr_def free_node_def
    nl_look_def nl_put_def rbind_def split: option.splits sum.splits)

lemma pieces_keep:
  "llock (link_first a e l) = llock l" "llock (link_prev a e l) = llock l" "link_next a l = Inr l1 \<Longrightarrow> llock l1 = llock l"
  "pass_next a l = Inr l1 \<Longrightarrow> llock l1 = llock l" "pass_prev a l = Inr l1 \<Longrightarrow> llock l1 = llock l"
  "pass_head a l = Inr l1 \<Longrightarrow> llock l1 = llock l" "pass_curr a l = Inr l1 \<Longrightarrow> llock l1 = llock l"
  "free_node a l = Inr l1 \<Longrightarrow> llock l1 = llock l" "nl_put a f l = Inr l1 \<Longrightarrow> llock l1 = llock l"
  by (auto simp: link_first_def link_prev_def link_next_def pass_next_def pass_prev_def pass_head_def pass_curr_def free_node_def
    nl_put_def rbind_eq_Inr split: option.splits if_splits)

lemma list_step_lock: "list_step idf s l = Inr (s', l') \<Longrightarrow> llock l' = llock l"
  by (cases "(idf, s, l)" rule: list_step.cases) (auto simp: rbind_eq_Inr pieces_keep dest: pieces_keep(3-))

lemma list_step_left: "leave_with s = None \<Longrightarrow> list_step idf s l = Inr (s', l') \<Longrightarrow> stmts_left s' < stmts_left s"
  by (cases "(idf, s, l)" rule: list_step.cases) (auto simp: leave_with_def rbind_eq_Inr split: option.splits)

text \<open>An operation with the lock free, and one statement of it.\<close>

lemma list_rest_step:
  "leave_with s = None \<Longrightarrow> list_rest idf s l = rbind (list_step idf s l) (\<lambda>(s', l'). list_rest idf s' l')"
  by (cases "(idf, s, l)" rule: list_step.cases)
    (auto simp: leave_with_def nl_link_def nl_unlink_def nl_clear_def found_def freed_def link_first_def rbind_assoc rbind_def
      split: option.splits sum.splits)

lemma list_step_unlock:
  "list_step idf s (l\<lparr>llock := b\<rparr>) = rbind (list_step idf s l) (\<lambda>(s', l'). Inr (s', l'\<lparr>llock := b\<rparr>))"
  by (cases "(idf, s, l)" rule: list_step.cases) (auto simp: pieces_lock rbind_def split: option.splits sum.splits)

lemma list_laws:
  assumes "leave_with s = None"
  shows "list_step idf s l = Inr (s', l') \<Longrightarrow> list_rest idf s (l\<lparr>llock := b\<rparr>) = list_rest idf s' (l'\<lparr>llock := b\<rparr>)"
    and "list_rest idf s (l\<lparr>llock := b\<rparr>) = Inr x \<Longrightarrow> \<exists>y. list_step idf s l = Inr y"
  using list_rest_step [OF assms, of idf "l\<lparr>llock := b\<rparr>"] list_step_unlock [of idf s b l] by (auto simp: rbind_eq_Inr)

section \<open>The operations of the two lists\<close>

datatype fish_op = FCreate "nat \<Rightarrow> int" nat Setting int | FDestroy nat | FGet int | FClear

definition fish_maker :: "(nat \<Rightarrow> int) \<Rightarrow> Setting \<Rightarrow> int \<Rightarrow> int \<Rightarrow> Fish option res" where
  "fish_maker rs st now i = (if getFishQty st = 0 then Inl DivByZero
     else rbind (setting_getFish st (my_random (rs 12) 0 (getFishQty st - 1))) (\<lambda>sf. Inr (map_option (new_fish rs i now) sf)))"

fun fish_enter :: "nat \<Rightarrow> nat \<Rightarrow> fish_op \<Rightarrow> Fish stmt" where
  "fish_enter k n (FCreate rs a st now) = NewId k n a (fish_maker rs st now)"
| "fish_enter k n (FDestroy a) = TestClearing a"
| "fish_enter k n (FGet i) = FromHead n (\<lambda>e. f_id e = i) (Some (\<lambda>e. f_lock e = 0 \<and> f_isdel e = 0, f_lock_update (\<lambda>_. 1)))"
| "fish_enter k n FClear = SetClearing n"

fun fish_whole :: "nat \<Rightarrow> nat \<Rightarrow> fish_op \<Rightarrow> Fishs \<Rightarrow> (nat option \<times> Fishs) res" where
  "fish_whole k n (FCreate rs a st now) l = fishs_create k n rs a st now l"
| "fish_whole k n (FDestroy a) l = fishs_destroy a l"
| "fish_whole k n (FGet i) l = fishs_getFish n i l"
| "fish_whole k n FClear l = rbind (fishs_clear n l) (\<lambda>l1. Inr (None, l1))"

datatype 'f bullet_op = BCreate nat int int int 'f int | BDestroy nat | BGet int int | BClear

definition bullet_maker :: "int \<Rightarrow> int \<Rightarrow> int \<Rightarrow> 'f \<Rightarrow> int \<Rightarrow> int \<Rightarrow> 'f Bullet option res" where
  "bullet_maker uid x y angle now i = Inr (Some \<lparr>b_id = i, b_uid = uid, b_x = x, b_y = y, b_angle = angle, b_create_time = now,
     b_lock = 0, b_isdel = 0\<rparr>)"

fun bullet_enter :: "nat \<Rightarrow> nat \<Rightarrow> 'f bullet_op \<Rightarrow> 'f Bullet stmt" where
  "bullet_enter k n (BCreate a uid x y angle now) = NewId k n a (bullet_maker uid x y angle now)"
| "bullet_enter k n (BDestroy a) = TestClearing a"
| "bullet_enter k n (BGet i uid) = FromHead n (\<lambda>e. b_id e = i \<and> b_uid e = uid \<and> b_lock e = 0 \<and> b_isdel e = 0) None"
| "bullet_enter k n BClear = SetClearing n"

fun bullet_whole :: "nat \<Rightarrow> nat \<Rightarrow> 'f bullet_op \<Rightarrow> 'f Bullets \<Rightarrow> (nat option \<times> 'f Bullets) res" where
  "bullet_whole k n (BCreate a uid x y angle now) l = rbind (bullets_create k n a uid x y angle now l) (\<lambda>(b, l1). Inr (Some b, l1))"
| "bullet_whole k n (BDestroy a) l = bullets_destroy a l"
| "bullet_whole k n (BGet i uid) l = rbind (bullets_getBullet n i uid l) (\<lambda>r. Inr (r, l))"
| "bullet_whole k n BClear l = rbind (bullets_clear n l) (\<lambda>l1. Inr (None, l1))"

lemma fish_enter_whole: "\<not> llock l \<Longrightarrow> list_rest f_id (fish_enter k n p) l = fish_whole k n p l"
  by (cases p) (auto simp: fishs_create_def fishs_getID_def fish_maker_def fishs_destroy_def fishs_getFish_def fishs_clear_def found_def
      rbind_def split: sum.splits option.splits)

lemma bullet_enter_whole: "\<not> llock l \<Longrightarrow> list_rest b_id (bullet_enter k n p) l = bullet_whole k n p l"
  by (cases p) (auto simp: bullets_create_def bullets_getID_def bullet_maker_def bullets_destroy_def bullets_getBullet_def bullets_clear_def
      found_def rbind_def split: sum.splits option.splits)

lemma list_machine_simps [simp]:
  "enter (list_machine ent idf) = ent" "body_step (list_machine ent idf) = list_step idf" "leaving_with (list_machine ent idf) = leave_with"
  "is_locked (list_machine ent idf) = llock" "set_lock (list_machine ent idf) b l = l\<lparr>llock := b\<rparr>"
  by (simp_all add: list_machine_def)

lemma leave_with_Some: "leave_with s = Some r \<longleftrightarrow> s = Leave r"
  by (auto simp: leave_with_def split: stmt.splits)

lemma list_spin_lock:
  assumes "\<And>p l. \<not> llock l \<Longrightarrow> list_rest idf (ent p) l = whole p l"
  shows "spin_lock (list_machine ent idf) whole (list_rest idf) stmts_left"
proof (unfold_locales, unfold list_machine_simps)
  fix s pc and l l'
  assume s: "leave_with s = None" "list_step idf s l = Inr (pc, l')"
  show "llock l' = llock l \<and> stmts_left pc < stmts_left s \<and> list_rest idf s (l\<lparr>llock := False\<rparr>) = list_rest idf pc (l'\<lparr>llock := False\<rparr>)"
    using list_step_lock [OF s(2)] list_step_left [OF s] list_laws(1) [OF s] by blast
next
  fix s l x assume "leave_with s = None" "list_rest idf s (l\<lparr>llock := False\<rparr>) = Inr x"
  then show "\<exists>y. list_step idf s l = Inr y" by (rule list_laws(2))
qed (auto simp: assms leave_with_Some)

interpretation fish_lock: spin_lock "list_machine (fish_enter k n) f_id" "fish_whole k n" "list_rest f_id" stmts_left for k n
  by (rule list_spin_lock) (rule fish_enter_whole)

interpretation bullet_lock: spin_lock "list_machine (bullet_enter k n) b_id" "bullet_whole k n" "list_rest b_id" stmts_left for k n
  by (rule list_spin_lock) (rule bullet_enter_whole)

section \<open>Threads over one list\<close>

text \<open>
  C9: were the lock of a list tested and set at once, any number of threads creating, destroying,
  looking up and clearing fish of one room would act as if each operation happened at once: the
  fish and the results are those of the finished operations one after the other in some order;
  no two threads are between taking and giving it back; and a thread that is, left alone, gives
  it back, unless its operation by itself would fail.
\<close>

theorem fish_ops_serialise:
  assumes "\<not> llock l" "(calm_step (list_machine (fish_enter k n) f_id))\<^sup>*\<^sup>* \<lparr>shared = l, threads = (\<lambda>i. Waiting (ops i))\<rparr> c"
  shows "\<exists>ready b. distinct (map fst ready) \<and> (\<forall>i r. threads c i = Finished r \<longleftrightarrow> (i, r) \<in> set ready) \<and>
    replay (fish_whole k n) (map (\<lambda>(i, r). (ops i, r)) ready) l = Some b \<and> ((\<forall>i. \<not> in_section (threads c i)) \<longrightarrow> shared c = b) \<and>
    (\<forall>i j. in_section (threads c i) \<and> in_section (threads c j) \<longrightarrow> i = j) \<and>
    (\<forall>i r b'. in_section (threads c i) \<and> fish_whole k n (ops i) b = Inr (r, b') \<longrightarrow>
      (\<exists>m. play (list_machine (fish_enter k n) f_id) (replicate m i) c = Inr (set_thread i (Finished r) (c\<lparr>shared := b'\<rparr>))))"
  by (rule fish_lock.calm_runs [OF _ assms(2)]) (simp add: assms(1))

lemma fish_ops_serialise_witness:
  "\<exists>c. (calm_step (list_machine (fish_enter 1 1) f_id))\<^sup>*\<^sup>* \<lparr>shared = one_fish, threads = (\<lambda>i. Waiting (FGet 1))\<rparr> c \<and>
    threads c 3 = Finished (Some 11) \<and> replay (fish_whole 1 1) [(FGet 1, Some 11)] one_fish = Some (shared c)"
proof -
  let ?M = "list_machine (fish_enter 1 1) f_id" and ?c = "\<lparr>shared = one_fish, threads = (\<lambda>i :: nat. Waiting (FGet 1))\<rparr>"
  have f: "f_lock e = 0" "f_isdel e = 0" "f_id e = 1" if "e = new_fish (\<lambda>_. 7) 1 0 \<lparr>fish_id = 1, fish_no = 2, fish_coin = 3\<rparr>" for e
    using that by (simp_all add: new_fish_def Let_def)
  have t: "replicate 7 (3 :: nat) = [3, 3, 3, 3, 3, 3, 3]" by (simp add: numeral_eq_Suc)
  obtain c where c: "play ?M (replicate 7 3) ?c = Inr c" "threads c = (\<lambda>i. Waiting (FGet 1))(3 := Finished (Some 11))"
    unfolding t by (simp add: thread_move_def one_fish_def fishs_init_def set_thread_def leave_with_def deref_def nl_look_def nl_put_def f)
  have u: "\<not> llock one_fish" by (simp add: one_fish_def fishs_init_def)
  have s: "(calm_step ?M)\<^sup>*\<^sup>* ?c c" by (rule play_calm [OF c(1)]) simp
  obtain ready b where r: "distinct (map fst ready)" "\<forall>i r. threads c i = Finished r \<longleftrightarrow> (i, r) \<in> set ready"
    "replay (fish_whole 1 1) (map (\<lambda>(i, r). (FGet 1, r)) ready) one_fish = Some b" "(\<forall>i. \<not> in_section (threads c i)) \<longrightarrow> shared c = b"
    using fish_ops_serialise [OF u s] by (elim exE conjE) (rule that, assumption+)
  have "(j, x) \<in> set ready \<longleftrightarrow> j = 3 \<and> x = Some 11" for j x using r(2) [rule_format, of j x] by (auto simp: c(2) split: if_splits)
  then have "set ready = {(3, Some 11)}" by auto
  then have "ready = [(3, Some 11)]" using r(1) by (cases ready; cases "tl ready") (auto simp: subset_singleton_iff)
  then show ?thesis using s r c(2) by (intro exI [of _ c]) auto
qed

lemma bullet_ops_serialise:
  assumes "\<not> llock l" "(calm_step (list_machine (bullet_enter k n) b_id))\<^sup>*\<^sup>* \<lparr>shared = l, threads = (\<lambda>i. Waiting (ops i))\<rparr> c"
  shows "\<exists>ready b. distinct (map fst ready) \<and> (\<forall>i r. threads c i = Finished r \<longleftrightarrow> (i, r) \<in> set ready) \<and>
    replay (bullet_whole k n) (map (\<lambda>(i, r). (ops i, r)) ready) l = Some b \<and> ((\<forall>i. \<not> in_section (threads c i)) \<longrightarrow> shared c = b) \<and>
    (\<forall>i j. in_section (threads c i) \<and> in_section (threads c j) \<longrightarrow> i = j) \<and>
    (\<forall>i r b'. in_section (threads c i) \<and> bullet_whole k n (ops i) b = Inr (r, b') \<longrightarrow>
      (\<exists>m. play (list_machine (bullet_enter k n) b_id) (replicate m i) c = Inr (set_thread i (Finished r) (c\<lparr>shared := b'\<rparr>))))"
  by (rule bullet_lock.calm_runs [OF _ assms(2)]) (simp add: assms(1))

section \<open>Walking without the lock\<close>

text \<open>
  The sweeping threads walk the list without its lock. When the main thread clears the list, as it
  does when the last player leaves, the node such a thread stands on is gone, whatever the lock is.
\<close>

lemma walker_reads_freed:
  assumes "nl_ok l" "nl_items l = xs @ (a, e) # ys" "length (nl_items l) \<le> n"
  shows "nl_look l a = Inr (e, first (map fst ys)) \<and> (\<exists>l'. nl_clear n l = Inr l' \<and> nl_look l' a = Inl UseAfterFree)"
proof -
  obtain l' where "nl_clear n l = Inr l'" "\<forall>b. heap l' b = (if b \<in> fst ` set (nl_items l) then None else heap l b)"
    using nl_clear_ok [OF assms(1,3)] by blast
  then show ?thesis using nl_look_items [OF assms(1,2)] assms(2) by (auto simp: nl_look_def deref_def)
qed

section \<open>The lock as it is written\<close>

text \<open>
  C14: with the lock's two statements apart, a shot and the removal of the last bullet of the room
  can be in their sections together. When it is the only bullet, the shot then writes through the
  null pointer \<open>_curr\<close>. Otherwise both end, with the new bullet in the list: the bullet before it and
  \<open>_curr\<close> point to it and the count is right. But its \<open>prev\<close> is the bullet that has been freed, and
  removing the new bullet writes into freed memory.
\<close>

theorem shot_races_sweep:
  assumes "bullets_ok l" "nl_items l = xs @ [(c, e)]" "a \<notin> fst ` set (nl_items l)" "length (nl_items l) < 2147483646"
    and "length (nl_items l) \<le> n" "length (nl_items l) < k" "ops 0 = BCreate a uid x y angle now" "ops 1 = BDestroy c"
  shows "\<exists>is d. play (list_machine (bullet_enter k n) b_id) is \<lparr>shared = l, threads = (\<lambda>i. Waiting (ops i))\<rparr> = Inr d \<and>
    (if xs = [] then thread_move (list_machine (bullet_enter k n) b_id) 0 d = Inl NullDeref
     else threads d 0 = Finished (Some a) \<and> threads d 1 = Finished None \<and> lhead (shared d) = lhead l \<and> lcurr (shared d) = Some a \<and>
       llen (shared d) = llen l \<and> map_option nxt (heap (shared d) (fst (last xs))) = Some (Some a) \<and>
       map_option prev (heap (shared d) a) = Some (Some c) \<and> heap (shared d) c = None \<and> bullets_destroy a (shared d) = Inl UseAfterFree)"
proof -
  have ok: "nl_ok l" and b: "1 \<le> lid l" "lid l \<le> MAX_INT" using assms(1) by (simp_all add: bullets_ok_def)
  obtain i where i: "get_id k n (heap l) b_id (lhead l) (lid l) = Inr i"
    using get_id_fresh [OF ok assms(5,6,4) b, of b_id] by blast
  note sp = ok_split [OF ok assms(2), simplified]
  have r: "llock l = False" "clearing l = False" "lcurr l = Some c" "lhead l = first_or (Some c) (map fst xs)" "seg (heap l) None (map fst xs) (Some c)"
    using sp(1) by (simp_all add: nl_rep_def seg_append) (cases xs; simp add: first_def)+
  have ac: "a \<noteq> c" "a \<notin> fst ` set xs" "c \<notin> fst ` set xs" using assms(2,3) sp(1) by (auto simp: nl_rep_def)
  show ?thesis
  proof (cases xs rule: rev_cases)
    case Nil
    have "\<exists>d. play (list_machine (bullet_enter k n) b_id) [0, 1, 0, 1, 0, 0, 0, 1, 1, 1, 1, 1, 1, 1] \<lparr>shared = l, threads = (\<lambda>i. Waiting (ops i))\<rparr> = Inr d \<and>
      thread_move (list_machine (bullet_enter k n) b_id) 0 d = Inl NullDeref"
      using Nil r i ac sp(5) assms(7,8)
      by (simp add: thread_move_def set_thread_def leave_with_def bullet_maker_def link_prev_def link_next_def pass_next_def pass_prev_def
        pass_head_def pass_curr_def free_node_def deref_def)
    then show ?thesis unfolding if_P [OF Nil] by blast
  next
    case (snoc ys p)
    obtain m where m: "heap l (fst p) = Some m" "nxt m = Some c" using r(5) snoc by (auto simp: seg_append)
    obtain h where h: "lhead l = Some h" "h \<noteq> c" using r(4) ac(3) snoc by (cases ys) auto
    have pc: "fst p \<noteq> c" "fst p \<noteq> a" "last_or None (map fst xs) = Some (fst p)" using ac snoc by auto
    have n: "i32 (i32 (llen l + 1) - 1) = llen l" "i32 (i32 (llen l - 1) + 1) = llen l" using sp(1) assms(2,4) by (simp_all add: i32_inside nl_rep_def i32_id)
    have lp: "last xs = p" using snoc by simp
    have "\<exists>d. play (list_machine (bullet_enter k n) b_id) [0, 1, 0, 1, 0, 0, 0, 1, 1, 1, 1, 1, 1, 1, 1, 1, 0, 0, 0, 0]
        \<lparr>shared = l, threads = (\<lambda>i. Waiting (ops i))\<rparr> = Inr d \<and>
      threads d 0 = Finished (Some a) \<and> threads d 1 = Finished None \<and> lhead (shared d) = lhead l \<and> lcurr (shared d) = Some a \<and>
       llen (shared d) = llen l \<and> map_option nxt (heap (shared d) (fst (last xs))) = Some (Some a) \<and>
       map_option prev (heap (shared d) a) = Some (Some c) \<and> heap (shared d) c = None \<and> bullets_destroy a (shared d) = Inl UseAfterFree"
      using r(1-3) i ac(1) sp(5) m h pc assms(7,8) n lp
      by (simp add: thread_move_def set_thread_def leave_with_def bullet_maker_def link_prev_def link_next_def pass_next_def pass_prev_def
        pass_head_def pass_curr_def free_node_def deref_def bullets_destroy_def nl_unlink_def)
    moreover have ne: "xs \<noteq> []" using snoc by simp
    ultimately show ?thesis unfolding if_not_P [OF ne] by blast
  qed
qed

lemma shot_races_sweep_witness:
  "\<exists>l is d. bullets_ok (l :: int Bullets) \<and> length (nl_items l) = 2 \<and>
    play (list_machine (bullet_enter 3 2) b_id) is \<lparr>shared = l, threads = (\<lambda>i. Waiting (if i = 0 then BCreate 30 7 1 2 45 0 else BDestroy 20))\<rparr> = Inr d \<and>
    threads d 0 = Finished (Some 30) \<and> threads d 1 = Finished None \<and> lcurr (shared d) = Some 30 \<and> llen (shared d) = llen l \<and>
    bullets_destroy 30 (shared d) = Inl UseAfterFree"
proof -
  let ?ops = "\<lambda>i :: nat. if i = 0 then BCreate 30 7 1 2 (45 :: int) 0 else BDestroy 20"
  obtain l1 :: "int Bullets" and e1 where l1: "bullets_ok l1" "nl_items l1 = [(10, e1)]"
    using bullets_create_ok [of "bullets_init :: int Bullets" 10 1 1 7 0 0 0 0] bullets_init_ok [where 'f = int] by auto
  obtain l :: "int Bullets" and e where l: "bullets_ok l" "nl_items l = [(10, e1)] @ [(20, e)]"
    using bullets_create_ok [OF l1(1), of 20 1 2 7 0 0 0 0] l1(2) by auto
  have "\<exists>is d. play (list_machine (bullet_enter 3 2) b_id) is \<lparr>shared = l, threads = (\<lambda>i. Waiting (?ops i))\<rparr> = Inr d \<and>
    (if [(10 :: nat, e1)] = [] then thread_move (list_machine (bullet_enter 3 2) b_id) 0 d = Inl NullDeref
     else threads d 0 = Finished (Some 30) \<and> threads d 1 = Finished None \<and> lhead (shared d) = lhead l \<and> lcurr (shared d) = Some 30 \<and>
       llen (shared d) = llen l \<and> map_option nxt (heap (shared d) (fst (last [(10 :: nat, e1)]))) = Some (Some 30) \<and>
       map_option prev (heap (shared d) 30) = Some (Some 20) \<and> heap (shared d) 20 = None \<and> bullets_destroy 30 (shared d) = Inl UseAfterFree)"
    by (rule shot_races_sweep [OF l]) (simp_all add: l(2))
  then show ?thesis using l by (intro exI [of _ l]) auto
qed

end
