(* ===== verification/PoolRaces.thy ===== *)
theory PoolRaces
  imports Memory
begin

text \<open>
  \<open>memory_alloc\<close> and \<open>memory_free\<close> (\<open>src/init/memory.hpp\<close>) have no lock, and every thread of the
  server uses them. Here the allocation is cut at its test of a flag: \<open>alloc_begin\<close> counts,
  \<open>find_free\<close> looks for a free block and \<open>alloc_take\<close> marks it. One after the other the three are
  \<open>memory_alloc\<close>; with another thread between the second and the third they are not.
\<close>

definition alloc_begin :: "int \<Rightarrow> mem \<Rightarrow> nat option \<times> mem" where
  "alloc_begin sz mem =
     (let mem1 = mem\<lparr>malloc_count := u64 (malloc_count mem + 1)\<rparr>
      in case class_of mem1 sz of
           None \<Rightarrow> (None, mem1\<lparr>system_use := u64 (system_use mem1 + sz)\<rparr>)
         | Some index \<Rightarrow>
             let mem2 = mem1\<lparr>mem_use := u32 (mem_use mem1 + con mem1 0 index)\<rparr>
             in (Some index, set_con 7 index (con mem2 7 index + 1) mem2))"

definition alloc_take :: "nat \<Rightarrow> int \<Rightarrow> mem \<Rightarrow> int \<times> mem" where
  "alloc_take index free_index mem =
     (let offset_ptr = u32 ((free_index - con mem 4 index) * con mem 0 index)
      in (i32 (con mem 2 index + offset_ptr),
          set_con 6 index (con mem 6 index + 1) (mem\<lparr>flags := set_flag (nat free_index) (flags mem)\<rparr>)))"

lemma memory_alloc_cut:
  "memory_alloc sz new_ptr mem = (if sz < 1 then Inr (0, mem) else
     case alloc_begin sz mem of (None, m) \<Rightarrow> Inr (new_ptr, m)
     | (Some index, m) \<Rightarrow> rbind (find_free m index) (\<lambda>r. Inr (case r of None \<Rightarrow> (new_ptr, m) | Some k \<Rightarrow> alloc_take index k m)))"
  by (auto simp: memory_alloc_def alloc_begin_def alloc_take_def Let_def rbind_def split: option.splits sum.splits)

text \<open>Counting changes nothing the search reads.\<close>

lemma begin_frame:
  assumes "alloc_begin sz m = (Some i, m')"
  shows "flags m' = flags m" "\<And>r j. r \<noteq> 7 \<Longrightarrow> con m' r j = con m r j" "class_of m sz = Some i" "first_ptr m' = first_ptr m" "end_ptr m' = end_ptr m"
  using assms by (auto simp: alloc_begin_def Let_def class_of_def split: option.splits)

lemma find_free_frame:
  assumes "flags m' = flags m" "\<And>r j. r \<noteq> 7 \<Longrightarrow> con m' r j = con m r j"
  shows "find_free m' i = find_free m i"
proof -
  have c: "con m' 4 i = con m 4 i" "con m' 5 i = con m 5 i" "con m' 6 i = con m 6 i" using assms(2) by simp_all
  show ?thesis unfolding find_free_def alloc_bit_pos_def c assms(1) ..
qed

lemma begin_class: "class_of m sz = Some i \<Longrightarrow> \<exists>m'. alloc_begin sz m = (Some i, m')"
  by (simp add: alloc_begin_def Let_def class_of_def)

text \<open>Marking a block of the class: its address, and the flag.\<close>

lemma alloc_take_spec:
  assumes L: "mem_layout m" and s: "slot m i k"
  shows "\<exists>m'. alloc_take i k m = (block_addr m i k, m') \<and> same_geometry m m' \<and> live m' = insert (block_addr m i k) (live m) \<and>
    malloc_count m' = malloc_count m \<and> (\<forall>j. con m' 6 j = (if j = i then i32 (con m 6 i + 1) else con m 6 j)) \<and> (\<forall>j. con m' 7 j = con m 7 j)"
proof -
  note br = block_addr_range [OF L s]
  have i: "i < 3" using s by (simp add: slot_def)
  have o: "u32 ((k - con m 4 i) * con m 0 i) = (k - con m 4 i) * con m 0 i" using br by (intro u32_id) auto
  have a: "con m 2 i + (k - con m 4 i) * con m 0 i = block_addr m i k" by (simp add: block_addr_def mult.commute)
  have "i32 (block_addr m i k) = block_addr m i k"
    using br L class_ok_blk [OF mem_layout_class [OF L i] i] by (intro i32_id) (auto simp: mem_layout_def)
  then have p: "alloc_take i k m = (block_addr m i k, set_con 6 i (con m 6 i + 1) (m\<lparr>flags := set_flag (nat k) (flags m)\<rparr>))"
    by (simp add: alloc_take_def o a)
  let ?m = "set_con 6 i (con m 6 i + 1) (m\<lparr>flags := set_flag (nat k) (flags m)\<rparr>)"
  have g: "same_geometry m ?m" by (simp add: same_geometry_def)
  then show ?thesis using p live_set_flag [OF L s g] by simp
qed

text \<open>
  C15: two threads that ask the pool for blocks of one class, both looking before either marks,
  are given the same block: the pool counts two blocks in use and marks one. When one of the two
  threads frees its block, the other's is free as well.
\<close>

theorem pool_race_shares:
  assumes "mem_inv m" "malloc_count m < 1073741823" "1 \<le> sz" "class_of m sz = Some i" "1 \<le> sz'" "class_of m sz' = Some i" "find_free m i = Inr (Some k)"
  shows "\<exists>m1 m2 m3 m4 p. alloc_begin sz m = (Some i, m1) \<and> alloc_begin sz' m1 = (Some i, m2) \<and>
    find_free m2 i = Inr (Some k) \<and> alloc_take i k m2 = (p, m3) \<and> alloc_take i k m3 = (p, m4) \<and>
    p \<notin> live m \<and> live m4 = insert p (live m) \<and> con m4 7 i = i32 (i32 (con m 7 i + 1) + 1) \<and>
    (\<exists>m5. memory_free p m4 = Inr (None, m5) \<and> live m5 = live m)"
proof -
  obtain m1 where m1: "alloc_begin sz m = (Some i, m1)" using begin_class [OF assms(4)] by blast
  note f1 = begin_frame [OF m1]
  have "class_of m1 sz' = Some i" using assms(6) f1(2) by (simp add: class_of_def)
  then obtain m2 where m2: "alloc_begin sz' m1 = (Some i, m2)" using begin_class by blast
  note f2 = begin_frame [OF m2]
  have g: "find_free m1 i = Inr (Some k)" "find_free m2 i = Inr (Some k)"
    using assms(7) find_free_frame [of m1 m i] find_free_frame [of m2 m1 i] f1(1,2) f2(1,2) by simp_all
  have L: "mem_layout m" and mc: "0 \<le> malloc_count m" and cur: "\<And>j. j < 3 \<Longrightarrow> 0 \<le> con m 6 j \<and> con m 6 j \<le> malloc_count m"
    using assms(1) by (auto simp: mem_inv_def)
  have i: "i < 3" using class_of_Some [OF assms(4)] by simp
  have "con m 4 i \<le> k \<and> k < con m 5 i \<and> \<not> flag_at (flags m) (nat k)"
    using find_free_spec [OF L i] cur [OF i] assms(2,7) by fastforce
  then have s: "slot m i k" "block_addr m i k \<notin> live m" using i slot_live [OF L, of i k] by (auto simp: slot_def)
  have n: "malloc_count m2 = malloc_count m + 2" "con m2 7 i = i32 (i32 (con m 7 i + 1) + 1)"
    using m1 m2 mc assms(2) by (auto simp: alloc_begin_def Let_def u64_def split: option.splits)
  have gm: "same_geometry m m2" by (simp add: same_geometry_def f1 f2)
  have L2: "mem_layout m2" "slot m2 i k" "block_addr m2 i k = block_addr m i k" "live m2 = live m"
    using gm L s(1) live_same [OF L gm] f1(1) f2(1) by (simp_all add: same_geometry_layout same_geometry_slot same_geometry_addr)
  obtain m3 where m3: "alloc_take i k m2 = (block_addr m i k, m3)" "same_geometry m2 m3" "live m3 = insert (block_addr m i k) (live m)"
    "malloc_count m3 = malloc_count m2" "\<forall>j. con m3 6 j = (if j = i then i32 (con m2 6 i + 1) else con m2 6 j)" "\<forall>j. con m3 7 j = con m2 7 j"
    using alloc_take_spec [OF L2(1,2)] unfolding L2(3,4) by blast
  have L3: "mem_layout m3" "slot m3 i k" "block_addr m3 i k = block_addr m i k"
    using m3(2) L2 by (simp_all add: same_geometry_layout same_geometry_slot same_geometry_addr)
  obtain m4 where m4: "alloc_take i k m3 = (block_addr m i k, m4)" "same_geometry m3 m4" "live m4 = insert (block_addr m i k) (live m)"
    "malloc_count m4 = malloc_count m3" "\<forall>j. con m4 6 j = (if j = i then i32 (con m3 6 i + 1) else con m3 6 j)" "\<forall>j. con m4 7 j = con m3 7 j"
    using alloc_take_spec [OF L3(1,2)] unfolding L3(3) m3(3) by auto
  have inv: "mem_inv m4"
  proof (rule mem_invI)
    show "mem_layout m4" using m4(2) L3(1) by (simp add: same_geometry_layout)
    show "0 \<le> malloc_count m4" using mc by (simp add: m4(4) m3(4) n(1))
    fix j :: nat assume "j < 3"
    then have c: "0 \<le> con m 6 j" "con m 6 j \<le> malloc_count m" using cur by auto
    have "con m2 6 j = con m 6 j" for j by (simp add: f1(2) f2(2))
    moreover have "i32 (con m 6 j + 1) = con m 6 j + 1" "i32 (con m 6 j + 1 + 1) = con m 6 j + 2"
      using c assms(2) by (simp_all add: i32_id)
    ultimately show "0 \<le> con m4 6 j \<and> con m4 6 j \<le> malloc_count m4"
      using c by (cases "j = i") (simp_all add: m4(4,5) m3(4,5) n(1))
  qed
  obtain m5 where "memory_free (block_addr m i k) m4 = Inr (None, m5)" "live m5 = live m"
    using memory_free_spec [OF inv, of "block_addr m i k"] m4(3) s(2) by auto
  then show ?thesis using m1 m2 g(2) m3(1,6) m4 s(2) n(2) by auto
qed

lemma pool_race_shares_witness:
  "\<exists>m i k. mem_inv m \<and> find_free m i = Inr (Some k) \<and> (\<exists>m1 m2 m3 m4 p. alloc_begin 40 m = (Some i, m1) \<and> alloc_begin 24 m1 = (Some i, m2) \<and>
    find_free m2 i = Inr (Some k) \<and> alloc_take i k m2 = (p, m3) \<and> alloc_take i k m3 = (p, m4))"
proof -
  let ?m = "snd (memory_init 1250 1000 5000 mem0)"
  have inv: "mem_inv ?m" using memory_init_spec(2) [of 1250 1000 5000] by simp
  have c: "class_of ?m 40 = Some 0" "class_of ?m 24 = Some 0" "find_free ?m 0 = Inr (Some 0)" "malloc_count ?m = 0" by code_simp+
  from pool_race_shares [OF inv _ _ c(1) _ c(2,3)] c(4) show ?thesis using inv c(3)
    by simp blast
qed

end
