(* ===== verification/Store.thy ===== *)
theory Store
  imports Format
begin

text \<open>
  The two stores behind the server: the wrapper of the MySQL client library
  (\<open>src/db/mysql.hpp\<close>) and the wrapper of the Redis client library (\<open>src/db/redis.hpp\<close>).

  The libraries are parameters: what the MySQL server answers to a statement is
  \<open>sql_exec\<close>, what reading a row gives after its result has been freed is \<open>freed_row\<close>, and
  what a Redis server answers is \<open>redis_exec\<close>. The client protocol is the documented one: a
  statement leaves a pending result, \<open>mysql_store_result\<close> takes it and a second call gets
  NULL, and a statement sent while a result is pending fails. The log of the statements sent
  is kept beside the connection.
\<close>

type_synonym row = "string option list"

datatype answer = QueryError | NoResult | Rows "row list"

record 'd mysql_lib =
  sql_exec :: "string \<Rightarrow> 'd \<Rightarrow> answer \<times> 'd"
  freed_row :: "row \<Rightarrow> row res"

record 'd Mysql =
  conn :: 'd
  pending :: "row list option"
  sent :: "string list"
  my_errno :: int
  my_lock :: bool
  my_tmp_lock :: bool

section \<open>The client library\<close>

definition mysql_real_query :: "'d mysql_lib \<Rightarrow> string \<Rightarrow> 'd Mysql \<Rightarrow> bool \<times> 'd Mysql" where
  "mysql_real_query lib sql m =
     (case pending m of
        Some _ \<Rightarrow> (True, m)
      | None \<Rightarrow> (case sql_exec lib sql (conn m) of (a, d) \<Rightarrow>
          (a = QueryError, m\<lparr>conn := d, sent := sent m @ [sql], pending := (case a of Rows rs \<Rightarrow> Some rs | _ \<Rightarrow> None)\<rparr>)))"

definition mysql_store_result :: "'d Mysql \<Rightarrow> row list option \<times> 'd Mysql" where
  "mysql_store_result m = (pending m, m\<lparr>pending := None\<rparr>)"

text \<open>\<open>mysql_query\<close> with its answer ignored.\<close>

definition mysql_query :: "'d mysql_lib \<Rightarrow> string \<Rightarrow> 'd Mysql \<Rightarrow> 'd Mysql" where
  "mysql_query lib sql m = snd (mysql_real_query lib sql m)"

text \<open>A column that is SQL NULL is a null pointer.\<close>

definition column :: "row \<Rightarrow> nat \<Rightarrow> string res" where
  "column r i = rbind (rd_arr r i) (\<lambda>c. case c of None \<Rightarrow> Inl NullDeref | Some s \<Rightarrow> Inr s)"

definition column_int :: "row \<Rightarrow> nat \<Rightarrow> int res" where
  "column_int r i = rbind (column r i) (\<lambda>s. Inr (atoi s))"

section \<open>The class \<open>Mysql\<close>\<close>

definition mysql_setLock :: "'d Mysql \<Rightarrow> 'd Mysql" where
  "mysql_setLock m = m\<lparr>my_tmp_lock := True\<rparr>"

definition mysql_getLock :: "'d Mysql \<Rightarrow> bool" where
  "mysql_getLock m = my_lock m"

definition mysql_freeLock :: "'d Mysql \<Rightarrow> 'd Mysql" where
  "mysql_freeLock m = m\<lparr>my_lock := False\<rparr>"

definition mysql_new :: "'d \<Rightarrow> int \<Rightarrow> 'd Mysql" where
  "mysql_new d err = \<lparr>conn = d, pending = None, sent = [], my_errno = err, my_lock = False, my_tmp_lock = False\<rparr>"

definition setChar :: "'d mysql_lib \<Rightarrow> string option \<Rightarrow> 'd Mysql \<Rightarrow> (bool \<times> 'd Mysql) res" where
  "setChar lib ch m =
     rbind (sprintf_buf 32 (''SET NAMES '' @ [CHR 0x27] @ (case ch of None \<Rightarrow> ''utf8'' | Some c \<Rightarrow> c) @ [CHR 0x27])) (\<lambda>sql.
       Inr (mysql_real_query lib sql m))"

text \<open>
  \<open>getRow\<close> waits for the lock after it has stored the result, takes the first row, frees the
  result and answers the row, whose columns are then read through \<open>freed_row\<close>.
\<close>

definition getRow :: "'d mysql_lib \<Rightarrow> string \<Rightarrow> 'd Mysql \<Rightarrow> (row option \<times> 'd Mysql) res" where
  "getRow lib sql m =
     (case mysql_real_query lib sql m of (err, m1) \<Rightarrow>
        if err then Inr (None, m1)
        else case mysql_store_result m1 of (res, m2) \<Rightarrow>
          (case res of
             None \<Rightarrow> Inr (None, m2)
           | Some rs \<Rightarrow> if my_lock m2 then Inl Hang
                        else Inr (case rs of [] \<Rightarrow> None | r # _ \<Rightarrow> Some r, m2\<lparr>my_lock := my_tmp_lock m2\<rparr>)))"

definition getItem :: "'d mysql_lib \<Rightarrow> string \<Rightarrow> 'd Mysql \<Rightarrow> (string option \<times> 'd Mysql) res" where
  "getItem lib sql m =
     rbind (getRow lib sql m) (\<lambda>(row, m1).
       case row of None \<Rightarrow> Inr (None, m1)
       | Some r \<Rightarrow> rbind (freed_row lib r) (\<lambda>r'. rbind (column r' 0) (\<lambda>s.
           Inr (if length s = 0 then None else Some s, m1))))"

definition getItemToInt :: "'d mysql_lib \<Rightarrow> string \<Rightarrow> int \<Rightarrow> 'd Mysql \<Rightarrow> (int \<times> 'd Mysql) res" where
  "getItemToInt lib sql dval m =
     rbind (getItem lib sql m) (\<lambda>(v, m1). Inr (case v of None \<Rightarrow> dval | Some s \<Rightarrow> atoi s, m1))"

text \<open>The first non-empty one of the first \<open>n\<close> columns, counted from \<open>i\<close>.\<close>

fun first_filled :: "row \<Rightarrow> nat \<Rightarrow> nat \<Rightarrow> string option res" where
  "first_filled r i 0 = Inr None"
| "first_filled r i (Suc n) = rbind (column r i) (\<lambda>s. if length s > 0 then Inr (Some s) else first_filled r (Suc i) n)"

definition getOrItem :: "'d mysql_lib \<Rightarrow> string \<Rightarrow> nat \<Rightarrow> 'd Mysql \<Rightarrow> (string option \<times> 'd Mysql) res" where
  "getOrItem lib sql field_num m =
     rbind (getRow lib sql m) (\<lambda>(row, m1).
       case row of None \<Rightarrow> Inr (None, m1)
       | Some r \<Rightarrow> rbind (freed_row lib r) (\<lambda>r'. rbind (first_filled r' 0 field_num) (\<lambda>v. Inr (v, m1))))"

definition mysql_error :: "'d Mysql \<Rightarrow> int" where
  "mysql_error m = my_errno m"

section \<open>The class \<open>Redis\<close>\<close>

datatype reply = ReplyString string | ReplyInteger int | ReplyOther

text \<open>
  \<open>redis_exec\<close> gives the reply to a command, the list of its words, and \<open>None\<close> when there is
  none. Only a string reply has text: for the others \<open>str\<close> is NULL and \<open>len\<close> is 0, as the
  library initialises them. \<open>set\<close> frees the reply and then answers whether the pointer to it
  is not NULL.
\<close>

record 'r redis_lib =
  redis_exec :: "string list \<Rightarrow> 'r \<Rightarrow> reply option \<times> 'r"

definition reply_str :: "reply \<Rightarrow> string option" where
  "reply_str rep = (case rep of ReplyString s \<Rightarrow> Some s | _ \<Rightarrow> None)"

definition reply_len :: "reply \<Rightarrow> nat" where
  "reply_len rep = (case reply_str rep of None \<Rightarrow> 0 | Some s \<Rightarrow> length s)"

definition is_string_reply :: "reply \<Rightarrow> bool" where
  "is_string_reply rep = (case rep of ReplyString _ \<Rightarrow> True | _ \<Rightarrow> False)"

definition is_integer_reply :: "reply \<Rightarrow> bool" where
  "is_integer_reply rep = (case rep of ReplyInteger _ \<Rightarrow> True | _ \<Rightarrow> False)"

definition redis_set :: "'r redis_lib \<Rightarrow> string \<Rightarrow> string \<Rightarrow> 'r \<Rightarrow> bool \<times> 'r" where
  "redis_set lib key val r = (case redis_exec lib [''SET'', key, val] r of (rep, r') \<Rightarrow> (rep \<noteq> None, r'))"

definition redis_set_int :: "'r redis_lib \<Rightarrow> string \<Rightarrow> int \<Rightarrow> 'r \<Rightarrow> bool \<times> 'r" where
  "redis_set_int lib key val r = (case redis_exec lib [''SET'', key, dec_int val] r of (rep, r') \<Rightarrow> (rep \<noteq> None, r'))"

definition redis_get :: "'r redis_lib \<Rightarrow> string \<Rightarrow> 'r \<Rightarrow> string option \<times> 'r" where
  "redis_get lib key r =
     (case redis_exec lib [''GET'', key] r of (rep, r') \<Rightarrow>
        (case rep of None \<Rightarrow> None
         | Some p \<Rightarrow> if is_string_reply p \<and> reply_len p > 0 then reply_str p else None, r'))"

definition redis_getInt :: "'r redis_lib \<Rightarrow> string \<Rightarrow> 'r \<Rightarrow> int \<times> 'r" where
  "redis_getInt lib key r =
     (case redis_exec lib [''GET'', key] r of (rep, r') \<Rightarrow>
        (case rep of None \<Rightarrow> 0
         | Some p \<Rightarrow> if is_integer_reply p \<and> reply_len p > 0
                     then (case reply_str p of None \<Rightarrow> 0 | Some s \<Rightarrow> atoi s) else 0, r'))"

text \<open>\<open>getInt\<close> answers 0 for every key: no reply is an integer with text.\<close>

lemma redis_getInt_zero: "fst (redis_getInt lib key r) = 0"
  by (auto simp: redis_getInt_def is_integer_reply_def reply_len_def reply_str_def split: prod.splits option.splits reply.splits)

section \<open>What the wrappers do\<close>

lemma real_query_sent [simp]: "pending m = None \<Longrightarrow> sent (snd (mysql_real_query lib sql m)) = sent m @ [sql]"
  by (simp add: mysql_real_query_def split: prod.splits)

lemma query_sent [simp]: "pending m = None \<Longrightarrow> sent (mysql_query lib sql m) = sent m @ [sql]"
  by (simp add: mysql_query_def)

lemma query_locks [simp]:
  "my_lock (mysql_query lib sql m) = my_lock m" "my_tmp_lock (mysql_query lib sql m) = my_tmp_lock m"
  by (auto simp: mysql_query_def mysql_real_query_def split: prod.splits option.splits)

text \<open>A connection no result is pending on and no lock is set on.\<close>

definition quiet :: "'d Mysql \<Rightarrow> bool" where
  "quiet m \<longleftrightarrow> pending m = None \<and> \<not> my_lock m \<and> \<not> my_tmp_lock m"

text \<open>\<open>getRow\<close> on a quiet connection sends the statement, answers the first row and leaves it quiet.\<close>

definition first_row :: "answer \<Rightarrow> row option" where
  "first_row a = (case a of Rows (r # _) \<Rightarrow> Some r | _ \<Rightarrow> None)"

lemma getRow_quiet:
  assumes "quiet m" "sql_exec lib sql (conn m) = (a, d)"
  shows "getRow lib sql m = Inr (first_row a, m\<lparr>conn := d, sent := sent m @ [sql]\<rparr>)"
    and "quiet (m\<lparr>conn := d, sent := sent m @ [sql]\<rparr>)"
  using assms by (auto simp: getRow_def mysql_real_query_def mysql_store_result_def quiet_def first_row_def
      split: answer.splits list.splits)

text \<open>After \<open>setLock\<close> one row can be read, and the next \<open>getRow\<close> waits for ever.\<close>

lemma getRow_locked:
  assumes "quiet m" "sql_exec lib sql (conn m) = (Rows rs, d)" "sql_exec lib sql2 d = (Rows rs2, d2)"
  shows "\<exists>r m1. getRow lib sql (mysql_setLock m) = Inr (r, m1) \<and> mysql_getLock m1 \<and> getRow lib sql2 m1 = Inl Hang"
  using assms by (simp add: getRow_def mysql_real_query_def mysql_store_result_def quiet_def mysql_setLock_def mysql_getLock_def)

text \<open>
  \<open>getItem\<close> sends one statement and answers the first column of the first row as the memory of
  that row reads after \<open>mysql_free_result\<close>, whatever it holds then, and NULL when that column is
  the empty text.
\<close>

lemma getItem_quiet:
  assumes "quiet m" "sql_exec lib sql (conn m) = (Rows (r0 # rs), d)" "freed_row lib r0 = Inr (Some bs # r)"
  shows "\<exists>m'. getItem lib sql m = Inr (if bs = [] then None else Some bs, m') \<and> quiet m' \<and> sent m' = sent m @ [sql] \<and> conn m' = d"
  using getRow_quiet [OF assms(1,2)] assms(3) by (simp add: getItem_def column_def rd_arr_def first_row_def)

text \<open>Where reading the freed row faults, so does every \<open>getItem\<close> that finds a row.\<close>

lemma getItem_freed:
  assumes "quiet m" "sql_exec lib sql (conn m) = (Rows (r # rs), d)" "freed_row lib r = Inl e"
  shows "getItem lib sql m = Inl e"
  using getRow_quiet [OF assms(1,2)] assms(3) by (simp add: getItem_def first_row_def)

end
