(* ===== verification/Users.thy ===== *)
theory Users
  imports Store
begin

text \<open>
  The user of a player (\<open>src/source/user.hpp\<close>): loading from the database, the kill counters,
  the completed tasks, saving and freeing. The linked lists of tasks and kills are lists in
  list order; a statement is the text built by \<open>sprintf\<close> in a buffer of the source's size.
\<close>

abbreviation APOS :: char where "APOS \<equiv> CHR 0x27"

record S_UserPrivilege =
  view :: bool
  kick :: bool
  exit :: bool

record S_UserTask =
  ut_id :: int
  ut_task_id :: int
  ut_group_id :: int
  ut_mutex_id :: int
  ut_status :: int
  ut_is_new :: int

record S_UserKillFish =
  kf_id :: int
  kf_no :: int
  kf_value :: int
  kf_is_change :: int

record User =
  u_task :: "S_UserTask list"
  u_killfish :: "S_UserKillFish list"
  u_id :: int
  u_group_id :: int
  u_coin :: int
  u_backup_coin :: int
  u_name :: "string option"
  u_level_exp :: int
  u_vip_exp :: int
  u_task_total :: int
  u_killfish_total :: int
  u_op_time :: int
  u_privilege :: S_UserPrivilege

section \<open>Logging in\<close>

definition sign_key_sql :: "string \<Rightarrow> string" where
  "sign_key_sql key = ''SELECT u.id FROM user_sign AS us INNER JOIN users AS u ON u.id=us.user_id WHERE us.sign_key='' @
     APOS # key @ [APOS]"

definition checkSignKey :: "'d mysql_lib \<Rightarrow> string \<Rightarrow> User \<Rightarrow> 'd Mysql \<Rightarrow> (int \<times> User \<times> 'd Mysql) res" where
  "checkSignKey lib key u m =
     rbind (sprintf_buf 256 (sign_key_sql key)) (\<lambda>sql. rbind (getItemToInt lib sql 0 m) (\<lambda>(i, m').
       Inr (i, u\<lparr>u_id := i\<rparr>, m')))"

definition getDbCoin :: "'d mysql_lib \<Rightarrow> User \<Rightarrow> 'd Mysql \<Rightarrow> (int \<times> 'd Mysql) res" where
  "getDbCoin lib u m =
     rbind (sprintf_buf 128 (''SELECT balance FROM user_coin WHERE user_id='' @ dec_int (u_id u))) (\<lambda>sql.
       getItemToInt lib sql 0 m)"

section \<open>Loading\<close>

definition has_privilege :: "'d mysql_lib \<Rightarrow> int \<Rightarrow> string \<Rightarrow> 'd Mysql \<Rightarrow> (bool \<times> 'd Mysql) res" where
  "has_privilege lib gid key m =
     rbind (sprintf_buf 128 (''SELECT id FROM user_privileges WHERE user_group_id='' @ dec_int gid @
         '' AND privilege_key='' @ APOS # key @ [APOS])) (\<lambda>sql.
     rbind (getItem lib sql m) (\<lambda>(v, m'). Inr (v \<noteq> None, m')))"

definition load_privilege :: "'d mysql_lib \<Rightarrow> int \<Rightarrow> 'd Mysql \<Rightarrow> (S_UserPrivilege \<times> 'd Mysql) res" where
  "load_privilege lib gid m =
     (if gid = -1 then Inr (\<lparr>view = True, kick = True, exit = True\<rparr>, m)
      else if gid > 0 then
        rbind (has_privilege lib gid ''game_view_user'' m) (\<lambda>(v, m1).
        rbind (has_privilege lib gid ''game_kick'' m1) (\<lambda>(k, m2).
          Inr (\<lparr>view = v, kick = k, exit = False\<rparr>, m2)))
      else Inr (\<lparr>view = False, kick = False, exit = False\<rparr>, m))"

text \<open>The name is the nick name, or the name when there is no nick name; NULL when both are empty.\<close>

definition user_name :: "row \<Rightarrow> string option res" where
  "user_name r = rbind (column r 3) (\<lambda>nick. rbind (if length nick > 0 then Inr nick else column r 2) (\<lambda>s.
     Inr (if length s > 0 then Some s else None)))"

definition task_of_row :: "row \<Rightarrow> S_UserTask res" where
  "task_of_row r =
     rbind (column_int r 0) (\<lambda>i. rbind (column_int r 1) (\<lambda>t. rbind (column_int r 2) (\<lambda>st.
     rbind (column_int r 3) (\<lambda>g. rbind (column_int r 4) (\<lambda>x.
       Inr \<lparr>ut_id = i, ut_task_id = t, ut_group_id = g, ut_mutex_id = x, ut_status = st, ut_is_new = 0\<rparr>)))))"

fun tasks_of_rows :: "row list \<Rightarrow> S_UserTask list res" where
  "tasks_of_rows [] = Inr []"
| "tasks_of_rows (r # rs) = rbind (task_of_row r) (\<lambda>t. rbind (tasks_of_rows rs) (\<lambda>ts. Inr (t # ts)))"

text \<open>A row of the kill counters without a fish number is skipped.\<close>

fun kills_of_rows :: "row list \<Rightarrow> S_UserKillFish list res" where
  "kills_of_rows [] = Inr []"
| "kills_of_rows (r # rs) =
     rbind (column_int r 1) (\<lambda>no.
       if no = 0 then kills_of_rows rs
       else rbind (column_int r 0) (\<lambda>i. rbind (column_int r 2) (\<lambda>v. rbind (kills_of_rows rs) (\<lambda>ks.
         Inr (\<lparr>kf_id = i, kf_no = no, kf_value = v, kf_is_change = 0\<rparr> # ks)))))"

text \<open>A query whose rows are read before the result is freed.\<close>

definition with_rows :: "'d mysql_lib \<Rightarrow> nat \<Rightarrow> string \<Rightarrow> (row list \<Rightarrow> 'a list res) \<Rightarrow> 'd Mysql \<Rightarrow> ('a list \<times> 'd Mysql) res" where
  "with_rows lib cap sql f m =
     rbind (sprintf_buf cap sql) (\<lambda>sql.
       case mysql_real_query lib sql m of (err, m1) \<Rightarrow>
         if err then Inr ([], m1)
         else case mysql_store_result m1 of (res, m2) \<Rightarrow>
           (case res of None \<Rightarrow> Inr ([], m2) | Some rs \<Rightarrow> rbind (f rs) (\<lambda>xs. Inr (xs, m2))))"

definition user_blank :: "int \<Rightarrow> User \<Rightarrow> User" where
  "user_blank now u = u\<lparr>u_killfish_total := 0, u_task_total := 0, u_coin := 0, u_backup_coin := 0, u_name := None,
     u_task := [], u_killfish := [], u_op_time := now, u_privilege := \<lparr>view = False, kick = False, exit = False\<rparr>\<rparr>"

definition load_lists :: "'d mysql_lib \<Rightarrow> User \<Rightarrow> 'd Mysql \<Rightarrow> (User \<times> 'd Mysql) res" where
  "load_lists lib u m =
     rbind (with_rows lib 200 (''SELECT a.id,a.task_id,a.status,b.group_id,b.mutex_id FROM user_tasks AS a WHERE INNER JOIN tasks b ON b.id=a.task_id a.user_id='' @
         dec_int (u_id u)) tasks_of_rows m) (\<lambda>(ts, m1).
     rbind (with_rows lib 100 (''SELECT id,param,value FROM user_values WHERE type='' @ APOS # ''kill_fish'' @ APOS # '' AND user_id='' @
         dec_int (u_id u)) kills_of_rows m1) (\<lambda>(ks, m2).
       Inr (u\<lparr>u_task := ts, u_task_total := i32 (u_task_total u + int (length ts)), u_killfish := ks,
              u_killfish_total := i32 (u_killfish_total u + sum_list (map kf_value ks))\<rparr>, m2)))"

definition load :: "'d mysql_lib \<Rightarrow> int \<Rightarrow> User \<Rightarrow> 'd Mysql \<Rightarrow> (int \<times> User \<times> 'd Mysql) res" where
  "load lib now u0 m =
     (let u = user_blank now u0
      in rbind (sprintf_buf 256 (''SELECT u.id,u.group_id,u.name,u.nick,u.level_exp,u.vip_exp FROM users AS u WHERE id='' @ dec_int (u_id u))) (\<lambda>sql.
         rbind (getRow lib sql m) (\<lambda>(row, m1).
           case row of None \<Rightarrow> Inr (0, u, m1)
           | Some r0 \<Rightarrow> rbind (freed_row lib r0) (\<lambda>r. rbind (column r 0) (\<lambda>idc.
               if length idc = 0 then Inr (0, u, m1)
               else
                 rbind (column_int r 1) (\<lambda>gid. rbind (user_name r) (\<lambda>name.
                 rbind (column_int r 4) (\<lambda>lexp. rbind (column_int r 5) (\<lambda>vexp.
                 rbind (load_privilege lib gid m1) (\<lambda>(p, m2).
                 rbind (load_lists lib (u\<lparr>u_group_id := gid, u_name := name, u_level_exp := lexp, u_vip_exp := vexp,
                     u_privilege := p\<rparr>) m2) (\<lambda>(u1, m3).
                 rbind (getDbCoin lib u1 m3) (\<lambda>(c, m4).
                   Inr (u_id u1, u1\<lparr>u_coin := c, u_backup_coin := c\<rparr>, m4)))))))))))))"

section \<open>Kills and tasks\<close>

fun bump_kill :: "int \<Rightarrow> S_UserKillFish list \<Rightarrow> S_UserKillFish list" where
  "bump_kill no [] = [\<lparr>kf_id = 0, kf_no = no, kf_value = 1, kf_is_change = 1\<rparr>]"
| "bump_kill no (k # ks) =
     (if kf_no k = no then k\<lparr>kf_value := i32 (kf_value k + 1), kf_is_change := 1\<rparr> # ks else k # bump_kill no ks)"

definition killFish :: "int \<Rightarrow> User \<Rightarrow> User" where
  "killFish no u = u\<lparr>u_killfish := bump_kill no (u_killfish u)\<rparr>"

fun kill_reached :: "int \<Rightarrow> int \<Rightarrow> S_UserKillFish list \<Rightarrow> bool" where
  "kill_reached no need [] = False"
| "kill_reached no need (k # ks) = (if kf_no k = no then kf_value k \<ge> need else kill_reached no need ks)"

definition checkKillFish :: "int \<Rightarrow> int \<Rightarrow> User \<Rightarrow> bool" where
  "checkKillFish no need u = (if no = 0 then u_killfish_total u \<ge> need else kill_reached no need (u_killfish u))"

fun tasks_in_group :: "int \<Rightarrow> S_UserTask list \<Rightarrow> int" where
  "tasks_in_group g [] = 0"
| "tasks_in_group g (t # ts) = (if ut_group_id t = g then 1 else 0) + tasks_in_group g ts"

definition checkTask :: "int \<Rightarrow> int \<Rightarrow> User \<Rightarrow> bool" where
  "checkTask g need u = ((if g \<le> 0 then u_task_total u else tasks_in_group g (u_task u)) \<ge> need)"

definition addTask :: "S_UserTask \<Rightarrow> User \<Rightarrow> User" where
  "addTask t u = u\<lparr>u_task := u_task u @ [t], u_task_total := i32 (u_task_total u + 1)\<rparr>"

section \<open>Saving\<close>

text \<open>The remark of a balance log, in UTF-8.\<close>

definition remark :: string where
  "remark = [CHR 0xE6, CHR 0xB8, CHR 0xB8, CHR 0xE6, CHR 0x88, CHR 0x8F, CHR 0xE5, CHR 0x8F, CHR 0x98, CHR 0xE5, CHR 0x8A, CHR 0xA8]"

definition op_time_sql :: "User \<Rightarrow> string" where
  "op_time_sql u = ''UPDATE users SET op_time='' @ dec_int (u_op_time u) @ '' WHERE id='' @ dec_int (u_id u)"

definition balance_sql :: "User \<Rightarrow> string" where
  "balance_sql u = ''SELECT balance FROM user_coin WHERE user_id='' @ dec_int (u_id u)"

definition set_balance_sql :: "int \<Rightarrow> User \<Rightarrow> string" where
  "set_balance_sql b u = ''UPDATE user_coin SET balance='' @ dec_int b @ '' WHERE user_id='' @ dec_int (u_id u)"

definition coin_log_sql :: "int \<Rightarrow> int \<Rightarrow> User \<Rightarrow> string" where
  "coin_log_sql win b u = ''INSERT INTO user_coin_logs(user_id,op_user_id,count,balance,`remark`,type,created_at) VALUES ('' @
     dec_int (u_id u) @ '','' @ dec_int (u_id u) @ '','' @ dec_int win @ '','' @ dec_int b @ '','' @ APOS # remark @ APOS # '','' @
     APOS # ''game'' @ APOS # '','' @ dec_int (u_op_time u) @ '')''"

definition task_sql :: "User \<Rightarrow> S_UserTask \<Rightarrow> string" where
  "task_sql u t = ''INSERT user_tasks (user_id,task_id,status,created_at,updated_at) VALUES ('' @ dec_int (u_id u) @ '','' @
     dec_int (ut_task_id t) @ '','' @ dec_int (ut_status t) @ '','' @ dec_int (u_op_time u) @ '','' @ dec_int (u_op_time u) @ '')''"

definition kill_sql :: "User \<Rightarrow> S_UserKillFish \<Rightarrow> string" where
  "kill_sql u k =
     (if kf_id k \<noteq> 0 then ''UPDATE user_values SET value='' @ dec_int (kf_value k) @ '' WHERE id='' @ dec_int (kf_id k)
      else ''INSERT user_values (user_id,value,param,type) VALUES ('' @ dec_int (u_id u) @ '','' @ dec_int (kf_value k) @ '','' @
        dec_int (kf_no k) @ '','' @ APOS # ''kill_fish'' @ APOS # '')'')"

text \<open>Print a statement into \<open>char sql[256]\<close> and send it.\<close>

definition send_sql :: "'d mysql_lib \<Rightarrow> string \<Rightarrow> 'd Mysql \<Rightarrow> 'd Mysql res" where
  "send_sql lib sql m = rbind (sprintf_buf 256 sql) (\<lambda>s. Inr (mysql_query lib s m))"

definition save_coin :: "'d mysql_lib \<Rightarrow> User \<Rightarrow> 'd Mysql \<Rightarrow> (User \<times> 'd Mysql) res" where
  "save_coin lib u m =
     (if u_coin u = u_backup_coin u then Inr (u, m)
      else rbind (sprintf_buf 256 (balance_sql u)) (\<lambda>sql. rbind (getItemToInt lib sql 0 m) (\<lambda>(balance, m1).
        let win = i32 (u_coin u - u_backup_coin u); b = i32 (balance + win)
        in rbind (send_sql lib (set_balance_sql b u) m1) (\<lambda>m2. rbind (send_sql lib (coin_log_sql win b u) m2) (\<lambda>m3.
             Inr (u\<lparr>u_coin := b, u_backup_coin := b\<rparr>, m3))))))"

fun save_tasks :: "'d mysql_lib \<Rightarrow> User \<Rightarrow> S_UserTask list \<Rightarrow> 'd Mysql \<Rightarrow> 'd Mysql res" where
  "save_tasks lib u [] m = Inr m"
| "save_tasks lib u (t # ts) m =
     rbind (if ut_is_new t \<noteq> 0 then send_sql lib (task_sql u t) m else Inr m) (save_tasks lib u ts)"

fun save_kills :: "'d mysql_lib \<Rightarrow> User \<Rightarrow> S_UserKillFish list \<Rightarrow> 'd Mysql \<Rightarrow> (S_UserKillFish list \<times> 'd Mysql) res" where
  "save_kills lib u [] m = Inr ([], m)"
| "save_kills lib u (k # ks) m =
     rbind (if kf_is_change k \<noteq> 0 then send_sql lib (kill_sql u k) m else Inr m) (\<lambda>m1.
     rbind (save_kills lib u ks m1) (\<lambda>(ks', m2). Inr (k\<lparr>kf_is_change := 0\<rparr> # ks', m2)))"

definition save :: "'d mysql_lib \<Rightarrow> int \<Rightarrow> User \<Rightarrow> 'd Mysql \<Rightarrow> (User \<times> 'd Mysql) res" where
  "save lib now u0 m =
     (if u_id u0 = 0 then Inr (u0, m)
      else let u = u0\<lparr>u_op_time := now\<rparr>
        in rbind (send_sql lib (op_time_sql u) m) (\<lambda>m1.
           rbind (save_coin lib u m1) (\<lambda>(u1, m2).
           rbind (save_tasks lib u1 (u_task u1) m2) (\<lambda>m3.
           rbind (save_kills lib u1 (u_killfish u1) m3) (\<lambda>(ks, m4).
             Inr (u1\<lparr>u_killfish := ks\<rparr>, m4))))))"

section \<open>Freeing\<close>

text \<open>
  The loop of \<open>destory\<close> over the tasks: \<open>p\<close> is the node it stands on, by its position in the
  list, \<open>freed\<close> the positions freed so far. The next node is read from the first node of the
  list, \<open>task->next\<close>, not from the one it stands on.
\<close>

fun free_tasks :: "nat \<Rightarrow> S_UserTask list \<Rightarrow> nat set \<Rightarrow> nat option \<Rightarrow> nat set res" where
  "free_tasks n ts freed None = Inr freed"
| "free_tasks 0 ts freed (Some p) = Inl Hang"
| "free_tasks (Suc n) ts freed (Some p) =
     (if 0 \<in> freed \<or> p \<in> freed then Inl UseAfterFree
      else free_tasks n ts (insert p freed) (if 1 < length ts then Some 1 else None))"

definition destory :: "User \<Rightarrow> User res" where
  "destory u =
     rbind (free_tasks (Suc (length (u_task u))) (u_task u) {} (if u_task u = [] then None else Some 0)) (\<lambda>_.
       Inr (u\<lparr>u_task := [], u_killfish := []\<rparr>))"

section \<open>Kill counters\<close>

fun kill_value :: "int \<Rightarrow> S_UserKillFish list \<Rightarrow> int" where
  "kill_value no [] = 0"
| "kill_value no (k # ks) = (if kf_no k = no then kf_value k else kill_value no ks)"

lemma kill_reached_value: "0 < need \<Longrightarrow> kill_reached no need ks \<longleftrightarrow> kill_value no ks \<ge> need"
  by (induction ks) auto

lemma bump_kill_value:
  "0 \<le> kill_value no ks \<Longrightarrow> kill_value no ks < 2147483647 \<Longrightarrow>
   kill_value n (bump_kill no ks) = kill_value n ks + (if n = no then 1 else 0)"
  by (induction ks) (auto simp: i32_id)

lemma bump_kill_set: "kf_no ` set (bump_kill no ks) = insert no (kf_no ` set ks)"
  by (induction ks) auto

lemma bump_kill_distinct: "distinct (map kf_no ks) \<Longrightarrow> distinct (map kf_no (bump_kill no ks))"
  by (induction ks) (auto simp: bump_kill_set image_image image_iff dest: equalityD1 [OF bump_kill_set, THEN subsetD])

lemma killFish_simps [simp]:
  "u_killfish (killFish no u) = bump_kill no (u_killfish u)" "u_killfish_total (killFish no u) = u_killfish_total u"
  "u_coin (killFish no u) = u_coin u" "u_name (killFish no u) = u_name u" "u_id (killFish no u) = u_id u"
  by (simp_all add: killFish_def)

lemma kills_counted:
  assumes "distinct (map kf_no (u_killfish u))" "\<And>n. 0 \<le> kill_value n (u_killfish u) \<and> kill_value n (u_killfish u) + int (length nos) \<le> 2147483647"
  shows "distinct (map kf_no (u_killfish (fold killFish nos u))) \<and> u_killfish_total (fold killFish nos u) = u_killfish_total u \<and>
    (\<forall>n. kill_value n (u_killfish (fold killFish nos u)) = kill_value n (u_killfish u) + int (count_list nos n))"
  using assms
proof (induction nos arbitrary: u)
  case (Cons no nos)
  have b: "0 \<le> kill_value no (u_killfish u)" "kill_value no (u_killfish u) < 2147483647"
    using Cons.prems(2) [of no] by auto
  note v = bump_kill_value [OF b]
  have "0 \<le> kill_value n (u_killfish (killFish no u)) \<and> kill_value n (u_killfish (killFish no u)) + int (length nos) \<le> 2147483647" for n
    using Cons.prems(2) [of n] Cons.prems(2) [of no] by (simp add: v)
  from Cons.IH [OF _ this] bump_kill_distinct [OF Cons.prems(1)] show ?case by (simp add: v)
qed simp

section \<open>What saving sends\<close>

definition in_i32 :: "int \<Rightarrow> bool" where
  "in_i32 x \<longleftrightarrow> - 2147483648 \<le> x \<and> x < 2147483648"

text \<open>The fields of a user are values of \<open>int\<close>.\<close>

definition user_fits :: "User \<Rightarrow> bool" where
  "user_fits u \<longleftrightarrow> in_i32 (u_id u) \<and> in_i32 (u_coin u) \<and> in_i32 (u_backup_coin u) \<and> in_i32 (u_op_time u) \<and>
     (\<forall>t \<in> set (u_task u). in_i32 (ut_task_id t) \<and> in_i32 (ut_status t)) \<and>
     (\<forall>k \<in> set (u_killfish u). in_i32 (kf_id k) \<and> in_i32 (kf_no k) \<and> in_i32 (kf_value k))"

text \<open>Statements that are no queries have no rows.\<close>

definition writes_quietly :: "'d mysql_lib \<Rightarrow> bool" where
  "writes_quietly lib \<longleftrightarrow> (\<forall>sql d rs. take 6 sql \<noteq> ''SELECT'' \<longrightarrow> fst (sql_exec lib sql d) \<noteq> Rows rs)"

lemma len11: "in_i32 x \<Longrightarrow> length (dec_int x) \<le> 11"
  by (simp add: in_i32_def length_dec_i32)

lemma in_i32_i32 [simp]: "in_i32 (i32 x)"
  using i32_bounds [of x] by (simp add: in_i32_def)

lemma send_sql_ok:
  assumes "quiet m" "writes_quietly lib" "length sql < 256" "take 6 sql \<noteq> ''SELECT''"
  shows "\<exists>m'. send_sql lib sql m = Inr m' \<and> quiet m' \<and> sent m' = sent m @ [sql] \<and> conn m' = snd (sql_exec lib sql (conn m))"
proof -
  obtain a d where e: "sql_exec lib sql (conn m) = (a, d)" by (cases "sql_exec lib sql (conn m)")
  have "\<forall>rs. a \<noteq> Rows rs" using assms(2,4) e unfolding writes_quietly_def by (metis fst_conv)
  then show ?thesis using assms e
    by (cases a) (auto simp: send_sql_def sprintf_buf_def mysql_query_def mysql_real_query_def quiet_def)
qed

lemma op_time_sql_fits: "user_fits u \<Longrightarrow> length (op_time_sql u) < 256 \<and> take 6 (op_time_sql u) \<noteq> ''SELECT''"
  using len11 [of "u_op_time u"] len11 [of "u_id u"] by (simp add: op_time_sql_def user_fits_def)

lemma set_balance_sql_fits: "user_fits u \<Longrightarrow> in_i32 b \<Longrightarrow> length (set_balance_sql b u) < 256 \<and> take 6 (set_balance_sql b u) \<noteq> ''SELECT''"
  using len11 [of b] len11 [of "u_id u"] by (simp add: set_balance_sql_def user_fits_def)

lemma coin_log_sql_fits:
  "user_fits u \<Longrightarrow> in_i32 b \<Longrightarrow> in_i32 w \<Longrightarrow> length (coin_log_sql w b u) < 256 \<and> take 6 (coin_log_sql w b u) \<noteq> ''SELECT''"
  using len11 [of b] len11 [of w] len11 [of "u_id u"] len11 [of "u_op_time u"]
  by (simp add: coin_log_sql_def remark_def user_fits_def)

lemma task_sql_fits:
  "user_fits u \<Longrightarrow> t \<in> set (u_task u) \<Longrightarrow> length (task_sql u t) < 256 \<and> take 6 (task_sql u t) \<noteq> ''SELECT''"
  using len11 [of "ut_task_id t"] len11 [of "ut_status t"] len11 [of "u_id u"] len11 [of "u_op_time u"]
  by (simp add: task_sql_def user_fits_def)

lemma kill_sql_fits:
  "user_fits u \<Longrightarrow> k \<in> set (u_killfish u) \<Longrightarrow> length (kill_sql u k) < 256 \<and> take 6 (kill_sql u k) \<noteq> ''SELECT''"
  using len11 [of "kf_id k"] len11 [of "kf_no k"] len11 [of "u_id u"] len11 [of "kf_value k"]
  by (simp add: kill_sql_def user_fits_def)

lemma save_tasks_sends:
  "quiet m \<Longrightarrow> writes_quietly lib \<Longrightarrow> user_fits u \<Longrightarrow> set ts \<subseteq> set (u_task u) \<Longrightarrow>
   \<exists>m'. save_tasks lib u ts m = Inr m' \<and> quiet m' \<and> sent m' = sent m @ map (task_sql u) (filter (\<lambda>t. ut_is_new t \<noteq> 0) ts)"
proof (induction ts arbitrary: m)
  case (Cons t ts)
  show ?case
  proof (cases "ut_is_new t = 0")
    case True
    then show ?thesis using Cons by simp
  next
    case False
    obtain m1 where m1: "send_sql lib (task_sql u t) m = Inr m1" "quiet m1" "sent m1 = sent m @ [task_sql u t]"
      using send_sql_ok [OF Cons.prems(1,2)] task_sql_fits [OF Cons.prems(3)] Cons.prems(4) by (metis list.set_intros(1) subsetD)
    from Cons.IH [OF m1(2) Cons.prems(2,3)] Cons.prems(4) m1 False show ?thesis by auto
  qed
qed simp

lemma save_kills_sends:
  "quiet m \<Longrightarrow> writes_quietly lib \<Longrightarrow> user_fits u \<Longrightarrow> set ks \<subseteq> set (u_killfish u) \<Longrightarrow>
   \<exists>m'. save_kills lib u ks m = Inr (map (\<lambda>k. k\<lparr>kf_is_change := 0\<rparr>) ks, m') \<and> quiet m' \<and>
     sent m' = sent m @ map (kill_sql u) (filter (\<lambda>k. kf_is_change k \<noteq> 0) ks)"
proof (induction ks arbitrary: m)
  case (Cons k ks)
  show ?case
  proof (cases "kf_is_change k = 0")
    case True
    obtain m' where "save_kills lib u ks m = Inr (map (\<lambda>k. k\<lparr>kf_is_change := 0\<rparr>) ks, m')" "quiet m'"
      "sent m' = sent m @ map (kill_sql u) (filter (\<lambda>k. kf_is_change k \<noteq> 0) ks)"
      using Cons by auto
    then show ?thesis using True by simp
  next
    case False
    obtain m1 where m1: "send_sql lib (kill_sql u k) m = Inr m1" "quiet m1" "sent m1 = sent m @ [kill_sql u k]"
      using send_sql_ok [OF Cons.prems(1,2)] kill_sql_fits [OF Cons.prems(3)] Cons.prems(4) by (metis list.set_intros(1) subsetD)
    obtain m' where "save_kills lib u ks m1 = Inr (map (\<lambda>k. k\<lparr>kf_is_change := 0\<rparr>) ks, m')" "quiet m'"
      "sent m' = sent m1 @ map (kill_sql u) (filter (\<lambda>k. kf_is_change k \<noteq> 0) ks)"
      using Cons.IH [OF m1(2) Cons.prems(2,3)] Cons.prems(4) by auto
    then show ?thesis using m1 False by simp
  qed
qed simp

lemma save_sends:
  assumes "quiet m" "writes_quietly lib" "user_fits u0" "in_i32 now" "u_id u0 \<noteq> 0"
    and "u = u0\<lparr>u_op_time := now\<rparr>"
    and coin: "\<And>m1. quiet m1 \<Longrightarrow> sent m1 = sent m @ [op_time_sql u] \<Longrightarrow> conn m1 = snd (sql_exec lib (op_time_sql u) (conn m)) \<Longrightarrow>
      \<exists>m2. save_coin lib u m1 = Inr (u\<lparr>u_coin := c, u_backup_coin := c\<rparr>, m2) \<and> quiet m2 \<and> sent m2 = sent m1 @ cs"
    and c: "in_i32 c"
  shows "\<exists>u' m'. save lib now u0 m = Inr (u', m') \<and> quiet m' \<and>
    u' = u\<lparr>u_coin := c, u_backup_coin := c, u_killfish := map (\<lambda>k. k\<lparr>kf_is_change := 0\<rparr>) (u_killfish u)\<rparr> \<and>
    sent m' = sent m @ op_time_sql u # cs @ map (task_sql u) (filter (\<lambda>t. ut_is_new t \<noteq> 0) (u_task u)) @
      map (kill_sql u) (filter (\<lambda>k. kf_is_change k \<noteq> 0) (u_killfish u))"
proof -
  let ?u1 = "u\<lparr>u_coin := c, u_backup_coin := c\<rparr>"
  have f: "user_fits u" "user_fits ?u1" using assms(3,4) c by (auto simp: assms(6) user_fits_def)
  have s: "task_sql ?u1 = task_sql u" "kill_sql ?u1 = kill_sql u" by (auto simp: task_sql_def kill_sql_def fun_eq_iff)
  obtain m1 where m1: "send_sql lib (op_time_sql u) m = Inr m1" "quiet m1" "sent m1 = sent m @ [op_time_sql u]"
    "conn m1 = snd (sql_exec lib (op_time_sql u) (conn m))"
    using send_sql_ok [OF assms(1,2)] op_time_sql_fits [OF f(1)] by blast
  obtain m2 where m2: "save_coin lib u m1 = Inr (?u1, m2)" "quiet m2" "sent m2 = sent m1 @ cs"
    using coin [OF m1(2-4)] by blast
  obtain m3 where m3: "save_tasks lib ?u1 (u_task ?u1) m2 = Inr m3" "quiet m3"
    "sent m3 = sent m2 @ map (task_sql u) (filter (\<lambda>t. ut_is_new t \<noteq> 0) (u_task u))"
    using save_tasks_sends [OF m2(2) assms(2) f(2) subset_refl] by (auto simp: s)
  obtain m4 where m4: "save_kills lib ?u1 (u_killfish ?u1) m3 = Inr (map (\<lambda>k. k\<lparr>kf_is_change := 0\<rparr>) (u_killfish u), m4)" "quiet m4"
    "sent m4 = sent m3 @ map (kill_sql u) (filter (\<lambda>k. kf_is_change k \<noteq> 0) (u_killfish u))"
    using save_kills_sends [OF m3(2) assms(2) f(2) subset_refl] by (auto simp: s)
  show ?thesis using m1(1,3) m2(1,3) m3(1,3) m4 assms(5,6) by (simp add: save_def Let_def)
qed

lemma save_coin_same: "u_coin u = u_backup_coin u \<Longrightarrow> save_coin lib u m = Inr (u\<lparr>u_coin := u_coin u, u_backup_coin := u_coin u\<rparr>, m)"
  by (simp add: save_coin_def)

lemma balance_sql_short: "user_fits u \<Longrightarrow> length (balance_sql u) < 256"
  using len11 [of "u_id u"] by (simp add: balance_sql_def user_fits_def)

lemma save_coin_changed:
  assumes "quiet m" "writes_quietly lib" "user_fits u" "u_coin u \<noteq> u_backup_coin u"
    and "sql_exec lib (balance_sql u) (conn m) = (Rows (r0 # rs), d)" "freed_row lib r0 = Inr (Some bs # r)"
    and "win = i32 (u_coin u - u_backup_coin u)" "b = i32 (atoi bs + win)"
  shows "\<exists>m'. save_coin lib u m = Inr (u\<lparr>u_coin := b, u_backup_coin := b\<rparr>, m') \<and> quiet m' \<and>
    sent m' = sent m @ [balance_sql u, set_balance_sql b u, coin_log_sql win b u]"
proof -
  have n: "atoi [] = 0" by (simp add: atoi_def saturate_def)
  obtain m1 where m1: "getItemToInt lib (balance_sql u) 0 m = Inr (atoi bs, m1)" "quiet m1" "sent m1 = sent m @ [balance_sql u]"
    using getItem_quiet [OF assms(1,5,6)] n by (cases "bs = []") (auto simp: getItemToInt_def)
  have i: "in_i32 b" "in_i32 win" by (simp_all add: assms(7,8))
  obtain m2 where m2: "send_sql lib (set_balance_sql b u) m1 = Inr m2" "quiet m2" "sent m2 = sent m1 @ [set_balance_sql b u]"
    using send_sql_ok [OF m1(2) assms(2)] set_balance_sql_fits [OF assms(3) i(1)] by blast
  obtain m3 where m3: "send_sql lib (coin_log_sql win b u) m2 = Inr m3" "quiet m3" "sent m3 = sent m2 @ [coin_log_sql win b u]"
    using send_sql_ok [OF m2(2) assms(2)] coin_log_sql_fits [OF assms(3) i] by blast
  show ?thesis using balance_sql_short [OF assms(3)] m1(1,3) m2(1,3) m3 assms(4)
    by (simp add: save_coin_def sprintf_buf_def Let_def assms(7,8))
qed

text \<open>Where reading the freed row faults, the save ends there.\<close>

lemma save_coin_faults:
  assumes "quiet m" "user_fits u" "u_coin u \<noteq> u_backup_coin u"
    and "sql_exec lib (balance_sql u) (conn m) = (Rows (r0 # rs), d)" "freed_row lib r0 = Inl e"
  shows "save_coin lib u m = Inl e"
  using balance_sql_short [OF assms(2)] getItem_freed [OF assms(1,4,5)] assms(3)
  by (simp add: save_coin_def sprintf_buf_def getItemToInt_def)

text \<open>A save that reads a balance, and the save after it.\<close>

lemma save_twice:
  assumes "quiet m" "writes_quietly lib" "user_fits u0" "in_i32 now" "in_i32 later" "u_id u0 \<noteq> 0"
    and "u_coin u0 \<noteq> u_backup_coin u0"
    and "sql_exec lib (balance_sql u0) (snd (sql_exec lib (op_time_sql (u0\<lparr>u_op_time := now\<rparr>)) (conn m))) = (Rows (r0 # rs), d)"
    and "freed_row lib r0 = Inr (Some bs # r)" "win = i32 (u_coin u0 - u_backup_coin u0)" "b = i32 (atoi bs + win)"
  shows "\<exists>u1 m1 u2 m2. save lib now u0 m = Inr (u1, m1) \<and> u_coin u1 = b \<and> u_backup_coin u1 = b \<and>
    sent m1 = sent m @ [op_time_sql u1, balance_sql u1, set_balance_sql b u1, coin_log_sql win b u1] @
      map (task_sql u1) (filter (\<lambda>t. ut_is_new t \<noteq> 0) (u_task u0)) @
      map (kill_sql u1) (filter (\<lambda>k. kf_is_change k \<noteq> 0) (u_killfish u0)) \<and>
    save lib later u1 m1 = Inr (u2, m2) \<and>
    sent m2 = sent m1 @ op_time_sql u2 # map (task_sql u2) (filter (\<lambda>t. ut_is_new t \<noteq> 0) (u_task u0))"
proof -
  let ?u = "u0\<lparr>u_op_time := now\<rparr>"
  have f: "user_fits ?u" using assms(3,4) by (simp add: user_fits_def)
  have bal: "balance_sql ?u = balance_sql u0" by (simp add: balance_sql_def)
  have ib: "in_i32 b" by (simp add: assms(11))
  have "\<exists>m'. save_coin lib ?u m1 = Inr (?u\<lparr>u_coin := b, u_backup_coin := b\<rparr>, m') \<and> quiet m' \<and>
      sent m' = sent m1 @ [balance_sql ?u, set_balance_sql b ?u, coin_log_sql win b ?u]"
    if "quiet m1" "conn m1 = snd (sql_exec lib (op_time_sql ?u) (conn m))" for m1
    by (rule save_coin_changed [OF that(1) assms(2) f _ _ assms(9)]) (use that assms in \<open>simp_all add: bal\<close>)
  then obtain u1 m1 where 1: "save lib now u0 m = Inr (u1, m1)" "quiet m1"
    "u1 = ?u\<lparr>u_coin := b, u_backup_coin := b, u_killfish := map (\<lambda>k. k\<lparr>kf_is_change := 0\<rparr>) (u_killfish ?u)\<rparr>"
    "sent m1 = sent m @ op_time_sql ?u # [balance_sql ?u, set_balance_sql b ?u, coin_log_sql win b ?u] @
      map (task_sql ?u) (filter (\<lambda>t. ut_is_new t \<noteq> 0) (u_task ?u)) @ map (kill_sql ?u) (filter (\<lambda>k. kf_is_change k \<noteq> 0) (u_killfish ?u))"
    using save_sends [OF assms(1-4,6) refl _ ib] by blast
  have f1: "user_fits u1" using f ib by (auto simp: 1(3) user_fits_def)
  have q: "op_time_sql u1 = op_time_sql ?u" "balance_sql u1 = balance_sql ?u" "set_balance_sql b u1 = set_balance_sql b ?u"
    "coin_log_sql win b u1 = coin_log_sql win b ?u" "task_sql u1 = task_sql ?u" "kill_sql u1 = kill_sql ?u"
    by (auto simp: 1(3) op_time_sql_def balance_sql_def set_balance_sql_def coin_log_sql_def task_sql_def kill_sql_def fun_eq_iff)
  obtain u2 m2 where 2: "save lib later u1 m1 = Inr (u2, m2)"
    "sent m2 = sent m1 @ op_time_sql (u1\<lparr>u_op_time := later\<rparr>) # [] @ map (task_sql (u1\<lparr>u_op_time := later\<rparr>)) (filter (\<lambda>t. ut_is_new t \<noteq> 0) (u_task u1)) @
       map (kill_sql (u1\<lparr>u_op_time := later\<rparr>)) (filter (\<lambda>k. kf_is_change k \<noteq> 0) (u_killfish u1))"
    "u2 = u1\<lparr>u_op_time := later, u_coin := b, u_backup_coin := b, u_killfish := map (\<lambda>k. k\<lparr>kf_is_change := 0\<rparr>) (u_killfish u1)\<rparr>"
    using save_sends [OF 1(2) assms(2) f1 assms(5) _ refl, of b "[]"] save_coin_same [of "u1\<lparr>u_op_time := later\<rparr>"] assms(6) ib
    by (fastforce simp: 1(3))
  have t: "op_time_sql (u1\<lparr>u_op_time := later\<rparr>) = op_time_sql u2" "task_sql (u1\<lparr>u_op_time := later\<rparr>) = task_sql u2"
    by (auto simp: 2(3) op_time_sql_def task_sql_def fun_eq_iff)
  have k: "filter (\<lambda>k. kf_is_change k \<noteq> 0) (u_killfish u1) = []" "u_task u1 = u_task u0" "u_coin u1 = b" "u_backup_coin u1 = b"
    by (simp_all add: 1(3) filter_empty_conv)
  have s1: "sent m1 = sent m @ [op_time_sql u1, balance_sql u1, set_balance_sql b u1, coin_log_sql win b u1] @
      map (task_sql u1) (filter (\<lambda>t. ut_is_new t \<noteq> 0) (u_task u0)) @
      map (kill_sql u1) (filter (\<lambda>k. kf_is_change k \<noteq> 0) (u_killfish u0))"
    unfolding q using 1(4) by simp
  have s2: "sent m2 = sent m1 @ op_time_sql u2 # map (task_sql u2) (filter (\<lambda>t. ut_is_new t \<noteq> 0) (u_task u0))"
    using 2(2) unfolding t k by simp
  show ?thesis by (rule exI [of _ u1], rule exI [of _ m1], rule exI [of _ u2], rule exI [of _ m2]) (intro conjI 1(1) 2(1) k s1 s2)
qed

section \<open>Properties\<close>

definition sample_user :: User where
  "sample_user = \<lparr>u_task = [\<lparr>ut_id = 0, ut_task_id = 5, ut_group_id = 1, ut_mutex_id = 0, ut_status = 1, ut_is_new = 1\<rparr>],
     u_killfish = [\<lparr>kf_id = 9, kf_no = 4, kf_value = 2, kf_is_change = 0\<rparr>], u_id = 7, u_group_id = 1, u_coin = 30, u_backup_coin = 20,
     u_name = None, u_level_exp = 0, u_vip_exp = 0, u_task_total = 1, u_killfish_total = 2, u_op_time = 1500000000,
     u_privilege = \<lparr>view = False, kick = False, exit = False\<rparr>\<rparr>"

text \<open>
  Over any sequence of kills each fish number's counter rises by exactly the number of
  kills of it, and \<open>checkKillFish\<close> for a fish number compares that count; the total over all
  fish (number 0) does not move with the kills of the session.
\<close>

theorem killFish_counts:
  assumes "distinct (map kf_no (u_killfish u))"
    and "\<And>n. 0 \<le> kill_value n (u_killfish u) \<and> kill_value n (u_killfish u) + int (length nos) \<le> 2147483647"
    and "n \<noteq> 0" "0 < need"
  shows "distinct (map kf_no (u_killfish (fold killFish nos u))) \<and>
    (checkKillFish n need (fold killFish nos u) \<longleftrightarrow> need \<le> kill_value n (u_killfish u) + int (count_list nos n)) \<and>
    checkKillFish 0 need (fold killFish nos u) = checkKillFish 0 need u"
  using kills_counted [OF assms(1,2)] assms(3,4) by (simp add: checkKillFish_def kill_reached_value)

lemma killFish_counts_witness:
  "checkKillFish 4 4 (fold killFish [4, 8, 4] sample_user) \<and> \<not> checkKillFish 8 2 (fold killFish [4, 8, 4] sample_user)"
  using killFish_counts [of sample_user "[4, 8, 4]" 4 4] killFish_counts [of sample_user "[4, 8, 4]" 8 2]
  by (simp add: sample_user_def)

text \<open>
  C30: saving a user whose coins changed adds the difference earned since the last save to the
  balance that \<open>getItemToInt\<close> answers. That balance is read from the row's memory after
  \<open>mysql_free_result\<close> has freed it: \<open>bs\<close> is the text found there, the balance of the account only
  while nothing has written over it; where the read faults, so does the save. The statements sent
  are the operation time, the query of the balance, the new balance and its log, the new tasks and
  the changed counters, and memory and database agree afterwards on that sum. A second save sends
  no coin statement and no counter again, but inserts every new task once more.
\<close>

theorem save_settles:
  assumes "quiet m" "writes_quietly lib" "user_fits u0" "in_i32 now" "in_i32 later" "u_id u0 \<noteq> 0"
    and "u_coin u0 \<noteq> u_backup_coin u0"
    and "sql_exec lib (balance_sql u0) (snd (sql_exec lib (op_time_sql (u0\<lparr>u_op_time := now\<rparr>)) (conn m))) = (Rows (r0 # rs), d)"
  shows "case freed_row lib r0 of Inl e \<Rightarrow> save lib now u0 m = Inl e
    | Inr row \<Rightarrow> \<forall>bs r win b. row = Some bs # r \<and> win = i32 (u_coin u0 - u_backup_coin u0) \<and> b = i32 (atoi bs + win) \<longrightarrow>
    (\<exists>u1 m1 u2 m2. save lib now u0 m = Inr (u1, m1) \<and> u_coin u1 = b \<and> u_backup_coin u1 = b \<and>
    sent m1 = sent m @ [op_time_sql u1, balance_sql u1, set_balance_sql b u1, coin_log_sql win b u1] @
      map (task_sql u1) (filter (\<lambda>t. ut_is_new t \<noteq> 0) (u_task u0)) @
      map (kill_sql u1) (filter (\<lambda>k. kf_is_change k \<noteq> 0) (u_killfish u0)) \<and>
    save lib later u1 m1 = Inr (u2, m2) \<and>
    sent m2 = sent m1 @ op_time_sql u2 # map (task_sql u2) (filter (\<lambda>t. ut_is_new t \<noteq> 0) (u_task u0)))"
proof (cases "freed_row lib r0")
  case (Inl e)
  let ?u = "u0\<lparr>u_op_time := now\<rparr>"
  have f: "user_fits ?u" using assms(3,4) by (simp add: user_fits_def)
  have bal: "balance_sql ?u = balance_sql u0" by (simp add: balance_sql_def)
  obtain m1 where m1: "send_sql lib (op_time_sql ?u) m = Inr m1" "quiet m1" "conn m1 = snd (sql_exec lib (op_time_sql ?u) (conn m))"
    using send_sql_ok [OF assms(1,2)] op_time_sql_fits [OF f] by blast
  have "save_coin lib ?u m1 = Inl e"
    by (rule save_coin_faults [OF m1(2) f _ _ Inl, where rs = rs and d = d]) (use assms(7,8) in \<open>simp_all add: bal m1(3)\<close>)
  then show ?thesis using m1(1) assms(6) by (simp add: Inl save_def Let_def)
next
  case (Inr row)
  show ?thesis unfolding Inr sum.case using save_twice [OF assms(1-8)] Inr by blast
qed

text \<open>
  A database whose balances are all 100, logging nothing, with what reading the freed row gives:
  the row still, another text that has been written over it, or a fault.
\<close>

definition hundred_lib :: "(row \<Rightarrow> row res) \<Rightarrow> unit mysql_lib" where
  "hundred_lib f = \<lparr>sql_exec = (\<lambda>sql d. (if take 6 sql = ''SELECT'' then Rows [[Some ''100'']] else NoResult, d)), freed_row = f\<rparr>"

lemma hundred_lib_quiet: "writes_quietly (hundred_lib f)"
  by (simp add: writes_quietly_def hundred_lib_def)

lemma save_settles_witness:
  "(\<exists>u1 m1. save (hundred_lib Inr) 1600000000 sample_user (mysql_new () 0) = Inr (u1, m1) \<and> u_coin u1 = 110 \<and> u_backup_coin u1 = 110) \<and>
   (\<exists>u1 m1. save (hundred_lib (\<lambda>_. Inr [Some ''7''])) 1600000000 sample_user (mysql_new () 0) = Inr (u1, m1) \<and> u_coin u1 = 17 \<and> u_backup_coin u1 = 17) \<and>
   save (hundred_lib (\<lambda>_. Inl UseAfterFree)) 1600000000 sample_user (mysql_new () 0) = Inl UseAfterFree"
proof -
  have h: "quiet (mysql_new () 0)" "user_fits sample_user" "in_i32 1600000000" "in_i32 1600000300" "u_id sample_user \<noteq> 0" "u_coin sample_user \<noteq> u_backup_coin sample_user"
    by (simp_all add: mysql_new_def quiet_def user_fits_def in_i32_def sample_user_def)
  have q: "sql_exec (hundred_lib f) (balance_sql sample_user)
     (snd (sql_exec (hundred_lib f) (op_time_sql (sample_user\<lparr>u_op_time := 1600000000\<rparr>)) (conn (mysql_new () 0)))) = (Rows [[Some ''100'']], ())" for f
    by (simp add: hundred_lib_def balance_sql_def)
  note s = save_settles [OF h(1) hundred_lib_quiet h(2-6) q]
  have n: "i32 (atoi ''100'' + i32 (u_coin sample_user - u_backup_coin sample_user)) = 110"
    "i32 (atoi ''7'' + i32 (u_coin sample_user - u_backup_coin sample_user)) = 17"
    by (simp_all add: sample_user_def i32_def atoi_def is_space_def digit_def digit_val_def saturate_def)
  have f: "freed_row (hundred_lib f) r = f r" for f r by (simp add: hundred_lib_def)
  have t: "\<forall>bs r win b. row = Some bs # r \<and> win = i32 w \<and> b = i32 (atoi bs + win) \<longrightarrow> P win b \<Longrightarrow>
      row = [Some bs] \<Longrightarrow> i32 (atoi bs + i32 w) = c \<Longrightarrow> P (i32 w) c" for row w P bs c by blast
  have "\<exists>u1 m1. save (hundred_lib Inr) 1600000000 sample_user (mysql_new () 0) = Inr (u1, m1) \<and> u_coin u1 = 110 \<and> u_backup_coin u1 = 110"
    using t [OF s [of Inr, unfolded f sum.case] refl n(1)] by blast
  moreover have "\<exists>u1 m1. save (hundred_lib (\<lambda>_. Inr [Some ''7''])) 1600000000 sample_user (mysql_new () 0) = Inr (u1, m1) \<and> u_coin u1 = 17 \<and> u_backup_coin u1 = 17"
    using t [OF s [of "\<lambda>_. Inr [Some ''7'']", unfolded f sum.case] refl n(2)] by blast
  moreover have "save (hundred_lib (\<lambda>_. Inl UseAfterFree)) 1600000000 sample_user (mysql_new () 0) = Inl UseAfterFree"
    using s [of "\<lambda>_. Inl UseAfterFree"] unfolding f by simp
  ultimately show ?thesis by blast
qed

text \<open>
  Freeing a user with at most one task ends and frees it; with two tasks or more the loop
  reads the \<open>next\<close> field of the first node after that node has been freed.
\<close>

theorem destory_reads_freed_task:
  "destory u = (if length (u_task u) \<le> 1 then Inr (u\<lparr>u_task := [], u_killfish := []\<rparr>) else Inl UseAfterFree)"
proof (cases "u_task u")
  case (Cons t ts)
  then show ?thesis by (cases ts) (simp_all add: destory_def)
qed (simp add: destory_def)

text \<open>
  The privilege to change settings and to stop the server is given to the group -1 only,
  and a user no row is found for gets no privilege at all, whatever the database answers.
\<close>

theorem load_exit_privilege:
  assumes "load lib now u m = Inr (i, u', m')"
  shows "(exit (u_privilege u') \<longrightarrow> u_group_id u' = -1) \<and> (i = 0 \<and> u_id u \<noteq> 0 \<longrightarrow> \<not> view (u_privilege u') \<and> \<not> kick (u_privilege u')) \<and>
    u_backup_coin u' = u_coin u' \<and> u_id u' = u_id u"
proof -
  have p: "exit p \<longrightarrow> gid = -1" if "load_privilege lib gid m1 = Inr (p, m2)" for gid m1 p m2
    using that by (auto simp: load_privilege_def rbind_eq_Inr split: if_splits)
  have l: "u_group_id u2 = u_group_id u1 \<and> u_privilege u2 = u_privilege u1 \<and> u_id u2 = u_id u1" if "load_lists lib u1 m1 = Inr (u2, m2)" for u1 u2 m1 m2
    using that by (auto simp: load_lists_def rbind_eq_Inr)
  show ?thesis using assms
    by (auto simp: load_def Let_def user_blank_def rbind_eq_Inr dest!: p l split: option.splits if_splits)
qed

text \<open>A database in which every user is in group -1.\<close>

definition admin_lib :: "unit mysql_lib" where
  "admin_lib = \<lparr>sql_exec = (\<lambda>sql d. (if take 6 sql = ''SELECT'' then
     Rows [[Some ''7'', Some ''-1'', Some ''root'', Some [], Some ''3'', Some ''4'']] else NoResult, d)), freed_row = Inr\<rparr>"

lemma load_exit_privilege_witness:
  "\<exists>i u' m'. load admin_lib 5 sample_user (mysql_new () 0) = Inr (i, u', m') \<and> exit (u_privilege u') \<and> u_group_id u' = -1"
proof -
  have "case load admin_lib 5 sample_user (mysql_new () 0) of Inl _ \<Rightarrow> False | Inr (i, u', m') \<Rightarrow> exit (u_privilege u')"
    by code_simp
  then obtain i u' m' where "load admin_lib 5 sample_user (mysql_new () 0) = Inr (i, u', m')" "exit (u_privilege u')"
    by (auto split: sum.splits)
  then show ?thesis using load_exit_privilege by blast
qed

end
