(* ===== verification/Tasks.thy ===== *)
theory Tasks
  imports Users
begin

text \<open>
  The tasks a player can complete (\<open>src/source/task.hpp\<close>): loading tasks, their conditions and
  the articles from the database, and \<open>complete\<close> with its loop over all tasks. Linked lists
  are lists in list order; the pointer \<open>user_task\<close> of \<open>complete\<close> is a position in the user's
  list of tasks, \<open>None\<close> once it is NULL.
\<close>

record S_TaskCondition =
  c_param :: int
  c_param2 :: int
  c_type :: int

record S_Task =
  t_id :: int
  t_pre_id :: int
  t_group_id :: int
  t_mutex_id :: int
  t_priority :: int
  t_auto_give :: int
  t_auto_use :: int
  t_reapt :: int
  t_start_time :: int
  t_end_time :: int
  t_article_ids :: "int list"
  t_condition :: "S_TaskCondition list"

record S_Article =
  a_id :: int
  a_param :: int
  a_type :: int

record Task =
  tasks :: "S_Task list"
  articles :: "S_Article list"

section \<open>Look-ups\<close>

definition getTasks :: "Task \<Rightarrow> S_Task list" where
  "getTasks w = tasks w"

fun find_task :: "int \<Rightarrow> S_Task list \<Rightarrow> S_Task option" where
  "find_task i [] = None"
| "find_task i (t # ts) = (if t_id t = i then Some t else find_task i ts)"

definition hasMutex :: "int \<Rightarrow> int \<Rightarrow> Task \<Rightarrow> bool" where
  "hasMutex i mutex w = (case find_task i (tasks w) of None \<Rightarrow> False | Some t \<Rightarrow> t_mutex_id t = mutex)"

fun all_conditions :: "User \<Rightarrow> S_TaskCondition list \<Rightarrow> bool" where
  "all_conditions u [] = True"
| "all_conditions u (c # cs) =
     ((if c_type c = 2 then checkKillFish (c_param2 c) (c_param c) u
       else if c_type c = 3 then checkTask (c_param2 c) (c_param c) u
       else False) \<and> all_conditions u cs)"

definition conditionIsTrue :: "int \<Rightarrow> int \<Rightarrow> int \<Rightarrow> User \<Rightarrow> S_Task \<Rightarrow> bool" where
  "conditionIsTrue param param2 type' u t =
     (if list_ex (\<lambda>c. c_type c = type') (t_condition t) then all_conditions u (t_condition t) else False)"

section \<open>Completing tasks\<close>

definition giveArticle :: "S_Article \<Rightarrow> User \<Rightarrow> User" where
  "giveArticle a u =
     (if a_type a = 1 then u\<lparr>u_coin := i32 (u_coin u + a_param a)\<rparr>
      else if a_type a = 2 then u\<lparr>u_level_exp := i32 (u_level_exp u + a_param a)\<rparr>
      else if a_type a = 3 then u\<lparr>u_vip_exp := i32 (u_vip_exp u + a_param a)\<rparr>
      else u)"

text \<open>
  The loop over the conditions of a task: the answer of \<open>conditionIsTrue\<close> it starts from is
  overwritten by the first condition.
\<close>

fun match_conditions :: "int \<Rightarrow> int \<Rightarrow> int \<Rightarrow> bool \<Rightarrow> S_TaskCondition list \<Rightarrow> bool" where
  "match_conditions param param2 type' completed [] = completed"
| "match_conditions param param2 type' completed (c # cs) =
     (if param \<ge> c_param c \<and> param2 = c_param2 c \<and> type' = c_type c
      then match_conditions param param2 type' True cs else False)"

text \<open>
  The search for a task already completed, from position \<open>p\<close> of the user's list on: whether
  the task may be completed, and where the pointer stops.
\<close>

fun scan_done :: "nat \<Rightarrow> S_Task \<Rightarrow> S_UserTask list \<Rightarrow> nat option \<Rightarrow> (bool \<times> nat option) res" where
  "scan_done n t us None = Inr (True, None)"
| "scan_done 0 t us (Some p) = Inl Hang"
| "scan_done (Suc n) t us (Some p) = rbind (rd_arr us p) (\<lambda>ut.
     if ut_task_id ut = t_id t then Inr (False, Some p)
     else if t_mutex_id t > 0 \<and> ut_mutex_id ut = t_mutex_id t then Inr (False, Some p)
     else scan_done n t us (if Suc p < length us then Some (Suc p) else None))"

fun find_article :: "int \<Rightarrow> S_Article list \<Rightarrow> S_Article option" where
  "find_article i [] = None"
| "find_article i (a # as) = (if a_id a = i then Some a else find_article i as)"

definition new_user_task :: "S_Task \<Rightarrow> S_UserTask" where
  "new_user_task t = \<lparr>ut_id = 0, ut_task_id = t_id t, ut_group_id = t_group_id t, ut_mutex_id = t_mutex_id t,
     ut_status = t_auto_give t, ut_is_new = 1\<rparr>"

text \<open>Give the articles of a task, up to the first identifier 0; each one adds a completed task.\<close>

fun give_articles :: "S_Task \<Rightarrow> S_Article list \<Rightarrow> int list \<Rightarrow> User \<Rightarrow> User" where
  "give_articles t as [] u = u"
| "give_articles t as (i # is) u =
     (if i = 0 then u
      else give_articles t as is (case find_article i as of None \<Rightarrow> u
             | Some a \<Rightarrow> addTask (new_user_task t) (giveArticle a u)))"

text \<open>
  The loop over the tasks. A task outside its time goes on without \<open>task = task->next\<close>: the
  loop never ends.
\<close>

fun complete_loop :: "int \<Rightarrow> int \<Rightarrow> int \<Rightarrow> int \<Rightarrow> S_Article list \<Rightarrow> S_Task list \<Rightarrow> nat option \<Rightarrow> User \<Rightarrow> User res" where
  "complete_loop time param param2 type' as [] p u = Inr u"
| "complete_loop time param param2 type' as (t # ts) p u =
     (if t_start_time t > time \<or> t_end_time t < time then Inl Hang
      else if match_conditions param param2 type' (conditionIsTrue param param2 type' u t) (t_condition t) then
        rbind (if t_reapt t = 0 then scan_done (length (u_task u)) t (u_task u) p else Inr (True, p)) (\<lambda>(ok, p').
          complete_loop time param param2 type' as ts p'
            (if ok then give_articles t as (t_article_ids t) u else u))
      else complete_loop time param param2 type' as ts p u)"

definition complete :: "int \<Rightarrow> int \<Rightarrow> int \<Rightarrow> int \<Rightarrow> Task \<Rightarrow> User \<Rightarrow> (bool \<times> User) res" where
  "complete time param param2 type' w u =
     rbind (complete_loop time param param2 type' (articles w) (tasks w) (if u_task u = [] then None else Some 0) u)
       (\<lambda>u'. Inr (True, u'))"

section \<open>Loading\<close>

text \<open>
  The reading of \<open>article_ids\<close> from position \<open>m\<close>: \<open>n\<close> is the number read so far, \<open>x\<close> the next
  slot of the array of ten. Other characters are skipped.
\<close>

function article_loop :: "string \<Rightarrow> nat \<Rightarrow> int \<Rightarrow> nat \<Rightarrow> int list \<Rightarrow> int list res" where
  "article_loop s m n x ids = rbind (rd s m) (\<lambda>c.
     let n' = digit_step c n
     in if c = CHR '','' \<or> c = NUL then
          rbind (wr_arr ids x n') (\<lambda>ids'.
            if c = NUL then Inr (take (Suc x) ids' @ replicate (10 - Suc x) 0)
            else article_loop s (Suc m) 0 (Suc x) ids')
        else article_loop s (Suc m) n' x ids)"
  by pat_completeness auto
termination
  by (relation "measure (\<lambda>(s, m, n, x, ids). Suc (length s) - m)") (auto dest!: rd_Inr_le rd_Inr_le [OF sym])

declare article_loop.simps [simp del]

definition article_ids :: "int list \<Rightarrow> string \<Rightarrow> int list res" where
  "article_ids junk s = article_loop s 0 0 0 junk"

definition condition_of_row :: "row \<Rightarrow> S_TaskCondition res" where
  "condition_of_row r = rbind (column_int r 0) (\<lambda>p. rbind (column_int r 1) (\<lambda>q. rbind (column_int r 2) (\<lambda>t.
     Inr \<lparr>c_param = p, c_param2 = q, c_type = t\<rparr>)))"

fun conditions_of_rows :: "row list \<Rightarrow> S_TaskCondition list res" where
  "conditions_of_rows [] = Inr []"
| "conditions_of_rows (r # rs) = rbind (condition_of_row r) (\<lambda>c. rbind (conditions_of_rows rs) (\<lambda>cs. Inr (c # cs)))"

definition task_row :: "int list \<Rightarrow> row \<Rightarrow> int \<Rightarrow> int \<Rightarrow> S_Task res" where
  "task_row junk r start_time end_time =
     rbind (column_int r 0) (\<lambda>i. rbind (column_int r 1) (\<lambda>pre. rbind (column_int r 2) (\<lambda>g. rbind (column_int r 3) (\<lambda>x.
     rbind (column_int r 4) (\<lambda>pr. rbind (column_int r 5) (\<lambda>ag. rbind (column_int r 6) (\<lambda>au. rbind (column_int r 7) (\<lambda>re.
     rbind (column r 10) (\<lambda>at. rbind (article_ids junk at) (\<lambda>ids.
       Inr \<lparr>t_id = i, t_pre_id = pre, t_group_id = g, t_mutex_id = x, t_priority = pr, t_auto_give = ag, t_auto_use = au,
            t_reapt = re, t_start_time = start_time, t_end_time = end_time, t_article_ids = ids, t_condition = []\<rparr>))))))))))"

text \<open>
  One row of the tasks: skipped when it has not started or has ended, when its conditions
  cannot be read or when it has none.
\<close>

definition load_task :: "'d mysql_lib \<Rightarrow> int \<Rightarrow> int list \<Rightarrow> row \<Rightarrow> 'd Mysql \<Rightarrow> (S_Task option \<times> 'd Mysql) res" where
  "load_task lib time junk r m =
     rbind (column_int r 8) (\<lambda>start_time. rbind (column_int r 9) (\<lambda>end_time.
       if start_time > 0 \<and> start_time > time then Inr (None, m)
       else if end_time > 0 \<and> end_time < time then Inr (None, m)
       else rbind (task_row junk r start_time end_time) (\<lambda>t. rbind (column r 0) (\<lambda>idc.
         rbind (sprintf_buf 100 (''SELECT param,param2,type FROM task_conditions WHERE task_id='' @ idc)) (\<lambda>sql.
           case mysql_real_query lib sql m of (err, m1) \<Rightarrow>
             if err then Inr (None, m1)
             else case mysql_store_result m1 of (res, m2) \<Rightarrow>
               (case res of None \<Rightarrow> Inr (None, m2)
                | Some rs \<Rightarrow> rbind (conditions_of_rows rs) (\<lambda>cs.
                    Inr (if cs = [] then None else Some (t\<lparr>t_condition := cs\<rparr>), m2))))))))"

fun load_tasks :: "'d mysql_lib \<Rightarrow> int \<Rightarrow> int list \<Rightarrow> row list \<Rightarrow> 'd Mysql \<Rightarrow> (S_Task list \<times> 'd Mysql) res" where
  "load_tasks lib time junk [] m = Inr ([], m)"
| "load_tasks lib time junk (r # rs) m =
     rbind (load_task lib time junk r m) (\<lambda>(t, m1). rbind (load_tasks lib time junk rs m1) (\<lambda>(ts, m2).
       Inr (case t of None \<Rightarrow> ts | Some t \<Rightarrow> t # ts, m2)))"

definition article_of_row :: "row \<Rightarrow> S_Article res" where
  "article_of_row r = rbind (column_int r 0) (\<lambda>i. rbind (column_int r 1) (\<lambda>p. rbind (column_int r 2) (\<lambda>t.
     Inr \<lparr>a_id = i, a_param = p, a_type = t\<rparr>)))"

fun articles_of_rows :: "row list \<Rightarrow> S_Article list res" where
  "articles_of_rows [] = Inr []"
| "articles_of_rows (r # rs) = rbind (article_of_row r) (\<lambda>a. rbind (articles_of_rows rs) (\<lambda>as. Inr (a # as)))"

text \<open>
  The articles: after a successful query the result is taken once into a variable of the inner
  block and then asked for a second time.
\<close>

definition load_articles :: "'d mysql_lib \<Rightarrow> 'd Mysql \<Rightarrow> (S_Article list \<times> 'd Mysql) res" where
  "load_articles lib m =
     (case mysql_real_query lib ''SELECT id,param,type FROM articles WHERE status=1'' m of (err, m1) \<Rightarrow>
        let m2 = (if err then m1 else snd (mysql_store_result m1))
        in case mysql_store_result m2 of (res, m3) \<Rightarrow>
             (case res of None \<Rightarrow> Inr ([], m3) | Some rs \<Rightarrow> rbind (articles_of_rows rs) (\<lambda>as. Inr (as, m3))))"

definition load_task_table :: "'d mysql_lib \<Rightarrow> int \<Rightarrow> int list \<Rightarrow> 'd Mysql \<Rightarrow> (Task \<times> 'd Mysql) res" where
  "load_task_table lib time junk m =
     (case mysql_real_query lib ''SELECT  id,pre_id,group_id,mutex_id,priority,auto_give,auto_use,reapt,start_time,end_time,article_ids FROM tasks WHERE status=1 ORDER BY priority DESC'' m of (err, m1) \<Rightarrow>
        if err then Inr (\<lparr>tasks = [], articles = []\<rparr>, m1)
        else case mysql_store_result m1 of (res, m2) \<Rightarrow>
          (case res of None \<Rightarrow> Inr (\<lparr>tasks = [], articles = []\<rparr>, m2)
           | Some rs \<Rightarrow> rbind (load_tasks lib time junk rs m2) (\<lambda>(ts, m3).
               rbind (load_articles lib m3) (\<lambda>(as, m4). Inr (\<lparr>tasks = ts, articles = as\<rparr>, m4)))))"

section \<open>Completing\<close>

lemma addTask_simps [simp]: "u_task (addTask t u) = u_task u @ [t]" "u_coin (addTask t u) = u_coin u"
  by (simp_all add: addTask_def)

lemma giveArticle_simps [simp]: "u_task (giveArticle a u) = u_task u"
  by (simp add: giveArticle_def)

lemma give_articles_tasks: "\<exists>new. u_task (give_articles t as is u) = u_task u @ new"
proof (induction "is" arbitrary: u)
  case (Cons i "is")
  show ?case
  proof (cases "find_article i as")
    case None
    then show ?thesis using Cons [of u] by simp
  next
    case (Some a)
    then show ?thesis using Cons [of "addTask (new_user_task t) (giveArticle a u)"] by auto
  qed
qed simp

text \<open>The pointer into the user's tasks stays inside the list.\<close>

definition inside :: "nat option \<Rightarrow> 'a list \<Rightarrow> bool" where
  "inside p xs = (case p of None \<Rightarrow> True | Some i \<Rightarrow> i < length xs)"

lemma inside_simps [simp]: "inside None xs" "inside (Some i) xs \<longleftrightarrow> i < length xs" "inside p xs \<Longrightarrow> inside p (xs @ ys)"
  by (auto simp: inside_def split: option.splits)

lemma scan_done_ok:
  "inside p us \<Longrightarrow> length us \<le> n + (case p of None \<Rightarrow> 0 | Some i \<Rightarrow> i) \<or> p = None \<Longrightarrow> \<exists>r p'. scan_done n t us p = Inr (r, p') \<and> inside p' us"
proof (induction n t us p rule: scan_done.induct)
  case (3 n t us p)
  show ?case
  proof (cases "Suc p < length us")
    case True
    then show ?thesis using 3 by auto
  next
    case False
    then show ?thesis using 3 by (cases n) auto
  qed
qed auto

definition in_time :: "int \<Rightarrow> S_Task \<Rightarrow> bool" where
  "in_time time t \<longleftrightarrow> t_start_time t \<le> time \<and> time \<le> t_end_time t"

lemma complete_loop_ends:
  "inside p (u_task u) \<Longrightarrow>
   (if \<forall>t \<in> set ts. in_time time t then \<exists>u'. complete_loop time param param2 type' as ts p u = Inr u'
    else complete_loop time param param2 type' as ts p u = Inl Hang)"
proof (induction ts arbitrary: p u)
  case (Cons t ts)
  show ?case
  proof (cases "in_time time t \<and> match_conditions param param2 type' (conditionIsTrue param param2 type' u t) (t_condition t)")
    case True
    obtain ok1 p1 where s: "scan_done (length (u_task u)) t (u_task u) p = Inr (ok1, p1)" "inside p1 (u_task u)"
      using scan_done_ok [OF Cons.prems, of "length (u_task u)" t] by auto
    obtain ok p' where r: "(if t_reapt t = 0 then scan_done (length (u_task u)) t (u_task u) p else Inr (True, p)) = Inr (ok, p')"
      "inside p' (u_task u)"
      by (cases "t_reapt t = 0") (use s Cons.prems in auto)
    define u1 where "u1 = (if ok then give_articles t as (t_article_ids t) u else u)"
    have i: "inside p' (u_task u1)"
      using r(2) give_articles_tasks [of t as "t_article_ids t" u] by (auto simp: u1_def)
    have "complete_loop time param param2 type' as (t # ts) p u = complete_loop time param param2 type' as ts p' u1"
      using True r(1) by (simp add: in_time_def u1_def)
    then show ?thesis using Cons.IH [OF i] True by simp
  next
    case False
    then show ?thesis using Cons.IH [OF Cons.prems] by (auto simp: in_time_def)
  qed
qed simp

section \<open>Reading the articles of a task\<close>

fun print_ids :: "int list \<Rightarrow> string" where
  "print_ids [] = []"
| "print_ids [i] = dec_int i"
| "print_ids (i # is) = dec_int i @ CHR '','' # print_ids is"

lemma article_digits:
  "list_all digit ds \<Longrightarrow> article_loop (pre @ ds @ rest) (length pre) n x ids =
   article_loop (pre @ ds @ rest) (length pre + length ds) (fold digit_step ds n) x ids"
proof (induction ds arbitrary: pre n)
  case (Cons d ds)
  have d: "digit d" "d \<noteq> CHR '',''" "d \<noteq> NUL" using Cons.prems by (auto simp: digit_def)
  have "article_loop (pre @ (d # ds) @ rest) (length pre) n x ids =
      article_loop (pre @ (d # ds) @ rest) (Suc (length pre)) (digit_step d n) x ids"
    using d by (subst article_loop.simps) (simp add: rd_append_hd)
  also have "\<dots> = article_loop ((pre @ [d]) @ ds @ rest) (length (pre @ [d])) (digit_step d n) x ids" by simp
  also have "\<dots> = article_loop ((pre @ [d]) @ ds @ rest) (length (pre @ [d]) + length ds) (fold digit_step ds (digit_step d n)) x ids"
    using Cons.prems by (intro Cons.IH) simp
  finally show ?case by simp
qed simp

lemma digits_of_id: "0 \<le> i \<Longrightarrow> list_all digit (dec_int i)"
  using dec_nat_digits by (simp add: dec_int_def)

lemma article_ids_read:
  "is \<noteq> [] \<Longrightarrow> \<forall>i \<in> set is. 0 \<le> i \<and> i < 2147483648 \<Longrightarrow> length ids = 10 \<Longrightarrow> x \<le> 10 \<Longrightarrow>
   article_loop (pre @ print_ids is) (length pre) 0 x ids =
     (if x + length is \<le> 10 then Inr (take x ids @ is @ replicate (10 - (x + length is)) 0) else Inl OutOfBounds)"
proof (induction "is" arbitrary: pre x ids rule: print_ids.induct)
  case (2 i)
  note dg = digits_of_id [of i] digit_step_dec [of i] 2
  have "article_loop (pre @ print_ids [i]) (length pre) 0 x ids = article_loop (pre @ dec_int i) (length (pre @ dec_int i)) i x ids"
    using article_digits [of "dec_int i" pre "[]" 0 x ids] dg by simp
  also have "\<dots> = (if x < 10 then Inr (take x ids @ [i] @ replicate (10 - Suc x) 0) else Inl OutOfBounds)"
    using 2 rd_end [of "pre @ dec_int i"] by (subst article_loop.simps) (auto simp: digit_step_def digit_def take_Suc_conv_app_nth)
  finally show ?case by simp
next
  case (3 i j js)
  note dg = digits_of_id [of i] digit_step_dec [of i] "3.prems"
  let ?pre = "pre @ dec_int i @ [CHR '','']"
  have "article_loop (pre @ print_ids (i # j # js)) (length pre) 0 x ids =
      article_loop (pre @ dec_int i @ CHR '','' # print_ids (j # js)) (length (pre @ dec_int i)) i x ids"
    using article_digits [of "dec_int i" pre "CHR '','' # print_ids (j # js)" 0 x ids] dg by simp
  also have "\<dots> = (if x < 10 then article_loop (?pre @ print_ids (j # js)) (length ?pre) 0 (Suc x) (ids[x := i]) else Inl OutOfBounds)"
    using "3.prems" rd_append_hd [of "pre @ dec_int i" "CHR '',''" "print_ids (j # js)"]
    by (subst article_loop.simps) (auto simp: digit_step_def digit_def)
  also have "\<dots> = (if x + length (i # j # js) \<le> 10 then Inr (take x ids @ (i # j # js) @ replicate (10 - (x + length (i # j # js))) 0) else Inl OutOfBounds)"
    using "3.IH" [of "ids[x := i]" "Suc x" ?pre] "3.prems" by (auto simp: take_Suc_conv_app_nth)
  finally show ?case .
qed simp

section \<open>Properties\<close>

text \<open>
  C31: \<open>complete\<close> ends exactly when every loaded task is inside its time: one task outside it
  makes the loop run for ever, also a task without an end, whose end time of 0 \<open>load\<close> takes
  as no limit.
\<close>

theorem complete_ends_iff:
  "(if \<forall>t \<in> set (tasks w). in_time time t then \<exists>u'. complete time param param2 type' w u = Inr (True, u')
    else complete time param param2 type' w u = Inl Hang) \<and>
   (t_end_time t = 0 \<and> time > 0 \<and> t \<in> set (tasks w) \<longrightarrow> complete time param param2 type' w u = Inl Hang)"
proof -
  have "inside (if u_task u = [] then None else Some 0) (u_task u)" by simp
  from complete_loop_ends [OF this, of "tasks w" time param param2 type' "articles w"]
  show ?thesis by (cases "\<forall>t \<in> set (tasks w). in_time time t") (auto simp: complete_def in_time_def)
qed

definition sample_task :: "int \<Rightarrow> S_Task" where
  "sample_task i = \<lparr>t_id = i, t_pre_id = 0, t_group_id = 0, t_mutex_id = 0, t_priority = 0, t_auto_give = 0, t_auto_use = 0,
     t_reapt = 0, t_start_time = 0, t_end_time = 0, t_article_ids = [1, 0], t_condition = [\<lparr>c_param = 1, c_param2 = 0, c_type = 2\<rparr>]\<rparr>"

lemma complete_ends_iff_witness:
  "complete 1500000000 1 0 2 \<lparr>tasks = [sample_task 5], articles = []\<rparr> sample_user = Inl Hang"
  using complete_ends_iff [of "\<lparr>tasks = [sample_task 5], articles = []\<rparr>" 1500000000 1 0 2 sample_user "sample_task 5"]
  by (simp add: sample_task_def)

text \<open>
  C32: the article list of a task, numbers joined by commas, is read back and padded with zeros
  when it has at most ten numbers; with more, the eleventh is written behind the array.
\<close>

theorem article_ids_roundtrip:
  assumes "is \<noteq> []" "\<forall>i \<in> set is. 0 \<le> i \<and> i < 2147483648" "length junk = 10"
  shows "article_ids junk (print_ids is) =
    (if length is \<le> 10 then Inr (is @ replicate (10 - length is) 0) else Inl OutOfBounds)"
  using article_ids_read [OF assms, of 0 "[]"] by (simp add: article_ids_def)

lemma article_ids_roundtrip_witness:
  "article_ids (replicate 10 7) (print_ids [3, 14]) = Inr [3, 14, 0, 0, 0, 0, 0, 0, 0, 0] \<and>
   article_ids (replicate 10 7) (print_ids [1, 2, 3, 4, 5, 6, 7, 8, 9, 10, 11]) = Inl OutOfBounds"
  using article_ids_roundtrip [of "[3, 14]" "replicate 10 7"]
    article_ids_roundtrip [of "[1, 2, 3, 4, 5, 6, 7, 8, 9, 10, 11]" "replicate 10 7"]
  by (simp add: eval_nat_numeral)

text \<open>
  The articles are never loaded: the result of the query is taken twice, and the second time
  there is none.
\<close>

lemma load_articles_empty: "pending m = None \<Longrightarrow> \<exists>m'. load_articles lib m = Inr ([], m') \<and> pending m' = None"
  by (auto simp: load_articles_def mysql_real_query_def mysql_store_result_def split: prod.splits answer.splits)

end
