(* ===== verification/Players.thy ===== *)
theory Players
  imports Format
begin

text \<open>
  The table of connected players (\<open>src/source/player.hpp\<close>, the record in
  \<open>src/header/common.h\<close>): an array of 1024 records, a socket of 0 marks a free one. A
  pointer to a player is the position in the array, except where the source passes a copy.
  A pointer to a user is an address, \<open>None\<close> is NULL. Closing a socket and starting a thread
  are entries of a log.
\<close>

abbreviation max_len :: nat where "max_len \<equiv> 1024"

record Player =
  p_socket :: int
  p_index :: int
  p_ip :: int
  p_uid :: int
  p_coin :: int
  p_room :: int
  p_seat :: int
  p_hack :: int
  p_in_time :: int
  p_game_time :: int
  p_op_time :: int
  p_kick :: int
  p_tmp :: "string option"
  p_user :: "nat option"
  p_save_uid :: int
  p_closeing :: int

datatype act = CloseSocket int | StartUserLeave nat | StartVerify nat

record Players =
  len :: int
  players :: "Player list"

definition no_player :: Player where
  "no_player = \<lparr>p_socket = 0, p_index = 0, p_ip = 0, p_uid = 0, p_coin = 0, p_room = 0, p_seat = 0, p_hack = 0, p_in_time = 0,
     p_game_time = 0, p_op_time = 0, p_kick = 0, p_tmp = None, p_user = None, p_save_uid = 0, p_closeing = 0\<rparr>"

section \<open>Operations\<close>

text \<open>\<open>init\<close> clears the array, not the length.\<close>

definition players_init :: "Players \<Rightarrow> Players" where
  "players_init ps = ps\<lparr>players := replicate max_len no_player\<rparr>"

definition players_start :: Players where
  "players_start = players_init \<lparr>len = 0, players = []\<rparr>"

text \<open>The first position from \<open>i\<close> on, before \<open>n\<close>, whose socket is \<open>sk\<close>.\<close>

function find_socket :: "Player list \<Rightarrow> int \<Rightarrow> nat \<Rightarrow> nat \<Rightarrow> nat option res" where
  "find_socket ps sk i n =
     (if i < n then rbind (rd_arr ps i) (\<lambda>p. if p_socket p = sk then Inr (Some i) else find_socket ps sk (Suc i) n)
      else Inr None)"
  by pat_completeness auto
termination
  by (relation "measure (\<lambda>(ps, sk, i, n). n - i)") auto

declare find_socket.simps [simp del]

text \<open>\<open>find\<close> looks at the first \<open>len\<close> records, -1 is not found.\<close>

definition players_find :: "int \<Rightarrow> Players \<Rightarrow> int res" where
  "players_find sk ps =
     rbind (find_socket (players ps) sk 0 (nat (len ps))) (\<lambda>r. Inr (case r of None \<Rightarrow> -1 | Some i \<Rightarrow> int i))"

definition put_player :: "nat \<Rightarrow> (Player \<Rightarrow> Player) \<Rightarrow> Players \<Rightarrow> Players" where
  "put_player i f ps = ps\<lparr>players := (players ps)[i := f (players ps ! i)]\<rparr>"

definition players_add :: "int \<Rightarrow> int \<Rightarrow> int \<Rightarrow> Players \<Rightarrow> (bool \<times> Players) res" where
  "players_add sk ip now ps =
     (if len ps = 1024 then Inr (False, ps)
      else rbind (find_socket (players ps) 0 0 max_len) (\<lambda>r. case r of
          None \<Rightarrow> Inr (False, ps)
        | Some i \<Rightarrow> Inr (True, (put_player i (\<lambda>p. p\<lparr>p_index := int i, p_socket := sk, p_ip := ip, p_in_time := now\<rparr>) ps)
            \<lparr>len := u32 (len ps + 1)\<rparr>)))"

text \<open>
  \<open>remove\<close> on the record the pointer leads to: the record afterwards, what is closed and
  started, and whether the length goes down. \<open>save_uid\<close> is set just before \<open>memset\<close> clears the
  whole record.
\<close>

definition remove_player :: "Player \<Rightarrow> Player \<times> act list \<times> bool" where
  "remove_player p =
     (if p_closeing p \<noteq> 0 \<or> p_socket p = 0 then (p, [], False)
      else let p1 = p\<lparr>p_closeing := 1\<rparr>;
             p2 = (if p_user p1 \<noteq> None then p1\<lparr>p_save_uid := p_uid p1\<rparr> else p1);
             p3 = no_player
           in (p3, CloseSocket (p_socket p2) # (case p_user p2 of None \<Rightarrow> [] | Some a \<Rightarrow> [StartUserLeave a]), True))"

definition players_remove :: "nat \<Rightarrow> Players \<Rightarrow> act list \<times> Players" where
  "players_remove i ps =
     (case remove_player (players ps ! i) of (p, acts, gone) \<Rightarrow>
        (acts, (put_player i (\<lambda>_. p) ps)\<lparr>len := (if gone then u32 (len ps - 1) else len ps)\<rparr>))"

text \<open>\<open>remove\<close> on a copy: the array keeps the record.\<close>

definition players_remove_copy :: "Player \<Rightarrow> Players \<Rightarrow> act list \<times> Players" where
  "players_remove_copy p ps =
     (case remove_player p of (p', acts, gone) \<Rightarrow> (acts, ps\<lparr>len := (if gone then u32 (len ps - 1) else len ps)\<rparr>))"

section \<open>The table is consistent\<close>

text \<open>
  The length counts the records in use; a record in use knows its position and is not being
  closed; a free one is blank, and no record names a user being saved.
\<close>

definition used :: "Player list \<Rightarrow> nat" where
  "used ps = length (filter (\<lambda>p. p_socket p \<noteq> 0) ps)"

definition player_ok :: "nat \<Rightarrow> Player \<Rightarrow> bool" where
  "player_ok i p \<longleftrightarrow> p_save_uid p = 0 \<and> p_closeing p = 0 \<and>
     (if p_socket p = 0 then p = no_player else p_index p = int i)"

definition players_ok :: "Players \<Rightarrow> bool" where
  "players_ok ps \<longleftrightarrow> length (players ps) = max_len \<and> len ps = int (used (players ps)) \<and>
     (\<forall>i < max_len. player_ok i (players ps ! i))"

lemma no_player_simps [simp]: "p_socket no_player = 0" "p_user no_player = None" "p_room no_player = 0" "p_seat no_player = 0"
  "p_save_uid no_player = 0" "p_closeing no_player = 0" "p_uid no_player = 0"
  by (simp_all add: no_player_def)

lemma put_player_simps [simp]: "len (put_player i f ps) = len ps" "length (players (put_player i f ps)) = length (players ps)"
  "i < length (players ps) \<Longrightarrow> players (put_player i f ps) ! j = (if i = j then f (players ps ! i) else players ps ! j)"
  by (simp_all add: put_player_def nth_list_update)

lemma players_start_ok: "players_ok players_start"
  by (simp add: players_ok_def players_start_def players_init_def used_def player_ok_def filter_empty_conv)

lemma used_le: "used ps \<le> length ps"
  by (simp add: used_def)

lemma used_update:
  assumes "i < length ps"
  shows "used (ps[i := p]) + (if p_socket (ps ! i) \<noteq> 0 then 1 else 0) = used ps + (if p_socket p \<noteq> 0 then 1 else 0)"
proof -
  have s: "ps = take i ps @ ps ! i # drop (Suc i) ps" using assms by (simp add: id_take_nth_drop [symmetric])
  have u: "ps[i := p] = take i ps @ p # drop (Suc i) ps" using assms by (simp add: upd_conv_take_nth_drop)
  have "used ps = used (take i ps) + (if p_socket (ps ! i) \<noteq> 0 then 1 else 0) + used (drop (Suc i) ps)"
    by (subst s) (simp add: used_def)
  then show ?thesis unfolding u by (simp add: used_def)
qed

lemma find_socket_spec:
  "n \<le> length ps \<Longrightarrow> i \<le> n \<Longrightarrow> \<exists>r. find_socket ps sk i n = Inr r \<and>
     (case r of None \<Rightarrow> \<forall>j. i \<le> j \<and> j < n \<longrightarrow> p_socket (ps ! j) \<noteq> sk
      | Some j \<Rightarrow> i \<le> j \<and> j < n \<and> p_socket (ps ! j) = sk \<and> (\<forall>k. i \<le> k \<and> k < j \<longrightarrow> p_socket (ps ! k) \<noteq> sk))"
proof (induction ps sk i n rule: find_socket.induct)
  case (1 ps sk i n)
  show ?case
  proof (cases "i < n \<and> p_socket (ps ! i) \<noteq> sk")
    case True
    then obtain r where r: "find_socket ps sk (Suc i) n = Inr r" and
      s: "case r of None \<Rightarrow> \<forall>j. Suc i \<le> j \<and> j < n \<longrightarrow> p_socket (ps ! j) \<noteq> sk
        | Some j \<Rightarrow> Suc i \<le> j \<and> j < n \<and> p_socket (ps ! j) = sk \<and> (\<forall>k. Suc i \<le> k \<and> k < j \<longrightarrow> p_socket (ps ! k) \<noteq> sk)"
      using 1 by auto
    have e: "find_socket ps sk i n = Inr r" using True r 1(2) by (subst find_socket.simps) simp
    show ?thesis
    proof (cases r)
      case None
      have "p_socket (ps ! j) \<noteq> sk" if "i \<le> j" "j < n" for j
        using s None True that by (cases "i = j") auto
      then show ?thesis using e None by auto
    next
      case (Some j)
      have "p_socket (ps ! k) \<noteq> sk" if "i \<le> k" "k < j" for k
        using s Some True that by (cases "i = k") auto
      then show ?thesis using e Some s by auto
    qed
  next
    case False
    then show ?thesis using 1(2,3) by (subst find_socket.simps) auto
  qed
qed

text \<open>
  Adding a player: refused exactly when 1024 records are in use; otherwise the first free
  record takes the connection and the table stays consistent.
\<close>

lemma players_add_spec:
  assumes "players_ok ps" "sk \<noteq> 0"
  shows "if used (players ps) = max_len then players_add sk ip now ps = Inr (False, ps)
    else \<exists>i ps'. players_add sk ip now ps = Inr (True, ps') \<and> players_ok ps' \<and> i < max_len \<and> p_socket (players ps ! i) = 0 \<and>
      players ps' = (players ps)[i := no_player\<lparr>p_index := int i, p_socket := sk, p_ip := ip, p_in_time := now\<rparr>]"
proof (cases "used (players ps) = max_len")
  case True
  then show ?thesis using assms by (simp add: players_add_def players_ok_def)
next
  case False
  have l: "length (players ps) = max_len" "len ps = int (used (players ps))" using assms(1) by (simp_all add: players_ok_def)
  have u: "used (players ps) < max_len" using False used_le [of "players ps"] l by simp
  obtain r where r: "find_socket (players ps) 0 0 max_len = Inr r" and
    s: "case r of None \<Rightarrow> \<forall>j. 0 \<le> j \<and> j < max_len \<longrightarrow> p_socket (players ps ! j) \<noteq> 0
      | Some j \<Rightarrow> 0 \<le> j \<and> j < max_len \<and> p_socket (players ps ! j) = 0 \<and> (\<forall>k. 0 \<le> k \<and> k < j \<longrightarrow> p_socket (players ps ! k) \<noteq> 0)"
    using find_socket_spec [of max_len "players ps" 0 0] l by auto
  have "r \<noteq> None"
  proof
    assume "r = None"
    then have "\<forall>j < max_len. p_socket (players ps ! j) \<noteq> 0" using s by simp
    then have "filter (\<lambda>p. p_socket p \<noteq> 0) (players ps) = players ps"
      using l(1) by (auto simp: filter_id_conv in_set_conv_nth)
    then show False using u l(1) by (simp add: used_def)
  qed
  then obtain i where i: "r = Some i" "i < max_len" "p_socket (players ps ! i) = 0" using s by auto
  have blank: "players ps ! i = no_player" using assms(1) i(2,3) by (auto simp: players_ok_def player_ok_def)
  let ?p = "no_player\<lparr>p_index := int i, p_socket := sk, p_ip := ip, p_in_time := now\<rparr>"
  let ?ps = "ps\<lparr>players := (players ps)[i := ?p], len := len ps + 1\<rparr>"
  have ul: "used ((players ps)[i := ?p]) = used (players ps) + 1"
    using used_update [of i "players ps" ?p] i l(1) assms(2) by simp
  have a: "players_add sk ip now ps = Inr (True, ?ps)"
    using u r i blank l by (simp add: players_add_def put_player_def u32_id)
  have "players_ok ?ps"
    using assms l ul i by (auto simp: players_ok_def player_ok_def nth_list_update)
  then show ?thesis using False a i l by auto
qed

lemma players_remove_spec:
  assumes "players_ok ps" "i < max_len"
  shows "\<exists>ps'. players_remove i ps =
      ((if p_socket (players ps ! i) = 0 then []
        else CloseSocket (p_socket (players ps ! i)) # (case p_user (players ps ! i) of None \<Rightarrow> [] | Some a \<Rightarrow> [StartUserLeave a])), ps') \<and>
    players_ok ps' \<and> players ps' = (players ps)[i := no_player]"
proof -
  have l: "length (players ps) = max_len" "len ps = int (used (players ps))" using assms(1) by (simp_all add: players_ok_def)
  have ok: "player_ok i (players ps ! i)" using assms by (simp add: players_ok_def)
  show ?thesis
  proof (cases "p_socket (players ps ! i) = 0")
    case True
    then have "players ps ! i = no_player" using ok by (simp add: player_ok_def)
    then have b: "(players ps)[i := no_player] = players ps" using l(1) by (metis list_update_id)
    then show ?thesis using True assms ok
      by (auto simp: players_remove_def remove_player_def put_player_def)
  next
    case False
    let ?ps = "ps\<lparr>players := (players ps)[i := no_player], len := len ps - 1\<rparr>"
    have u: "used ((players ps)[i := no_player]) + 1 = used (players ps)"
      using used_update [of i "players ps" no_player] assms(2) l(1) False by simp
    then have n: "0 < used (players ps)" by simp
    have "len ps - 1 = int (used ((players ps)[i := no_player]))" using u l(2) by simp
    then have k: "players_ok ?ps"
      using assms l by (auto simp: players_ok_def player_ok_def nth_list_update)
    have "u32 (len ps - 1) = len ps - 1"
      using n l used_le [of "players ps"] by (intro u32_id) auto
    then show ?thesis using k False ok assms(2) l
      by (auto simp: players_remove_def remove_player_def put_player_def player_ok_def Let_def)
  qed
qed

text \<open>A player on a position the others leave free is not found: \<open>find\<close> stops at \<open>len\<close>.\<close>

lemma find_stops_at_len:
  assumes "players_ok ps" "players ps ! i = p" "i < max_len" "used (players ps) \<le> i" "p_socket p \<noteq> 0"
    and "\<forall>j < used (players ps). p_socket (players ps ! j) \<noteq> p_socket p"
  shows "players_find (p_socket p) ps = Inr (-1)"
proof -
  have l: "length (players ps) = max_len" "nat (len ps) = used (players ps)" using assms(1) by (simp_all add: players_ok_def)
  obtain r where r: "find_socket (players ps) (p_socket p) 0 (used (players ps)) = Inr r" and
    s: "case r of None \<Rightarrow> \<forall>j. 0 \<le> j \<and> j < used (players ps) \<longrightarrow> p_socket (players ps ! j) \<noteq> p_socket p
      | Some j \<Rightarrow> 0 \<le> j \<and> j < used (players ps) \<and> p_socket (players ps ! j) = p_socket p \<and>
          (\<forall>k. 0 \<le> k \<and> k < j \<longrightarrow> p_socket (players ps ! k) \<noteq> p_socket p)"
    using find_socket_spec [of "used (players ps)" "players ps" 0 "p_socket p"] used_le [of "players ps"] by auto
  have "r = None" using s assms(6) by (cases r) auto
  then show ?thesis using r l by (simp add: players_find_def)
qed

text \<open>Changing a connected player that stays connected.\<close>

lemma players_ok_put:
  assumes "players_ok ps" "i < max_len" "p_socket (players ps ! i) \<noteq> 0"
    and "p_socket p = p_socket (players ps ! i)" "p_index p = p_index (players ps ! i)" "p_save_uid p = 0" "p_closeing p = 0"
    and "f (players ps ! i) = p"
  shows "players_ok (put_player i f ps)"
proof -
  have l: "length (players ps) = max_len" using assms(1) by (simp add: players_ok_def)
  have "used ((players ps)[i := p]) = used (players ps)"
    using used_update [of i "players ps" p] assms(2-4) l by simp
  moreover have "player_ok j ((players ps)[i := p] ! j)" if "j < max_len" for j
  proof (cases "j = i")
    case True
    have "player_ok i (players ps ! i)" using assms(1,2) by (simp add: players_ok_def)
    then show ?thesis using True assms(2-7) l by (simp add: player_ok_def)
  next
    case False
    then show ?thesis using assms(1) that by (simp add: players_ok_def)
  qed
  ultimately show ?thesis using assms(1,8) l by (simp add: players_ok_def put_player_def)
qed

lemma players_ok_at: "players_ok ps \<Longrightarrow> i < max_len \<Longrightarrow> player_ok i (players ps ! i)"
  by (simp add: players_ok_def)

end
