(* ===== verification/Rooms.thy ===== *)
theory Rooms
  imports Players Fishs Bullets
begin

text \<open>
  The rooms (\<open>src/source/room.hpp\<close>): four seats each, the fish and bullets while somebody is
  in the room, and the search for a seat. A seat holds the position of its player in the
  table of players. \<open>clear\<close> walks the lists, \<open>n\<close> bounds its steps.
\<close>

record 'f Room =
  r_fishs :: "Fishs option"
  r_bullets :: "'f Bullets option"
  r_players :: "nat option list"
  r_create_time :: int

record 'f Rooms =
  rooms :: "'f Room list"
  max_room :: int
  curr :: int

definition empty_room :: "'f Room" where
  "empty_room = \<lparr>r_fishs = None, r_bullets = None, r_players = [None, None, None, None], r_create_time = 0\<rparr>"

section \<open>Operations\<close>

definition setRooms :: "int \<Rightarrow> 'f Rooms \<Rightarrow> bool \<times> 'f Rooms" where
  "setRooms n w = (True, w\<lparr>max_room := n, rooms := replicate (nat n) empty_room\<rparr>)"

definition rooms_start :: "int \<Rightarrow> 'f Rooms" where
  "rooms_start n = snd (setRooms n \<lparr>rooms = [], max_room = 0, curr = 0\<rparr>)"

definition room_at :: "'f Rooms \<Rightarrow> int \<Rightarrow> 'f Room res" where
  "room_at w i = (if i < 0 then Inl OutOfBounds else rd_arr (rooms w) (nat i))"

definition put_room :: "int \<Rightarrow> 'f Room \<Rightarrow> 'f Rooms \<Rightarrow> 'f Rooms" where
  "put_room i r w = w\<lparr>rooms := (rooms w)[nat i := r]\<rparr>"

definition getMaxRoom :: "'f Rooms \<Rightarrow> int" where
  "getMaxRoom w = max_room w"

fun free_seat :: "nat \<Rightarrow> nat option list \<Rightarrow> nat option" where
  "free_seat j [] = None"
| "free_seat j (p # ps) = (if p = None then Some j else free_seat (Suc j) ps)"

text \<open>
  One turn of the loops of \<open>findRoom\<close>: the room number is the loop's \<open>i\<close>, the room looked at is
  always the one at \<open>_curr\<close>. The fourth seat moves \<open>_curr\<close> on.
\<close>

definition try_room :: "int \<Rightarrow> 'f Rooms \<Rightarrow> (int \<times> int \<times> 'f Rooms) option res" where
  "try_room i w = rbind (room_at w (curr w)) (\<lambda>r.
     case free_seat 0 (r_players r) of
       None \<Rightarrow> Inr None
     | Some j \<Rightarrow> Inr (Some (i + 1, int j + 1, w\<lparr>curr := (if j = 3 then curr w + 1 else curr w)\<rparr>)))"

fun find_up :: "nat \<Rightarrow> int \<Rightarrow> 'f Rooms \<Rightarrow> (int \<times> int \<times> 'f Rooms) option res" where
  "find_up 0 i w = Inr None"
| "find_up (Suc n) i w = rbind (try_room i w) (\<lambda>r. case r of Some x \<Rightarrow> Inr (Some x) | None \<Rightarrow> find_up n (i + 1) w)"

fun find_down :: "nat \<Rightarrow> int \<Rightarrow> 'f Rooms \<Rightarrow> (int \<times> int \<times> 'f Rooms) option res" where
  "find_down 0 i w = Inr None"
| "find_down (Suc n) i w = rbind (try_room i w) (\<lambda>r. case r of Some x \<Rightarrow> Inr (Some x) | None \<Rightarrow> find_down n (i - 1) w)"

definition findRoom :: "'f Rooms \<Rightarrow> (int \<times> int \<times> 'f Rooms) res" where
  "findRoom w =
     rbind (find_up (nat (max_room w - curr w)) (curr w) w) (\<lambda>r.
       case r of Some x \<Rightarrow> Inr x
       | None \<Rightarrow> rbind (find_down (nat (curr w + 1)) (curr w) w) (\<lambda>r.
           case r of Some x \<Rightarrow> Inr x | None \<Rightarrow> Inr (0, 0, w)))"

definition room_empty :: "'f Room \<Rightarrow> bool" where
  "room_empty r = list_all (\<lambda>p. p = None) (r_players r)"

definition room_clear :: "nat \<Rightarrow> 'f Room \<Rightarrow> 'f Room res" where
  "room_clear n r =
     rbind (case r_fishs r of None \<Rightarrow> Inr () | Some l \<Rightarrow> rbind (fishs_clear n l) (\<lambda>_. Inr ())) (\<lambda>_.
     rbind (case r_bullets r of None \<Rightarrow> Inr () | Some l \<Rightarrow> rbind (bullets_clear n l) (\<lambda>_. Inr ())) (\<lambda>_.
       Inr (r\<lparr>r_fishs := None, r_bullets := None\<rparr>)))"

definition rooms_leave :: "nat \<Rightarrow> Player \<Rightarrow> 'f Rooms \<Rightarrow> (Player \<times> 'f Rooms) res" where
  "rooms_leave n p w =
     (if p_room p = 0 then Inr (p, w)
      else rbind (room_at w (p_room p - 1)) (\<lambda>r.
        if p_seat p < 1 then Inl OutOfBounds
        else rbind (wr_arr (r_players r) (nat (p_seat p - 1)) None) (\<lambda>ps.
          let r1 = r\<lparr>r_players := ps\<rparr>
          in rbind (if room_empty r1 then room_clear n r1 else Inr r1) (\<lambda>r2.
               Inr (p\<lparr>p_room := 0, p_seat := 0\<rparr>, put_room (p_room p - 1) r2 w)))))"

section \<open>The rooms are consistent\<close>

text \<open>
  A room has its fish and its bullets exactly while somebody sits in it, both well linked.
  From \<open>_curr\<close> on the fourth seats are free, and behind it the rooms are empty.
\<close>

definition room_ok :: "'f Room \<Rightarrow> bool" where
  "room_ok r \<longleftrightarrow> length (r_players r) = 4 \<and>
     (case r_fishs r of None \<Rightarrow> room_empty r | Some l \<Rightarrow> \<not> room_empty r \<and> fishs_ok l) \<and>
     (case r_bullets r of None \<Rightarrow> room_empty r | Some l \<Rightarrow> \<not> room_empty r \<and> bullets_ok l)"

definition rooms_ok :: "'f Rooms \<Rightarrow> bool" where
  "rooms_ok w \<longleftrightarrow> 0 \<le> curr w \<and> curr w \<le> max_room w \<and> length (rooms w) = nat (max_room w) \<and>
     (\<forall>i < length (rooms w). room_ok (rooms w ! i)) \<and>
     (\<forall>i < length (rooms w). curr w \<le> int i \<longrightarrow> r_players (rooms w ! i) ! 3 = None) \<and>
     (\<forall>i < length (rooms w). curr w < int i \<longrightarrow> room_empty (rooms w ! i))"

text \<open>The steps a walk through the lists of a room may need.\<close>

definition room_fits :: "nat \<Rightarrow> 'f Room \<Rightarrow> bool" where
  "room_fits n r \<longleftrightarrow> (case r_fishs r of None \<Rightarrow> True | Some l \<Rightarrow> length (nl_items l) \<le> n) \<and>
     (case r_bullets r of None \<Rightarrow> True | Some l \<Rightarrow> length (nl_items l) \<le> n)"

lemma empty_room_simps [simp]:
  "room_ok empty_room" "room_empty empty_room" "r_players empty_room = [None, None, None, None]" "room_fits n empty_room"
  by (simp_all add: room_ok_def room_empty_def empty_room_def room_fits_def)

lemma rooms_start_ok: "0 \<le> n \<Longrightarrow> rooms_ok (rooms_start n)"
  by (simp add: rooms_ok_def rooms_start_def setRooms_def)

lemma list4: "length xs = 4 \<longleftrightarrow> (\<exists>a b c d. xs = [a, b, c, d])"
proof
  assume "length xs = 4"
  then show "\<exists>a b c d. xs = [a, b, c, d]" by (auto simp: numeral_eq_Suc length_Suc_conv)
qed auto

lemma less4: "(j :: nat) < 4 \<longleftrightarrow> j = 0 \<or> j = 1 \<or> j = 2 \<or> j = 3"
  by auto

lemma free_seat_spec:
  assumes "length ps = 4" "ps ! 3 = None"
  shows "\<exists>j. free_seat 0 ps = Some j \<and> j < 4 \<and> ps ! j = None \<and> (\<forall>k < j. ps ! k \<noteq> None)"
  using assms unfolding list4 by (auto simp: less_Suc_eq)

lemma room_at_in: "0 \<le> i \<Longrightarrow> nat i < length (rooms w) \<Longrightarrow> room_at w i = Inr (rooms w ! nat i)"
  by (simp add: room_at_def)

text \<open>
  While \<open>_curr\<close> is a room, the seat found is the first free one of that room.
\<close>

lemma findRoom_seat:
  assumes "rooms_ok w" "curr w < max_room w"
  shows "\<exists>j. findRoom w = Inr (curr w + 1, int j + 1, w\<lparr>curr := (if j = 3 then curr w + 1 else curr w)\<rparr>) \<and>
    j < 4 \<and> r_players (rooms w ! nat (curr w)) ! j = None \<and> (\<forall>k < j. r_players (rooms w ! nat (curr w)) ! k \<noteq> None)"
proof -
  have i: "0 \<le> curr w" "nat (curr w) < length (rooms w)" "length (r_players (rooms w ! nat (curr w))) = 4"
    "r_players (rooms w ! nat (curr w)) ! 3 = None"
    using assms by (auto simp: rooms_ok_def room_ok_def)
  obtain j where j: "free_seat 0 (r_players (rooms w ! nat (curr w))) = Some j" "j < 4"
    "r_players (rooms w ! nat (curr w)) ! j = None" "\<forall>k < j. r_players (rooms w ! nat (curr w)) ! k \<noteq> None"
    using free_seat_spec [OF i(3,4)] by blast
  obtain n where n: "nat (max_room w - curr w) = Suc n" using assms(2) by (cases "nat (max_room w - curr w)") auto
  show ?thesis using i(1,2) j n by (auto simp: findRoom_def try_room_def room_at_in)
qed

lemma findRoom_past_end:
  assumes "rooms_ok w" "curr w = max_room w"
  shows "findRoom w = Inl OutOfBounds"
proof -
  obtain n where n: "nat (curr w + 1) = Suc n" using assms by (cases "nat (curr w + 1)") (auto simp: rooms_ok_def)
  have "room_at w (max_room w) = Inl OutOfBounds" using assms by (simp add: room_at_def rooms_ok_def)
  then show ?thesis using assms(2) n by (simp add: findRoom_def try_room_def)
qed

lemma room_empty_iff: "length (r_players r) = 4 \<Longrightarrow> room_empty r \<longleftrightarrow> (\<forall>j < 4. r_players r ! j = None)"
  by (auto simp: room_empty_def list_all_length)

text \<open>Taking the seat found keeps the rooms consistent.\<close>

lemma take_seat_ok:
  assumes "rooms_ok w" "findRoom w = Inr (room, seat, w')" "room \<noteq> 0" "fishs_ok fl" "bullets_ok bl"
    and "r = rooms w ! nat (room - 1)"
    and "r' = (if r_fishs r = None then r\<lparr>r_players := (r_players r)[nat (seat - 1) := Some i], r_create_time := t, r_fishs := Some fl, r_bullets := Some bl\<rparr>
               else r\<lparr>r_players := (r_players r)[nat (seat - 1) := Some i]\<rparr>)"
  shows "rooms_ok (put_room (room - 1) r' w') \<and> 1 \<le> room \<and> room \<le> max_room w \<and> 1 \<le> seat \<and> seat \<le> 4 \<and>
    r_players r ! nat (seat - 1) = None \<and> rooms w' = rooms w \<and> max_room w' = max_room w"
proof -
  have lt: "curr w < max_room w"
    using assms(1,2) findRoom_past_end [OF assms(1)] by (auto simp: rooms_ok_def order.strict_iff_order)
  obtain j where j: "room = curr w + 1" "seat = int j + 1" "w' = w\<lparr>curr := (if j = 3 then curr w + 1 else curr w)\<rparr>" "j < 4"
    "r_players (rooms w ! nat (curr w)) ! j = None"
    using findRoom_seat [OF assms(1) lt] assms(2) by auto
  have c: "0 \<le> curr w" "nat (curr w) < length (rooms w)" using assms(1) lt by (auto simp: rooms_ok_def)
  have r: "r = rooms w ! nat (curr w)" by (simp add: assms(6) j(1))
  have ok: "room_ok r" using assms(1) c by (simp add: rooms_ok_def r)
  then have l: "length (r_players r) = 4" by (simp add: room_ok_def)
  have rp: "r_players r' = (r_players r)[j := Some i]" by (simp add: assms(7) j(2))
  have "r_players r' ! j = Some i" "length (r_players r') = 4" using j(4) l by (simp_all add: rp)
  then have ne: "\<not> room_empty r'" using j(4) room_empty_iff [of r'] by (metis option.distinct(1))
  have fb: "r_fishs r = None \<longleftrightarrow> r_bullets r = None" using ok by (auto simp: room_ok_def split: option.splits)
  have ok': "room_ok r'" using ok ne l assms(4,5) fb by (auto simp: room_ok_def rp assms(7) split: option.splits if_splits)
  have third: "j \<noteq> 3 \<Longrightarrow> r_players r' ! 3 = None"
    using assms(1) c l by (auto simp: rp rooms_ok_def r)
  have "rooms_ok (put_room (curr w) r' w')"
    using assms(1) lt c ok' third unfolding rooms_ok_def j(3) put_room_def
    by (auto simp: nth_list_update)
  then show ?thesis using j lt c by (auto simp: r)
qed

text \<open>Leaving frees the seat and, when it was the last one taken, the fish and bullets of the room.\<close>

lemma room_clear_ok:
  assumes "room_ok r" "room_fits n r" "room_empty r1" "r1 = r\<lparr>r_players := ps\<rparr>" "length ps = 4"
  shows "\<exists>r'. room_clear n r1 = Inr r' \<and> room_ok r' \<and> r_players r' = ps"
proof -
  have f: "\<exists>l'. fishs_clear n l = Inr l'" if "r_fishs r = Some l" for l
  proof -
    have "nl_ok l" "length (nl_items l) \<le> n" using that assms(1,2) by (auto simp: room_ok_def room_fits_def fishs_ok_def)
    then show ?thesis using nl_clear_ok [of l n] ok_unlocked [of l] by (auto simp: fishs_clear_def)
  qed
  have b: "\<exists>l'. bullets_clear n l = Inr l'" if "r_bullets r = Some l" for l
  proof -
    have "nl_ok l" "length (nl_items l) \<le> n" using that assms(1,2) by (auto simp: room_ok_def room_fits_def bullets_ok_def)
    then show ?thesis using nl_clear_ok [of l n] bullets_unlocked [of l] by (auto simp: bullets_clear_def)
  qed
  have "room_clear n r1 = Inr (r1\<lparr>r_fishs := None, r_bullets := None\<rparr>)"
    using f b by (auto simp: room_clear_def assms(4) split: option.splits)
  then show ?thesis using assms(3,4,5) by (auto simp: room_ok_def room_empty_def)
qed

lemma rooms_leave_ok:
  assumes "rooms_ok w" "1 \<le> p_room p" "p_room p \<le> max_room w" "1 \<le> p_seat p" "p_seat p \<le> 4"
    and "room_fits n (rooms w ! nat (p_room p - 1))"
  shows "\<exists>w' r'. rooms_leave n p w = Inr (p\<lparr>p_room := 0, p_seat := 0\<rparr>, w') \<and> rooms_ok w' \<and>
    w' = put_room (p_room p - 1) r' w \<and>
    r_players r' = (r_players (rooms w ! nat (p_room p - 1)))[nat (p_seat p - 1) := None]"
proof -
  let ?i = "nat (p_room p - 1)" let ?j = "nat (p_seat p - 1)" let ?r = "rooms w ! ?i"
  have i: "?i < length (rooms w)" using assms by (auto simp: rooms_ok_def)
  have ok: "room_ok ?r" using assms(1) i by (simp add: rooms_ok_def)
  then have l: "length (r_players ?r) = 4" by (simp add: room_ok_def)
  have j: "?j < 4" using assms(4,5) by simp
  define r1 where "r1 = ?r\<lparr>r_players := (r_players ?r)[?j := None]\<rparr>"
  obtain r2 where r2: "(if room_empty r1 then room_clear n r1 else Inr r1) = Inr r2" "room_ok r2"
    "r_players r2 = (r_players ?r)[?j := None]"
  proof (cases "room_empty r1")
    case True
    then show ?thesis using that room_clear_ok [OF ok assms(6) True r1_def] l by auto
  next
    case False
    then have "\<not> room_empty ?r" using l j by (auto simp: room_empty_iff r1_def nth_list_update split: if_splits)
    then have "room_ok r1" using ok False l by (auto simp: room_ok_def r1_def split: option.splits)
    then show ?thesis using that [of r1] False by (simp add: r1_def)
  qed
  have mono: "r_players ?r ! k = None \<Longrightarrow> r_players r2 ! k = None" if "k < 4" for k
    using that l by (cases "k = ?j") (simp_all add: r2(3))
  have emp: "room_empty ?r \<Longrightarrow> room_empty r2" using mono l by (simp add: room_empty_iff r2(3))
  have "rooms_ok (put_room (p_room p - 1) r2 w)"
    using assms(1) i r2(2) mono emp unfolding rooms_ok_def put_room_def by (auto simp: nth_list_update)
  moreover have "rooms_leave n p w = Inr (p\<lparr>p_room := 0, p_seat := 0\<rparr>, put_room (p_room p - 1) r2 w)"
    using assms(2,4) i j l r2(1)
    by (cases "room_empty r1") (simp_all add: rooms_leave_def room_at_in Let_def flip: r1_def)
  ultimately show ?thesis using r2(3) by blast
qed

end
