(* ===== verification/World.thy ===== *)
theory World
  imports Rooms Users Json Frames
begin

text \<open>
  The state the message handlers and the threads share: the table of players, the rooms, the
  users by address, the settings, the memory pool's table, the frames sent and the sockets
  closed and threads started. A handler works on one player, by position; a clock, the random
  numbers, a fresh address and the conversions of floating point numbers are its environment.
\<close>

record 'f World =
  w_players :: Players
  w_rooms :: "'f Rooms"
  w_users :: "nat \<Rightarrow> User option"
  w_setting :: Setting
  w_out :: "(int \<times> bytes) list"
  w_acts :: "act list"
  w_exited :: bool

record 'f env =
  clk :: "nat \<Rightarrow> int \<times> int"
  rnd :: "nat \<Rightarrow> int"
  fresh :: nat
  fuel :: nat
  atof :: "string \<Rightarrow> 'f"
  show2 :: "'f \<Rightarrow> string"

text \<open>
  \<open>clk k\<close> is what the \<open>k\<close>-th call of \<open>gettimeofday\<close> of a handler stores; \<open>fuel\<close> bounds the
  walks through lists, \<open>fresh\<close> is an address that is not in use; \<open>show2\<close> prints with \<open>%.2f\<close>.
\<close>

definition now :: "'f env \<Rightarrow> int" where
  "now e = gettime (clk e 0)"

definition mtime :: "nat \<Rightarrow> 'f env \<Rightarrow> int" where
  "mtime k e = getmtime (clk e k)"

section \<open>Access\<close>

definition player :: "nat \<Rightarrow> 'f World \<Rightarrow> Player" where
  "player i w = players (w_players w) ! i"

definition set_player :: "nat \<Rightarrow> (Player \<Rightarrow> Player) \<Rightarrow> 'f World \<Rightarrow> 'f World" where
  "set_player i f w = w\<lparr>w_players := put_player i f (w_players w)\<rparr>"

definition user_at :: "'f World \<Rightarrow> nat option \<Rightarrow> User res" where
  "user_at w a = (case a of None \<Rightarrow> Inl NullDeref
     | Some a \<Rightarrow> (case w_users w a of None \<Rightarrow> Inl UseAfterFree | Some u \<Rightarrow> Inr u))"

definition set_user :: "nat option \<Rightarrow> User \<Rightarrow> 'f World \<Rightarrow> 'f World" where
  "set_user a u w = (case a of None \<Rightarrow> w | Some a \<Rightarrow> w\<lparr>w_users := (w_users w)(a \<mapsto> u)\<rparr>)"

definition set_room :: "int \<Rightarrow> 'f Room \<Rightarrow> 'f World \<Rightarrow> 'f World" where
  "set_room i r w = w\<lparr>w_rooms := put_room i r (w_rooms w)\<rparr>"

section \<open>Sending\<close>

definition send :: "int \<Rightarrow> bytes \<Rightarrow> 'f World \<Rightarrow> 'f World" where
  "send sk frame w = w\<lparr>w_out := w_out w @ [(sk, frame)]\<rparr>"

text \<open>\<open>sendmsg\<close>: a missing text is sent as \<open>null\<close>.\<close>

definition sendmsg_part :: "nat \<Rightarrow> string option \<Rightarrow> 8 word \<Rightarrow> 8 word \<Rightarrow> 'f World \<Rightarrow> 'f World" where
  "sendmsg_part i msg fin opcode w =
     send (p_socket (player i w)) (emsg fin opcode (bytes_of (case msg of None \<Rightarrow> ''null'' | Some s \<Rightarrow> s))) w"

definition sendmsg :: "nat \<Rightarrow> string \<Rightarrow> 'f World \<Rightarrow> 'f World" where
  "sendmsg i msg w = sendmsg_part i (Some msg) 1 1 w"

text \<open>The four seats of a room, in order; an empty seat and a player without socket are left out.\<close>

fun send_seats :: "nat option list \<Rightarrow> bytes \<Rightarrow> 'f World \<Rightarrow> 'f World" where
  "send_seats [] frame w = w"
| "send_seats (p # ps) frame w =
     send_seats ps frame (case p of None \<Rightarrow> w
        | Some j \<Rightarrow> if p_socket (player j w) \<noteq> 0 then send (p_socket (player j w)) frame w else w)"

definition sendmsgToRoom :: "nat \<Rightarrow> string \<Rightarrow> 'f World \<Rightarrow> 'f World res" where
  "sendmsgToRoom i msg w =
     (if p_room (player i w) > 0
      then rbind (room_at (w_rooms w) (p_room (player i w) - 1)) (\<lambda>r. Inr (send_seats (r_players r) (emsg 1 1 (bytes_of msg)) w))
      else Inr w)"

text \<open>\<open>%s\<close> of a null pointer, as the Microsoft run-time prints it.\<close>

definition show_str :: "string option \<Rightarrow> string" where
  "show_str s = (case s of None \<Rightarrow> ''(null)'' | Some s \<Rightarrow> s)"

section \<open>Leaving\<close>

definition world_leave :: "'f env \<Rightarrow> nat \<Rightarrow> 'f World \<Rightarrow> 'f World res" where
  "world_leave e i w = rbind (rooms_leave (fuel e) (player i w) (w_rooms w)) (\<lambda>(p, rs).
     Inr (set_player i (\<lambda>_. p) (w\<lparr>w_rooms := rs\<rparr>)))"

definition world_remove :: "nat \<Rightarrow> 'f World \<Rightarrow> 'f World" where
  "world_remove i w = (case players_remove i (w_players w) of (acts, ps) \<Rightarrow>
     w\<lparr>w_players := ps, w_acts := w_acts w @ acts\<rparr>)"

text \<open>The same on a copy of the player: the room loses the seat, the table keeps the record.\<close>

definition world_leave_copy :: "'f env \<Rightarrow> Player \<Rightarrow> 'f World \<Rightarrow> (Player \<times> 'f World) res" where
  "world_leave_copy e p w = rbind (rooms_leave (fuel e) p (w_rooms w)) (\<lambda>(p', rs). Inr (p', w\<lparr>w_rooms := rs\<rparr>))"

definition world_remove_copy :: "Player \<Rightarrow> 'f World \<Rightarrow> 'f World" where
  "world_remove_copy p w = (case players_remove_copy p (w_players w) of (acts, ps) \<Rightarrow>
     w\<lparr>w_players := ps, w_acts := w_acts w @ acts\<rparr>)"

section \<open>Frame rules\<close>

lemma send_simps [simp]:
  "w_players (send sk f w) = w_players w" "w_rooms (send sk f w) = w_rooms w" "w_users (send sk f w) = w_users w"
  "w_setting (send sk f w) = w_setting w" "w_acts (send sk f w) = w_acts w" "w_exited (send sk f w) = w_exited w"
  "player i (send sk f w) = player i w" "w_out (send sk f w) = w_out w @ [(sk, f)]"
  by (simp_all add: send_def player_def)

lemma sendmsg_simps [simp]:
  "w_players (sendmsg i m w) = w_players w" "w_rooms (sendmsg i m w) = w_rooms w" "w_users (sendmsg i m w) = w_users w"
  "w_setting (sendmsg i m w) = w_setting w" "w_acts (sendmsg i m w) = w_acts w" "w_exited (sendmsg i m w) = w_exited w"
  "player j (sendmsg i m w) = player j w" "w_out (sendmsg i m w) = w_out w @ [(p_socket (player i w), emsg 1 1 (bytes_of m))]"
  by (simp_all add: sendmsg_def sendmsg_part_def)

lemma send_seats_simps [simp]:
  "w_players (send_seats ps f w) = w_players w \<and> w_rooms (send_seats ps f w) = w_rooms w \<and> w_users (send_seats ps f w) = w_users w \<and>
   w_setting (send_seats ps f w) = w_setting w \<and> w_acts (send_seats ps f w) = w_acts w \<and> w_exited (send_seats ps f w) = w_exited w"
  by (induction ps f w rule: send_seats.induct) (auto split: option.splits)

lemma send_seats_player [simp]: "player i (send_seats ps f w) = player i w"
  by (simp add: player_def)

text \<open>Two worlds that differ in the frames sent only.\<close>

definition same_state :: "'f World \<Rightarrow> 'f World \<Rightarrow> bool" where
  "same_state w w' \<longleftrightarrow> w_players w' = w_players w \<and> w_rooms w' = w_rooms w \<and> w_users w' = w_users w \<and>
     w_setting w' = w_setting w \<and> w_acts w' = w_acts w \<and> w_exited w' = w_exited w"

lemma same_state_simps [simp]: "same_state w w" "same_state w (send sk f w)" "same_state w (sendmsg i m w)"
  "same_state w (send_seats ps f w)"
  by (simp_all add: same_state_def)

lemma same_state_trans [trans]: "same_state a b \<Longrightarrow> same_state b c \<Longrightarrow> same_state a c"
  by (simp add: same_state_def)

text \<open>Whom a message to a room reaches: the players on its seats, each once, in seat order.\<close>

definition seated :: "nat option list \<Rightarrow> 'f World \<Rightarrow> nat list" where
  "seated ps w = filter (\<lambda>j. p_socket (player j w) \<noteq> 0) (map the (filter (\<lambda>p. p \<noteq> None) ps))"

lemma seated_send [simp]: "seated ps (send sk f w) = seated ps w"
  by (simp add: seated_def)

lemma send_seats_out:
  "w_out (send_seats ps f w) = w_out w @ map (\<lambda>j. (p_socket (player j w), f)) (seated ps w)"
proof (induction ps f w rule: send_seats.induct)
  case (2 p ps f w)
  then show ?case by (cases p) (auto simp: seated_def)
qed (simp add: seated_def)

lemma set_player_simps [simp]:
  "w_rooms (set_player i f w) = w_rooms w" "w_users (set_player i f w) = w_users w" "w_setting (set_player i f w) = w_setting w"
  "w_acts (set_player i f w) = w_acts w" "w_out (set_player i f w) = w_out w" "w_exited (set_player i f w) = w_exited w"
  "i < length (players (w_players w)) \<Longrightarrow> player j (set_player i f w) = (if i = j then f (player i w) else player j w)"
  by (simp_all add: set_player_def player_def)

lemma set_room_simps [simp]:
  "w_players (set_room i r w) = w_players w" "w_users (set_room i r w) = w_users w" "w_setting (set_room i r w) = w_setting w"
  "w_acts (set_room i r w) = w_acts w" "w_out (set_room i r w) = w_out w" "w_exited (set_room i r w) = w_exited w"
  "player j (set_room i r w) = player j w" "w_rooms (set_room i r w) = put_room i r (w_rooms w)"
  by (simp_all add: set_room_def player_def)

lemma set_user_simps [simp]:
  "w_players (set_user a u w) = w_players w" "w_rooms (set_user a u w) = w_rooms w" "w_setting (set_user a u w) = w_setting w"
  "w_acts (set_user a u w) = w_acts w" "w_out (set_user a u w) = w_out w" "w_exited (set_user a u w) = w_exited w"
  "player j (set_user a u w) = player j w"
  by (simp_all add: set_user_def player_def split: option.splits)

end
