(* ===== verification/Entry.thy ===== *)
theory Entry
  imports World Memory
begin

text \<open>
  The handling of one message (\<open>src/source/entry.hpp\<close>): the constructor looks at \<open>op\<close>, checks
  the privileges and calls the handler. \<open>i\<close> is the position of the sender in the table of
  players, \<open>js\<close> the parsed message; \<open>_user\<close> is the sender's user when the message arrives.
\<close>

datatype error_msg_code = ERROR_MSG_OP | ERROR_MSG_PRILIVEGE

definition code_of :: "error_msg_code \<Rightarrow> int" where
  "code_of c = (case c of ERROR_MSG_OP \<Rightarrow> 1 | ERROR_MSG_PRILIVEGE \<Rightarrow> 2)"

instantiation error_msg_code :: linorder
begin

definition less_eq_error_msg_code :: "error_msg_code \<Rightarrow> error_msg_code \<Rightarrow> bool" where
  "less_eq_error_msg_code a b \<longleftrightarrow> code_of a \<le> code_of b"

definition less_error_msg_code :: "error_msg_code \<Rightarrow> error_msg_code \<Rightarrow> bool" where
  "less_error_msg_code a b \<longleftrightarrow> code_of a < code_of b"

instance
  by standard (auto simp: less_eq_error_msg_code_def less_error_msg_code_def code_of_def split: error_msg_code.splits)

end

section \<open>Answers\<close>

definition error_units :: "error_msg_code \<Rightarrow> 32 word list" where
  "error_units c = (case c of
     ERROR_MSG_OP \<Rightarrow> [0xE68C87, 0xE4BBA4, 0xE99499, 0xE8AFAF, 0xEFBC81]
   | ERROR_MSG_PRILIVEGE \<Rightarrow> [0xE69D83, 0xE99990, 0xE4B88D, 0xE5A49F, 0xEFBC81])"

definition error_text :: "error_msg_code \<Rightarrow> string" where
  "error_text c = ''{'op':'error', 'code':'' @ dec_int (code_of c) @ '', 'msg':'' @ [APOS] @ text_of (int2utf8 (error_units c)) @ [APOS] @ ''}''"

definition senderror :: "nat \<Rightarrow> error_msg_code \<Rightarrow> 'f World \<Rightarrow> 'f World res" where
  "senderror i c w = rbind (sprintf_buf 64 (error_text c)) (\<lambda>s. Inr (sendmsg i s w))"

definition find_room_text :: "int \<Rightarrow> string option \<Rightarrow> int \<Rightarrow> int \<Rightarrow> int \<Rightarrow> string" where
  "find_room_text uid name room seat t =
     ''{'op':'find room', 'uid':'' @ dec_int uid @ '', 'name':'' @ [APOS] @ show_str name @ [APOS] @ '', 'room':'' @ dec_int room @
     '', 'seat':'' @ dec_int seat @ '', 'time':'' @ fmt_time t @ ''}''"

definition to_shot_text :: "int \<Rightarrow> int \<Rightarrow> int \<Rightarrow> int \<Rightarrow> int \<Rightarrow> string \<Rightarrow> int \<Rightarrow> string" where
  "to_shot_text uid seat coin x y angle bid =
     ''{'op':'to shot', 'status':1, 'uid':'' @ dec_int uid @ '', 'seat':'' @ dec_int seat @ '', 'coin':'' @ dec_int coin @ '', 'x':'' @ dec_int x @
     '', 'y':'' @ dec_int y @ '', 'angle':'' @ angle @ '', 'id':'' @ dec_int bid @ ''}''"

definition hit_fish_text :: "int \<Rightarrow> int \<Rightarrow> int \<Rightarrow> int \<Rightarrow> int \<Rightarrow> int \<Rightarrow> int \<Rightarrow> int \<Rightarrow> string \<Rightarrow> int \<Rightarrow> string" where
  "hit_fish_text uid coin bid bx by' fid fx fy fag ftype =
     ''{op:'hit fish',uid:'' @ dec_int uid @ '',coin:'' @ dec_int coin @ '',bullet_id:'' @ dec_int bid @ '',bx:'' @ dec_int bx @
     '',by:'' @ dec_int by' @ '',fish_id:'' @ dec_int fid @ '',fx:'' @ dec_int fx @ '',fy:'' @ dec_int fy @ '',fag:'' @ fag @
     '',die:1,ftype:'' @ dec_int ftype @ ''}''"

section \<open>Rooms\<close>

text \<open>\<open>verify account\<close>: the thread gets the player; the key stays in the memory of the message.\<close>

definition verifyAccount :: "nat \<Rightarrow> phead \<Rightarrow> 'f World \<Rightarrow> 'f World res" where
  "verifyAccount i js w = rbind (json_value js ''key'') (\<lambda>key. case key of
       None \<Rightarrow> Inr (sendmsg i ''{'op':'verify account', 'uid':0, 'status':0}'' w)
     | Some k \<Rightarrow> rbind (valueToInt js ''kick'') (\<lambda>kick.
         Inr ((set_player i (\<lambda>p. p\<lparr>p_kick := kick, p_tmp := Some k\<rparr>) w)\<lparr>w_acts := w_acts w @ [StartVerify i]\<rparr>)))"

text \<open>Tell the newcomer who sits on the other seats, the seats in order.\<close>

fun tell_seats :: "'f env \<Rightarrow> nat \<Rightarrow> int \<Rightarrow> nat \<Rightarrow> nat option list \<Rightarrow> 'f World \<Rightarrow> 'f World res" where
  "tell_seats e i room k [] w = Inr w"
| "tell_seats e i room k (p # ps) w =
     rbind (case p of None \<Rightarrow> Inr w
       | Some j \<Rightarrow>
           if p_socket (player j w) \<noteq> 0 \<and> p_uid (player j w) \<noteq> p_uid (player i w) \<and> p_user (player j w) \<noteq> None
           then rbind (user_at w (p_user (player j w))) (\<lambda>u.
             rbind (sprintf_buf 100 (find_room_text (p_uid (player j w)) (u_name u) room (p_seat (player j w)) (mtime (2 + k) e))) (\<lambda>s.
               Inr (sendmsg i s w)))
           else Inr w) (tell_seats e i room (Suc k) ps)"

text \<open>The fish and bullets of a room whose first player has come in, and the first fish.\<close>

definition open_room :: "'f env \<Rightarrow> nat \<Rightarrow> int \<Rightarrow> 'f World \<Rightarrow> 'f World res" where
  "open_room e i room w = rbind (room_at (w_rooms w) (room - 1)) (\<lambda>r.
     if r_fishs r \<noteq> None then Inr w
     else rbind (fishs_create (Suc (fuel e)) (fuel e) (rnd e) (fresh e) (w_setting w) (mtime 7 e) fishs_init) (\<lambda>(a, l).
       case a of None \<Rightarrow> Inl NullDeref
       | Some a \<Rightarrow> rbind (nl_look l a) (\<lambda>(f, _). rbind (fishJson f) (\<lambda>s.
           Inr (sendmsg i s (set_room (room - 1) (r\<lparr>r_create_time := mtime 6 e, r_fishs := Some l, r_bullets := Some bullets_init\<rparr>) w))))))"

text \<open>Take the seat found: the player's fields, then the seat of the room.\<close>

definition take_seat :: "'f env \<Rightarrow> nat \<Rightarrow> int \<Rightarrow> int \<Rightarrow> 'f World \<Rightarrow> 'f World res" where
  "take_seat e i room seat w =
     (let w1 = set_player i (\<lambda>p. p\<lparr>p_room := room, p_seat := seat, p_game_time := now e\<rparr>) w
      in rbind (room_at (w_rooms w1) (room - 1)) (\<lambda>r.
         if seat < 1 then Inl OutOfBounds
         else rbind (wr_arr (r_players r) (nat (seat - 1)) (Some i)) (\<lambda>ps. Inr (set_room (room - 1) (r\<lparr>r_players := ps\<rparr>) w1))))"

definition inRoom :: "'f env \<Rightarrow> nat \<Rightarrow> 'f World \<Rightarrow> 'f World res" where
  "inRoom e i w =
     (if p_room (player i w) > 0 \<or> p_user (player i w) = None then Inr w
      else rbind (findRoom (w_rooms w)) (\<lambda>(room, seat, rs).
        let w1 = w\<lparr>w_rooms := rs\<rparr>
        in if room = 0 then Inr (sendmsg i ''{op: 'find room', room:0}'' w1)
           else rbind (take_seat e i room seat w1) (\<lambda>w2.
             rbind (user_at w2 (p_user (player i w2))) (\<lambda>u.
             rbind (sprintf_buf 100 (find_room_text (p_uid (player i w2)) (u_name u) room seat (mtime 1 e))) (\<lambda>s.
             rbind (sendmsgToRoom i s w2) (\<lambda>w3.
             rbind (room_at (w_rooms w3) (room - 1)) (\<lambda>r.
             rbind (tell_seats e i room 0 (r_players r) w3) (\<lambda>w4. open_room e i room w4))))))))"

definition leaveRoom :: "'f env \<Rightarrow> nat \<Rightarrow> 'f World \<Rightarrow> 'f World res" where
  "leaveRoom e i w = rbind (world_leave e i w) (\<lambda>w1. Inr (sendmsg i ''{'op':'leave room', 'status':1}'' w1))"

section \<open>Shooting\<close>

text \<open>The bullet of a shot and its message; \<open>coin\<close> is what the player has left.\<close>

definition shoot :: "'f env \<Rightarrow> nat \<Rightarrow> phead \<Rightarrow> int \<Rightarrow> 'f World \<Rightarrow> 'f World res" where
  "shoot e i js coin w =
     rbind (valueToInt js ''x'') (\<lambda>x. rbind (valueToInt js ''y'') (\<lambda>y. rbind (valueToFloat (atof e) js ''angle'') (\<lambda>angle.
     rbind (room_at (w_rooms w) (p_room (player i w) - 1)) (\<lambda>r.
       case r_bullets r of None \<Rightarrow> Inl NullDeref
       | Some l \<Rightarrow>
         rbind (bullets_create (Suc (fuel e)) (fuel e) (fresh e) (p_uid (player i w)) x y angle (mtime 1 e) l) (\<lambda>(b, l1).
         rbind (nl_look l1 b) (\<lambda>(bu, _).
           let w2 = set_room (p_room (player i w) - 1) (r\<lparr>r_bullets := Some l1\<rparr>) w
           in rbind (sprintf_buf 200 (to_shot_text (p_uid (player i w)) (p_seat (player i w)) coin x y (show2 e angle) (b_id bu))) (\<lambda>s.
              sendmsgToRoom i s w2)))))))"

definition toShot :: "'f env \<Rightarrow> nat \<Rightarrow> phead \<Rightarrow> 'f World \<Rightarrow> 'f World res" where
  "toShot e i js w =
     rbind (if p_user (player i w) = None then Inr None else rbind (user_at w (p_user (player i w))) (\<lambda>u. Inr (Some u))) (\<lambda>ou.
       case ou of
         None \<Rightarrow> Inr (sendmsg i ''{'op':'to shot', 'status':0}'' w)
       | Some u \<Rightarrow>
         if u_coin u \<le> 0 then Inr (sendmsg i ''{'op':'to shot', 'status':0}'' w)
         else
           let u1 = u\<lparr>u_coin := u_coin u - 1\<rparr>
           in shoot e i js (u_coin u1) (set_user (p_user (player i w)) u1 (set_player i (\<lambda>p. p\<lparr>p_op_time := now e\<rparr>) w)))"

text \<open>
  The part of \<open>hitFish\<close> for a bullet of the sender: the fish is looked up and locked; a fish
  found pays its coins, counts as a kill, is marked as deleted and unlocked.
\<close>

definition hit_one :: "'f env \<Rightarrow> nat \<Rightarrow> phead \<Rightarrow> int \<Rightarrow> Fishs \<Rightarrow> User \<Rightarrow> 'f World \<Rightarrow> (Fishs \<times> User \<times> 'f World) res" where
  "hit_one e i js bid fl u w =
     rbind (valueToInt js ''fish_id'') (\<lambda>fid. rbind (fishs_getFish (fuel e) fid fl) (\<lambda>(f, fl1).
       case f of None \<Rightarrow> Inr (fl1, u, w)
       | Some a \<Rightarrow>
         rbind (nl_look fl1 a) (\<lambda>(fi, _).
           let u1 = killFish (fish_no (f_fish fi)) (u\<lparr>u_coin := i32 (u_coin u + fish_coin (f_fish fi))\<rparr>)
           in rbind (valueToInt js ''bx'') (\<lambda>bx. rbind (valueToInt js ''by'') (\<lambda>by'. rbind (valueToInt js ''fx'') (\<lambda>fx.
              rbind (valueToInt js ''fy'') (\<lambda>fy. rbind (valueToFloat (atof e) js ''fag'') (\<lambda>fag.
              rbind (sprintf_buf 200 (hit_fish_text (p_uid (player i w)) (u_coin u1) bid bx by' (f_id fi) fx fy (show2 e fag) (f_type fi))) (\<lambda>s.
              rbind (nl_put a (\<lambda>f. f\<lparr>f_hit_coin := i32 (f_hit_coin f + 1), f_isdel := 1, f_lock := 0\<rparr>) fl1) (\<lambda>fl2.
                Inr (fl2, u1, sendmsg i s w)))))))))))"

definition hitFish :: "'f env \<Rightarrow> nat \<Rightarrow> phead \<Rightarrow> 'f World \<Rightarrow> 'f World res" where
  "hitFish e i js w =
     rbind (valueToInt js ''bullet_id'') (\<lambda>bid. rbind (room_at (w_rooms w) (p_room (player i w) - 1)) (\<lambda>r.
       case r_bullets r of None \<Rightarrow> Inl NullDeref
       | Some bl \<Rightarrow> rbind (bullets_getBullet (fuel e) bid (p_uid (player i w)) bl) (\<lambda>b.
           case b of
             Some ba \<Rightarrow>
               if p_user (player i w) = None then Inr (sendmsg i ''{op:'hit fish', status:0, msg:'no valid!'}'' w)
               else rbind (user_at w (p_user (player i w))) (\<lambda>u.
                 case r_fishs r of None \<Rightarrow> Inl NullDeref
                 | Some fl \<Rightarrow> rbind (hit_one e i js bid fl u w) (\<lambda>(fl1, u1, w1).
                     rbind (nl_put ba (\<lambda>b. b\<lparr>b_isdel := 1, b_lock := 0\<rparr>) bl) (\<lambda>bl1.
                       Inr (set_room (p_room (player i w) - 1) (r\<lparr>r_fishs := Some fl1, r_bullets := Some bl1\<rparr>)
                            (set_user (p_user (player i w)) u1 w1)))))
           | None \<Rightarrow> Inr (sendmsg i ''{op:'hit fish', status:0, msg:'no valid!'}'' w))))"

section \<open>Administration\<close>

definition online_text :: "Player \<Rightarrow> User option \<Rightarrow> int \<Rightarrow> string" where
  "online_text p u t =
     ''{'socket':'' @ dec_int (p_socket p) @ '', 'id':'' @ dec_int (case u of None \<Rightarrow> 0 | Some u \<Rightarrow> u_id u) @
     '', 'name':'' @ [APOS] @ (case u of None \<Rightarrow> [] | Some u \<Rightarrow> show_str (u_name u)) @ [APOS] @
     '', 'coin':'' @ dec_int (case u of None \<Rightarrow> 0 | Some u \<Rightarrow> u_coin u) @
     '', 'backup_coin':'' @ dec_int (case u of None \<Rightarrow> 0 | Some u \<Rightarrow> u_backup_coin u) @
     '', 'room':'' @ dec_int (p_room p) @ '', 'seat':'' @ dec_int (p_seat p) @ '', 'hack':'' @ dec_int (p_hack p) @
     '', 'in_time':'' @ dec_int (p_in_time p) @ '', 'op_time':'' @ dec_int (case u of None \<Rightarrow> 0 | Some u \<Rightarrow> u_op_time u) @
     '', 'time':'' @ dec_int t @ ''},''"

text \<open>The answer goes out as one fragmented message: first part, one part per player, last part.\<close>

fun online_parts :: "nat \<Rightarrow> int \<Rightarrow> Player list \<Rightarrow> 'f World \<Rightarrow> 'f World res" where
  "online_parts i t [] w = Inr w"
| "online_parts i t (p # ps) w =
     rbind (if p_socket p = 0 then Inr w
       else rbind (if p_user p = None then Inr None else rbind (user_at w (p_user p)) (\<lambda>u. Inr (Some u))) (\<lambda>u.
         rbind (sprintf_buf 256 (online_text p u t)) (\<lambda>s. Inr (sendmsg_part i (Some s) 0 0 w)))) (online_parts i t ps)"

definition viewOnline :: "'f env \<Rightarrow> nat \<Rightarrow> 'f World \<Rightarrow> 'f World res" where
  "viewOnline e i w =
     rbind (online_parts i (gettime (clk e 1)) (players (w_players w)) (sendmsg_part i (Some ''{'op':'view online', data:['') 0 1 w)) (\<lambda>w1.
       Inr (sendmsg_part i (Some '']}'') 1 0 w1))"

text \<open>
  \<open>kickUser\<close> works on a copy of the record it finds: the room loses the seat and the socket is
  closed, the record stays in the table.
\<close>

fun kick_first :: "'f env \<Rightarrow> nat \<Rightarrow> int \<Rightarrow> Player list \<Rightarrow> 'f World \<Rightarrow> 'f World res" where
  "kick_first e i sk [] w = Inr w"
| "kick_first e i sk (p # ps) w =
     (if p_socket p = sk
      then rbind (world_leave_copy e p w) (\<lambda>(p', w1).
        Inr (sendmsg i ''{'op':'kick user', 'status':1, 'msg':'ok!'}'' (world_remove_copy p' w1)))
      else kick_first e i sk ps w)"

definition kickUser :: "'f env \<Rightarrow> nat \<Rightarrow> phead \<Rightarrow> 'f World \<Rightarrow> 'f World res" where
  "kickUser e i js w = rbind (valueToInt js ''socket_id'') (\<lambda>sk.
     if sk \<le> 0 then Inr (sendmsg i ''{'op':'kick user', 'status':0, 'msg':'error socket!'}'' w)
     else if sk = p_socket (player i w) then Inr (sendmsg i ''{'op':'kick user', 'status':0, 'msg':'not kick self!'}'' w)
     else kick_first e i sk (players (w_players w)) w)"

definition server_info_text :: "mem \<Rightarrow> string \<Rightarrow> string" where
  "server_info_text mem cpu =
     (let c = memory_con mem; part = (\<lambda>a b t. ''{size:'' @ dec_int a @ '', use:'' @ dec_int b @ '', total:'' @ dec_int (i32 t) @ ''}'')
      in ''{'op':'server info', memory:{use:'' @ dec_int (mem_use mem) @ '', total:'' @ dec_int (mem_total mem) @
         '', malloc_count:'' @ dec_int (malloc_count mem) @ '', free_count: '' @ dec_int (free_count mem) @
         '', system_use: '' @ dec_int (system_use mem) @ '', detail:['' @
         part (c 0) (c 21) (c 15 - c 12) @ '','' @ part (c 1) (c 22) (c 16 - c 13) @ '','' @ part (c 2) (c 23) (c 17 - c 14) @
         '']}, cpu:{use: '' @ cpu @ ''}}'')"

definition serverInfo :: "mem \<Rightarrow> string \<Rightarrow> nat \<Rightarrow> 'f World \<Rightarrow> 'f World res" where
  "serverInfo mem cpu i w = rbind (sprintf_buf 512 (server_info_text mem cpu)) (\<lambda>s. Inr (sendmsg i s w))"

text \<open>The values of \<open>data\<close>, each handed to \<open>setValue\<close>; counted are failures and successes.\<close>

fun set_values :: "JsonValue list \<Rightarrow> int \<times> int \<Rightarrow> Setting \<Rightarrow> ((int \<times> int) \<times> Setting) res" where
  "set_values [] n st = Inr (n, st)"
| "set_values (d # ds) (bad, good) st =
     rbind (setValue (jkey d) (jvalue d) st) (\<lambda>(ok, st1). set_values ds (if ok then (bad, good + 1) else (bad + 1, good)) st1)"

definition setSetting :: "nat \<Rightarrow> phead \<Rightarrow> 'f World \<Rightarrow> 'f World res" where
  "setSetting i js w = rbind (getJsonValue js ''data'') (\<lambda>data.
     rbind (set_values (case data of None \<Rightarrow> [] | Some d \<Rightarrow> jchild d) (0, 0) (w_setting w)) (\<lambda>((bad, good), st).
     rbind (sprintf_buf 128 (''{'op':'set setting', 'error':'' @ dec_int bad @ '', 'success':'' @ dec_int good @ ''}'')) (\<lambda>s.
       Inr (sendmsg i s (w\<lparr>w_setting := st\<rparr>)))))"

definition exit_text :: "int \<Rightarrow> int \<Rightarrow> int \<Rightarrow> string" where
  "exit_text sk num status = ''{'op':'exit', socket:'' @ dec_int sk @ '', num:'' @ dec_int num @ '', status: '' @ dec_int status @ ''}''"

fun exit_players :: "'f env \<Rightarrow> nat \<Rightarrow> int \<Rightarrow> Player list \<Rightarrow> 'f World \<Rightarrow> (int \<times> 'f World) res" where
  "exit_players e i num [] w = Inr (num, w)"
| "exit_players e i num (p # ps) w =
     (if p_socket p = 0 then exit_players e i num ps w
      else rbind (sprintf_buf 256 (exit_text (p_socket p) (num + 1) 0)) (\<lambda>s.
        rbind (world_leave_copy e p (sendmsg i s w)) (\<lambda>(p', w1).
          exit_players e i (num + 1) ps (world_remove_copy p' w1))))"

definition entry_exit :: "'f env \<Rightarrow> nat \<Rightarrow> 'f World \<Rightarrow> 'f World res" where
  "entry_exit e i w =
     (let w1 = w\<lparr>w_setting := (w_setting w)\<lparr>closeing := True\<rparr>\<rparr>
      in rbind (exit_players e i 0 (players (w_players w1)) w1) (\<lambda>(num, w2).
         rbind (sprintf_buf 256 (exit_text (-1) num 1)) (\<lambda>s. Inr ((sendmsg i s w2)\<lparr>w_exited := True\<rparr>))))"

definition other :: "nat \<Rightarrow> phead \<Rightarrow> 'f World \<Rightarrow> 'f World res" where
  "other i js w = rbind (json_value js ''msg'') (\<lambda>v. Inr (sendmsg_part i v 1 1 w))"

section \<open>The constructor\<close>

text \<open>A handler that needs a privilege, the test on the loaded user.\<close>

definition privileged :: "(S_UserPrivilege \<Rightarrow> bool) \<Rightarrow> nat \<Rightarrow> ('f World \<Rightarrow> 'f World res) \<Rightarrow> 'f World \<Rightarrow> 'f World res" where
  "privileged priv i handler w =
     rbind (user_at w (p_user (player i w))) (\<lambda>u.
       if priv (u_privilege u) then handler w else senderror i ERROR_MSG_PRILIVEGE w)"

definition in_room_only :: "nat \<Rightarrow> ('f World \<Rightarrow> 'f World res) \<Rightarrow> 'f World \<Rightarrow> 'f World res" where
  "in_room_only i handler w = (if p_room (player i w) > 0 then handler w else Inr w)"

definition dispatch :: "'f env \<Rightarrow> mem \<Rightarrow> string \<Rightarrow> nat \<Rightarrow> phead \<Rightarrow> string \<Rightarrow> 'f World \<Rightarrow> 'f World res" where
  "dispatch e mem cpu i js op w =
     (if strcmp_eq op ''verify account'' then verifyAccount i js w
      else if strcmp_eq op ''in room'' then inRoom e i w
      else if strcmp_eq op ''leave room'' then in_room_only i (leaveRoom e i) w
      else if strcmp_eq op ''to shot'' then in_room_only i (toShot e i js) w
      else if strcmp_eq op ''hit fish'' then in_room_only i (hitFish e i js) w
      else if strcmp_eq op ''view online'' then privileged view i (viewOnline e i) w
      else if strcmp_eq op ''kick user'' then privileged kick i (kickUser e i js) w
      else if strcmp_eq op ''server info'' then privileged exit i (serverInfo mem cpu i) w
      else if strcmp_eq op ''set setting'' then privileged exit i (setSetting i js) w
      else if strcmp_eq op ''exit'' then privileged exit i (entry_exit e i) w
      else other i js w)"

definition entry :: "'f env \<Rightarrow> mem \<Rightarrow> string \<Rightarrow> nat \<Rightarrow> phead \<Rightarrow> 'f World \<Rightarrow> 'f World res" where
  "entry e mem cpu i js w = rbind (json_value js ''op'') (\<lambda>op. case op of
       None \<Rightarrow> senderror i ERROR_MSG_OP w
     | Some op \<Rightarrow>
         if \<not> strcmp_eq op ''verify account'' \<and> p_user (player i w) = None then Inr w
         else dispatch e mem cpu i js op w)"

end
