(* ===== verification/Invariant.thy ===== *)
theory Invariant
  imports Entry
begin

text \<open>
  The invariant of the server's state and that the handlers of the game keep it: the table of
  players and the rooms are consistent, a player's room and seat and the seat's player agree,
  and the users of the connected players and of the threads about to save them are there,
  each owned once.
\<close>

section \<open>The invariant\<close>

text \<open>
  \<open>agree\<close>: the rooms and seats the players name against the players on the seats; \<open>act\<close> are
  the connected players with a user, \<open>n\<close> is the number of rooms.
\<close>

definition agree :: "(nat \<Rightarrow> int) \<Rightarrow> (nat \<Rightarrow> int) \<Rightarrow> (nat \<Rightarrow> bool) \<Rightarrow> (nat \<Rightarrow> nat \<Rightarrow> nat option) \<Rightarrow> nat \<Rightarrow> bool" where
  "agree room seat act so n \<longleftrightarrow>
     (\<forall>i < max_len. room i \<noteq> 0 \<longrightarrow> act i \<and> 1 \<le> room i \<and> room i \<le> int n \<and> 1 \<le> seat i \<and> seat i \<le> 4 \<and>
        so (nat (room i - 1)) (nat (seat i - 1)) = Some i) \<and>
     (\<forall>r < n. \<forall>s < 4. \<forall>i. so r s = Some i \<longrightarrow> i < max_len \<and> room i = int r + 1 \<and> seat i = int s + 1)"

text \<open>\<open>owned\<close>: the users the players point to exist, each has one owner, a player or a thread.\<close>

definition owned :: "(nat \<Rightarrow> nat option) \<Rightarrow> (nat \<Rightarrow> bool) \<Rightarrow> nat list \<Rightarrow> bool" where
  "owned pu there lv \<longleftrightarrow>
     (\<forall>i < max_len. \<forall>a. pu i = Some a \<longrightarrow> there a \<and> a \<notin> set lv) \<and>
     (\<forall>i < max_len. \<forall>j < max_len. \<forall>a. pu i = Some a \<longrightarrow> pu j = Some a \<longrightarrow> i = j) \<and>
     (\<forall>a \<in> set lv. there a) \<and> distinct lv"

definition seat_of :: "'f World \<Rightarrow> nat \<Rightarrow> nat \<Rightarrow> nat option" where
  "seat_of w r s = r_players (rooms (w_rooms w) ! r) ! s"

definition room_no :: "'f World \<Rightarrow> nat \<Rightarrow> int" where
  "room_no w i = p_room (player i w)"

definition seat_no :: "'f World \<Rightarrow> nat \<Rightarrow> int" where
  "seat_no w i = p_seat (player i w)"

definition joined :: "'f World \<Rightarrow> nat \<Rightarrow> bool" where
  "joined w i \<longleftrightarrow> p_socket (player i w) \<noteq> 0 \<and> p_user (player i w) \<noteq> None"

definition user_of :: "'f World \<Rightarrow> nat \<Rightarrow> nat option" where
  "user_of w i = p_user (player i w)"

definition there :: "'f World \<Rightarrow> nat \<Rightarrow> bool" where
  "there w a \<longleftrightarrow> w_users w a \<noteq> None"

definition leaving :: "'f World \<Rightarrow> nat list" where
  "leaving w = concat (map (\<lambda>x. case x of StartUserLeave a \<Rightarrow> [a] | _ \<Rightarrow> []) (w_acts w))"

definition n_rooms :: "'f World \<Rightarrow> nat" where
  "n_rooms w = length (rooms (w_rooms w))"

definition seats_agree :: "'f World \<Rightarrow> bool" where
  "seats_agree w \<longleftrightarrow> agree (room_no w) (seat_no w) (joined w) (seat_of w) (n_rooms w)"

definition users_owned :: "'f World \<Rightarrow> bool" where
  "users_owned w \<longleftrightarrow> owned (user_of w) (there w) (leaving w)"

definition world_ok :: "'f World \<Rightarrow> bool" where
  "world_ok w \<longleftrightarrow> players_ok (w_players w) \<and> rooms_ok (w_rooms w) \<and> seats_agree w \<and> users_owned w"

lemmas views = room_no_def seat_no_def joined_def user_of_def there_def leaving_def n_rooms_def seat_of_def

section \<open>Agreement of seats\<close>

lemma agree_player:
  "agree room seat act so n \<Longrightarrow> i < max_len \<Longrightarrow> room i \<noteq> 0 \<Longrightarrow>
   act i \<and> 1 \<le> room i \<and> room i \<le> int n \<and> 1 \<le> seat i \<and> seat i \<le> 4 \<and> so (nat (room i - 1)) (nat (seat i - 1)) = Some i"
  unfolding agree_def by blast

lemma agree_seat:
  "agree room seat act so n \<Longrightarrow> r < n \<Longrightarrow> s < 4 \<Longrightarrow> so r s = Some i \<Longrightarrow> i < max_len \<and> room i = int r + 1 \<and> seat i = int s + 1"
  unfolding agree_def by blast

lemma agreeI:
  assumes "\<And>i. i < max_len \<Longrightarrow> room i \<noteq> 0 \<Longrightarrow> act i \<and> 1 \<le> room i \<and> room i \<le> int n \<and> 1 \<le> seat i \<and> seat i \<le> 4 \<and>
      so (nat (room i - 1)) (nat (seat i - 1)) = Some i"
    and "\<And>r s i. r < n \<Longrightarrow> s < 4 \<Longrightarrow> so r s = Some i \<Longrightarrow> i < max_len \<and> room i = int r + 1 \<and> seat i = int s + 1"
  shows "agree room seat act so n"
  unfolding agree_def using assms by blast

lemma agree_cong:
  assumes "agree room seat act so n"
    and "\<And>i. i < max_len \<Longrightarrow> room' i = room i" "\<And>i. i < max_len \<Longrightarrow> seat' i = seat i" "\<And>i. i < max_len \<Longrightarrow> act i \<Longrightarrow> act' i"
    and "\<And>r s. r < n \<Longrightarrow> s < 4 \<Longrightarrow> so' r s = so r s"
  shows "agree room' seat' act' so' n"
proof (rule agreeI)
  fix i assume i: "i < max_len" "room' i \<noteq> 0"
  then have p: "act i \<and> 1 \<le> room i \<and> room i \<le> int n \<and> 1 \<le> seat i \<and> seat i \<le> 4 \<and> so (nat (room i - 1)) (nat (seat i - 1)) = Some i"
    using agree_player [OF assms(1)] assms(2) by simp
  then have "so' (nat (room i - 1)) (nat (seat i - 1)) = Some i" using assms(5) [of "nat (room i - 1)" "nat (seat i - 1)"] by auto
  then show "act' i \<and> 1 \<le> room' i \<and> room' i \<le> int n \<and> 1 \<le> seat' i \<and> seat' i \<le> 4 \<and> so' (nat (room' i - 1)) (nat (seat' i - 1)) = Some i"
    using p i assms(2-4) by simp
next
  fix r s i assume r: "r < n" "s < 4" "so' r s = Some i"
  then have "i < max_len \<and> room i = int r + 1 \<and> seat i = int s + 1" using agree_seat [OF assms(1)] assms(5) by simp
  then show "i < max_len \<and> room' i = int r + 1 \<and> seat' i = int s + 1" using assms(2,3) by simp
qed

text \<open>A player leaves the seat.\<close>

lemma agree_leave:
  assumes a: "agree room seat act so n" and i: "i < max_len" "room i \<noteq> 0"
    and r': "\<And>j. room' j = (if j = i then 0 else room j)" and s': "\<And>j. j \<noteq> i \<Longrightarrow> seat' j = seat j" and l': "\<And>j. j \<noteq> i \<Longrightarrow> act j \<Longrightarrow> act' j"
    and so': "\<And>r s. r < n \<Longrightarrow> s < 4 \<Longrightarrow> so' r s = (if r = nat (room i - 1) \<and> s = nat (seat i - 1) then None else so r s)"
  shows "agree room' seat' act' so' n"
proof (rule agreeI)
  note pi = agree_player [OF a i]
  fix j assume j: "j < max_len" "room' j \<noteq> 0"
  then have ne: "j \<noteq> i" "room j \<noteq> 0" using r' by (auto split: if_splits)
  note pj = agree_player [OF a j(1) ne(2)]
  have "\<not> (nat (room j - 1) = nat (room i - 1) \<and> nat (seat j - 1) = nat (seat i - 1))"
    using pi pj ne(1) by (metis option.inject)
  then have "so' (nat (room j - 1)) (nat (seat j - 1)) = Some j"
    using so' [of "nat (room j - 1)" "nat (seat j - 1)"] pj by auto
  then show "act' j \<and> 1 \<le> room' j \<and> room' j \<le> int n \<and> 1 \<le> seat' j \<and> seat' j \<le> 4 \<and> so' (nat (room' j - 1)) (nat (seat' j - 1)) = Some j"
    using pj ne r' s' l' by simp
next
  fix r s j assume r: "r < n" "s < 4" "so' r s = Some j"
  then have q: "so r s = Some j" "\<not> (r = nat (room i - 1) \<and> s = nat (seat i - 1))" using so' [OF r(1,2)] by (auto split: if_splits)
  note h = agree_seat [OF a r(1,2) q(1)]
  then have "j \<noteq> i" using q(2) by auto
  then show "j < max_len \<and> room' j = int r + 1 \<and> seat' j = int s + 1" using h r' s' by simp
qed

text \<open>A player without a room takes a free seat.\<close>

lemma agree_take:
  assumes a: "agree room seat act so n" and i: "i < max_len" "room i = 0" "act i"
    and rs: "1 \<le> r0" "r0 \<le> int n" "1 \<le> s0" "s0 \<le> 4" "so (nat (r0 - 1)) (nat (s0 - 1)) = None"
    and r': "\<And>j. room' j = (if j = i then r0 else room j)" and s': "\<And>j. seat' j = (if j = i then s0 else seat j)" and l': "\<And>j. act j \<Longrightarrow> act' j"
    and so': "\<And>r s. r < n \<Longrightarrow> s < 4 \<Longrightarrow> so' r s = (if r = nat (r0 - 1) \<and> s = nat (s0 - 1) then Some i else so r s)"
  shows "agree room' seat' act' so' n"
proof (rule agreeI)
  fix j assume j: "j < max_len" "room' j \<noteq> 0"
  show "act' j \<and> 1 \<le> room' j \<and> room' j \<le> int n \<and> 1 \<le> seat' j \<and> seat' j \<le> 4 \<and> so' (nat (room' j - 1)) (nat (seat' j - 1)) = Some j"
  proof (cases "j = i")
    case True
    then show ?thesis using rs i r' s' l' so' [of "nat (r0 - 1)" "nat (s0 - 1)"] by auto
  next
    case False
    then have "room j \<noteq> 0" using j(2) r' by simp
    note pj = agree_player [OF a j(1) this]
    have "\<not> (nat (room j - 1) = nat (r0 - 1) \<and> nat (seat j - 1) = nat (s0 - 1))" using pj rs(5) by auto
    then have "so' (nat (room j - 1)) (nat (seat j - 1)) = Some j"
      using so' [of "nat (room j - 1)" "nat (seat j - 1)"] pj by auto
    then show ?thesis using pj False r' s' l' by simp
  qed
next
  fix r s j assume r: "r < n" "s < 4" "so' r s = Some j"
  show "j < max_len \<and> room' j = int r + 1 \<and> seat' j = int s + 1"
  proof (cases "r = nat (r0 - 1) \<and> s = nat (s0 - 1)")
    case True
    then show ?thesis using so' [OF r(1,2)] r(3) rs i r' s' by simp
  next
    case False
    then have q: "so r s = Some j" using r(3) unfolding so' [OF r(1,2)] by (auto split: if_splits)
    note h = agree_seat [OF a r(1,2) q]
    then have "j \<noteq> i" using i(2) by auto
    then show ?thesis using h r' s' by simp
  qed
qed

section \<open>Ownership of users\<close>

lemma owned_cong:
  assumes "owned pu th lv" "\<And>i. i < max_len \<Longrightarrow> pu' i = pu i" "\<And>a. th a \<Longrightarrow> th' a"
  shows "owned pu' th' lv"
  using assms unfolding owned_def by simp

lemma owned_user: "owned pu th lv \<Longrightarrow> i < max_len \<Longrightarrow> pu i = Some a \<Longrightarrow> th a \<and> a \<notin> set lv"
  unfolding owned_def by blast

text \<open>A player gives the user to a thread, or to nobody.\<close>

lemma owned_give:
  assumes "owned pu th lv" "i < max_len" "\<And>j. pu' j = (if j = i then None else pu j)"
    and "lv' = lv @ (case pu i of None \<Rightarrow> [] | Some a \<Rightarrow> [a])"
  shows "owned pu' th lv'"
proof (cases "pu i")
  case None
  then have "pu' = pu" using assms(3) by (auto simp: fun_eq_iff)
  then show ?thesis using assms(1,4) None by simp
next
  case (Some a)
  have h: "th a" "a \<notin> set lv" using owned_user [OF assms(1,2) Some] by simp_all
  have d: "pu j \<noteq> Some a" if "j < max_len" "j \<noteq> i" for j
    using assms(1,2) Some that unfolding owned_def by blast
  have 1: "th b \<and> b \<notin> set lv'" if "j < max_len" "pu' j = Some b" for j b
    using that d owned_user [OF assms(1), of j b] by (auto simp: assms(3,4) Some split: if_splits)
  have 2: "j = k" if "j < max_len" "k < max_len" "pu' j = Some b" "pu' k = Some b" for j k b
    using that assms(1) unfolding owned_def by (metis assms(3) option.distinct(1))
  have 3: "\<forall>b \<in> set lv'. th b" "distinct lv'" using assms(1,4) h Some unfolding owned_def by simp_all
  show ?thesis unfolding owned_def using 1 2 3 by blast
qed

section \<open>Changes that keep the invariant\<close>

lemma world_parts:
  assumes "world_ok w"
  shows "players_ok (w_players w)" "rooms_ok (w_rooms w)" "agree (room_no w) (seat_no w) (joined w) (seat_of w) (n_rooms w)"
    "owned (user_of w) (there w) (leaving w)" "length (players (w_players w)) = max_len" "n_rooms w = nat (max_room (w_rooms w))"
proof -
  show p: "players_ok (w_players w)" and r: "rooms_ok (w_rooms w)"
    and "agree (room_no w) (seat_no w) (joined w) (seat_of w) (n_rooms w)" "owned (user_of w) (there w) (leaving w)"
    using assms by (simp_all only: world_ok_def seats_agree_def users_owned_def)
  show "length (players (w_players w)) = max_len" using p by (simp add: players_ok_def)
  show "n_rooms w = nat (max_room (w_rooms w))" using r by (simp add: rooms_ok_def n_rooms_def)
qed

lemma world_okI:
  "players_ok (w_players w) \<Longrightarrow> rooms_ok (w_rooms w) \<Longrightarrow> agree (room_no w) (seat_no w) (joined w) (seat_of w) (n_rooms w) \<Longrightarrow>
   owned (user_of w) (there w) (leaving w) \<Longrightarrow> world_ok w"
  by (simp add: world_ok_def seats_agree_def users_owned_def)

lemma player_cong: "w_players w' = w_players w \<Longrightarrow> player i w' = player i w"
  by (simp add: player_def)

text \<open>The invariant does not look at the frames, the settings or whether the program has ended.\<close>

lemma world_ok_cong:
  assumes "w_players w' = w_players w" "w_rooms w' = w_rooms w" "w_users w' = w_users w" "leaving w' = leaving w"
  shows "world_ok w' = world_ok w"
proof -
  have "room_no w' = room_no w" "seat_no w' = seat_no w" "joined w' = joined w" "user_of w' = user_of w" "there w' = there w"
    "seat_of w' = seat_of w" "n_rooms w' = n_rooms w"
    by (simp_all add: fun_eq_iff room_no_def seat_no_def joined_def user_of_def there_def seat_of_def n_rooms_def assms player_cong [OF assms(1)])
  then show ?thesis by (simp add: world_ok_def seats_agree_def users_owned_def assms)
qed

lemma world_ok_same: "same_state w w' \<Longrightarrow> world_ok w' = world_ok w"
  by (rule world_ok_cong) (simp_all add: same_state_def leaving_def)

lemma same_state_part [simp]: "same_state w (sendmsg_part i s x y w)"
  by (simp add: sendmsg_part_def)

lemma world_ok_sends [simp]:
  "world_ok (sendmsg i m w) = world_ok w" "world_ok (sendmsg_part i s x y w) = world_ok w" "world_ok (send_seats ps f w) = world_ok w"
  by (rule world_ok_same, simp)+

lemma world_room:
  assumes "world_ok w" "r < n_rooms w"
  shows "room_ok (rooms (w_rooms w) ! r)" "length (r_players (rooms (w_rooms w) ! r)) = 4"
  using world_parts(2) [OF assms(1)] assms(2) by (simp_all add: rooms_ok_def room_ok_def n_rooms_def)

text \<open>The room a player is in, and what it holds.\<close>

definition room_of :: "'f World \<Rightarrow> nat \<Rightarrow> 'f Room" where
  "room_of w i = rooms (w_rooms w) ! nat (p_room (player i w) - 1)"

lemma world_seat:
  assumes "world_ok w" "i < max_len" "p_room (player i w) \<noteq> 0"
  shows "nat (p_room (player i w) - 1) < n_rooms w" "1 \<le> p_room (player i w)" "p_room (player i w) \<le> max_room (w_rooms w)"
    "1 \<le> p_seat (player i w)" "p_seat (player i w) \<le> 4"
    "room_at (w_rooms w) (p_room (player i w) - 1) = Inr (room_of w i)"
    "\<exists>fl. r_fishs (room_of w i) = Some fl \<and> fishs_ok fl" "\<exists>bl. r_bullets (room_of w i) = Some bl \<and> bullets_ok bl"
    "\<exists>a u. p_user (player i w) = Some a \<and> w_users w a = Some u" "p_socket (player i w) \<noteq> 0" "room_ok (room_of w i)"
    "seat_of w (nat (p_room (player i w) - 1)) (nat (p_seat (player i w) - 1)) = Some i"
proof -
  note p = world_parts [OF assms(1)]
  have a: "joined w i \<and> 1 \<le> p_room (player i w) \<and> p_room (player i w) \<le> int (n_rooms w) \<and> 1 \<le> p_seat (player i w) \<and> p_seat (player i w) \<le> 4 \<and>
    seat_of w (nat (p_room (player i w) - 1)) (nat (p_seat (player i w) - 1)) = Some i"
    using agree_player [OF p(3) assms(2)] assms(3) by (simp add: room_no_def seat_no_def)
  show s: "1 \<le> p_room (player i w)" "1 \<le> p_seat (player i w)" "p_seat (player i w) \<le> 4" "p_socket (player i w) \<noteq> 0"
    "seat_of w (nat (p_room (player i w) - 1)) (nat (p_seat (player i w) - 1)) = Some i"
    using a by (simp_all add: joined_def)
  show l: "nat (p_room (player i w) - 1) < n_rooms w" using a by linarith
  show "p_room (player i w) \<le> max_room (w_rooms w)" using a p(2,6) by (simp add: rooms_ok_def)
  show "room_at (w_rooms w) (p_room (player i w) - 1) = Inr (room_of w i)"
    using s(1) l by (simp add: room_at_in room_of_def n_rooms_def)
  obtain b where b: "user_of w i = Some b" using a by (auto simp: joined_def user_of_def)
  show "\<exists>a u. p_user (player i w) = Some a \<and> w_users w a = Some u"
    using owned_user [OF p(4) assms(2) b] b by (auto simp: there_def user_of_def)
  show ok: "room_ok (room_of w i)" using world_room [OF assms(1) l] by (simp add: room_of_def)
  have "r_players (room_of w i) ! nat (p_seat (player i w) - 1) \<noteq> None" using s(5) by (simp add: seat_of_def room_of_def)
  moreover have "nat (p_seat (player i w) - 1) < 4" using s(2,3) by simp
  ultimately have ne: "\<not> room_empty (room_of w i)" using ok room_empty_iff [of "room_of w i"] by (auto simp: room_ok_def)
  then show "\<exists>fl. r_fishs (room_of w i) = Some fl \<and> fishs_ok fl" using ok by (auto simp: room_ok_def split: option.splits)
  show "\<exists>bl. r_bullets (room_of w i) = Some bl \<and> bullets_ok bl" using ok ne by (auto simp: room_ok_def split: option.splits)
qed

text \<open>Changing what is in a room, not who sits there.\<close>

lemma put_room_nth: "k < length (rooms rs) \<Longrightarrow> rooms (put_room i r rs) ! k = (if k = nat i then r else rooms rs ! k)"
  by (simp add: put_room_def nth_list_update)

lemma put_room_simps [simp]: "length (rooms (put_room i r rs)) = length (rooms rs)" "max_room (put_room i r rs) = max_room rs"
  "curr (put_room i r rs) = curr rs"
  by (simp_all add: put_room_def)

lemma rooms_ok_put:
  assumes "rooms_ok rs" "nat k < length (rooms rs)" "room_ok r'" "r_players r' = r_players (rooms rs ! nat k)"
  shows "rooms_ok (put_room k r' rs)"
proof -
  have e: "room_empty r' = room_empty (rooms rs ! nat k)" by (simp add: room_empty_def assms(4))
  show ?thesis using assms e by (auto simp: rooms_ok_def put_room_nth)
qed

lemma world_ok_set_room:
  assumes "world_ok w" "nat k < n_rooms w" "room_ok r'" "r_players r' = r_players (rooms (w_rooms w) ! nat k)"
  shows "world_ok (set_room k r' w)"
proof -
  note p = world_parts [OF assms(1)]
  let ?w = "set_room k r' w"
  have v: "room_no ?w = room_no w" "seat_no ?w = seat_no w" "joined ?w = joined w" "user_of ?w = user_of w" "there ?w = there w"
    "leaving ?w = leaving w" "n_rooms ?w = n_rooms w"
    by (simp_all add: fun_eq_iff room_no_def seat_no_def joined_def user_of_def there_def leaving_def n_rooms_def)
  have s: "seat_of ?w r s = seat_of w r s" if "r < n_rooms w" for r s
    using assms(4) that by (simp add: seat_of_def put_room_nth n_rooms_def)
  show ?thesis
  proof (rule world_okI)
    show "rooms_ok (w_rooms ?w)" using rooms_ok_put [OF p(2)] assms by (simp add: n_rooms_def)
    show "agree (room_no ?w) (seat_no ?w) (joined ?w) (seat_of ?w) (n_rooms ?w)"
      unfolding v by (rule agree_cong [OF p(3)]) (simp_all add: s)
  qed (use p v in simp_all)
qed

text \<open>Changing a user that is there.\<close>

lemma world_ok_set_user:
  assumes "world_ok w" "there w a"
  shows "world_ok (set_user (Some a) u w)"
proof -
  note p = world_parts [OF assms(1)]
  let ?w = "set_user (Some a) u w"
  have v: "room_no ?w = room_no w" "seat_no ?w = seat_no w" "joined ?w = joined w" "user_of ?w = user_of w" "seat_of ?w = seat_of w"
    "leaving ?w = leaving w" "n_rooms ?w = n_rooms w"
    by (simp_all add: fun_eq_iff room_no_def seat_no_def joined_def user_of_def seat_of_def leaving_def n_rooms_def)
  have t: "there ?w = there w" using assms(2) by (auto simp: fun_eq_iff there_def set_user_def)
  show ?thesis by (rule world_okI) (use p v t in simp_all)
qed

text \<open>Changing the other fields of a connected player.\<close>

lemma world_ok_set_player:
  assumes "world_ok w" "i < max_len" "p_socket (player i w) \<noteq> 0"
    and "\<And>p. p_socket (f p) = p_socket p \<and> p_index (f p) = p_index p \<and> p_room (f p) = p_room p \<and> p_seat (f p) = p_seat p \<and>
      p_user (f p) = p_user p \<and> p_save_uid (f p) = p_save_uid p \<and> p_closeing (f p) = p_closeing p"
  shows "world_ok (set_player i f w)"
proof -
  note p = world_parts [OF assms(1)]
  let ?w = "set_player i f w"
  have pl: "player j ?w = (if i = j then f (player i w) else player j w)" for j using assms(2) p(5) by simp
  have v: "room_no ?w = room_no w" "seat_no ?w = seat_no w" "joined ?w = joined w" "user_of ?w = user_of w" "seat_of ?w = seat_of w"
    "leaving ?w = leaving w" "n_rooms ?w = n_rooms w" "there ?w = there w"
    using assms(4) by (auto simp: fun_eq_iff room_no_def seat_no_def joined_def user_of_def seat_of_def leaving_def n_rooms_def there_def pl)
  note f = assms(4) [of "player i w"]
  have k: "player_ok i (player i w)" using players_ok_at [OF p(1) assms(2)] by (simp add: player_def)
  have "players_ok (put_player i f (w_players w))"
    by (rule players_ok_put [OF p(1) assms(2), of "f (player i w)"]) (use f k assms(3) in \<open>simp_all add: player_def player_ok_def\<close>)
  then have "players_ok (w_players ?w)" by (simp add: set_player_def)
  then show ?thesis using p v by (intro world_okI) simp_all
qed

section \<open>Leaving\<close>

definition fits :: "'f env \<Rightarrow> 'f World \<Rightarrow> bool" where
  "fits e w \<longleftrightarrow> (\<forall>r < n_rooms w. room_fits (fuel e) (rooms (w_rooms w) ! r))"

lemma world_leave_ok:
  assumes "world_ok w" "fits e w" "i < max_len"
  shows "\<exists>w'. world_leave e i w = Inr w' \<and> world_ok w' \<and> p_room (player i w') = 0 \<and> p_socket (player i w') = p_socket (player i w) \<and>
    p_user (player i w') = p_user (player i w) \<and> (\<forall>j. j \<noteq> i \<longrightarrow> player j w' = player j w) \<and> w_users w' = w_users w \<and>
    w_acts w' = w_acts w \<and> w_out w' = w_out w \<and> w_setting w' = w_setting w \<and> w_exited w' = w_exited w \<and> curr (w_rooms w') = curr (w_rooms w)"
proof (cases "p_room (player i w) = 0")
  case True
  have n: "set_player i (\<lambda>_. player i w) (w\<lparr>w_rooms := w_rooms w\<rparr>) = w"
    using assms(3) world_parts(5) [OF assms(1)] by (simp add: set_player_def put_player_def player_def)
  then have "world_leave e i w = Inr w" using True by (simp add: world_leave_def rooms_leave_def)
  then show ?thesis using assms(1) True by auto
next
  case False
  note s = world_seat [OF assms(1,3) False]
  note p = world_parts [OF assms(1)]
  let ?p = "player i w" let ?q = "?p\<lparr>p_room := 0, p_seat := 0\<rparr>"
  have fr: "room_fits (fuel e) (rooms (w_rooms w) ! nat (p_room ?p - 1))" using assms(2) s(1) by (simp add: fits_def)
  obtain rs r' where r: "rooms_leave (fuel e) ?p (w_rooms w) = Inr (?q, rs)" "rooms_ok rs"
    "rs = put_room (p_room ?p - 1) r' (w_rooms w)"
    "r_players r' = (r_players (rooms (w_rooms w) ! nat (p_room ?p - 1)))[nat (p_seat ?p - 1) := None]"
    using rooms_leave_ok [OF p(2) s(2-5) fr] by blast
  define w' where "w' = set_player i (\<lambda>_. ?q) (w\<lparr>w_rooms := rs\<rparr>)"
  have e: "world_leave e i w = Inr w'" by (simp add: world_leave_def r(1) w'_def)
  have pl: "player j w' = (if i = j then ?q else player j w)" for j
    using assms(3) p(5) by (simp add: w'_def player_def set_player_def)
  have v1: "user_of w' = user_of w" by (simp add: fun_eq_iff user_of_def pl)
  have v: "there w' = there w" "leaving w' = leaving w" "n_rooms w' = n_rooms w" "w_rooms w' = rs"
    by (simp_all add: fun_eq_iff there_def leaving_def n_rooms_def w'_def r(3))
  have "world_ok w'"
  proof (rule world_okI)
    have "player_ok i ?p" using players_ok_at [OF p(1) assms(3)] by (simp add: player_def)
    then show "players_ok (w_players w')"
      unfolding w'_def set_player_def using s(10) players_ok_put [OF p(1) assms(3), of ?q "\<lambda>_. ?q"]
      by (simp add: player_def player_ok_def)
    show "rooms_ok (w_rooms w')" using r(2) v(4) by simp
    show "agree (room_no w') (seat_no w') (joined w') (seat_of w') (n_rooms w')"
      unfolding v(3)
    proof (rule agree_leave [OF p(3) assms(3)])
      show "room_no w i \<noteq> 0" using False by (simp add: room_no_def)
      fix r t assume rt: "r < n_rooms w" "t < (4 :: nat)"
      show "seat_of w' r t = (if r = nat (room_no w i - 1) \<and> t = nat (seat_no w i - 1) then None else seat_of w r t)"
        using rt world_room(2) [OF assms(1) s(1)] s(1)
        by (auto simp: seat_of_def v(4) r(3,4) put_room_nth n_rooms_def room_no_def seat_no_def nth_list_update)
    qed (simp_all add: room_no_def seat_no_def joined_def pl)
    show "owned (user_of w') (there w') (leaving w')" using p(4) v v1 by simp
  qed
  then show ?thesis using e pl by (auto simp: w'_def r(3))
qed

end
