(* ===== verification/Joining.thy ===== *)
theory Joining
  imports Invariant
begin

text \<open>
  Entering and leaving a room: under the invariant and with names that fit the message
  buffers, \<open>inRoom\<close> takes the first free seat of the current room, tells the room, opens it
  for the first player, and keeps the invariant.
\<close>

section \<open>The messages fit\<close>

lemma find_room_text_fits:
  assumes "length (show_str name) + length (dec_int uid) + length (dec_int room) \<le> 20" "1 \<le> seat" "seat \<le> 4" "0 \<le> t" "t < 4000000000000000"
  shows "length (find_room_text uid name room seat t) < 100"
proof -
  have "seat = 1 \<or> seat = 2 \<or> seat = 3 \<or> seat = 4" using assms(2,3) by auto
  then have "length (dec_int seat) = 1" by (auto simp: dec_int_def dec_nat.simps)
  then show ?thesis using assms(1) length_fmt_time [OF assms(4,5)] by (simp add: find_room_text_def)
qed

text \<open>The environment: random numbers are not negative, times are those of a clock, a fish is configured.\<close>

definition env_ok :: "'f env \<Rightarrow> 'f World \<Rightarrow> bool" where
  "env_ok e w \<longleftrightarrow> (\<forall>j. 0 \<le> rnd e j) \<and> (\<forall>k. 0 \<le> mtime k e \<and> mtime k e < 4000000000000000) \<and> fish (w_setting w) \<noteq> []"

text \<open>The names of the users of a room and of the newcomer leave room for the numbers.\<close>

definition name_fits :: "int \<Rightarrow> 'f World \<Rightarrow> nat \<Rightarrow> bool" where
  "name_fits room w j \<longleftrightarrow> (\<forall>u. user_at w (p_user (player j w)) = Inr u \<longrightarrow>
     length (show_str (u_name u)) + length (dec_int (p_uid (player j w))) + length (dec_int room) \<le> 20)"

lemma user_at_cong: "w_users w' = w_users w \<Longrightarrow> user_at w' a = user_at w a"
  by (simp add: user_at_def split: option.splits)

lemma same_user: "same_state w w' \<Longrightarrow> user_at w' a = user_at w a"
  by (simp add: user_at_def same_state_def split: option.splits)

lemma same_player: "same_state w w' \<Longrightarrow> player j w' = player j w"
  by (simp add: player_def same_state_def)

lemma name_fits_same: "same_state w w' \<Longrightarrow> name_fits room w' j = name_fits room w j"
  by (simp add: name_fits_def same_user same_player)

definition seat_known :: "int \<Rightarrow> 'f World \<Rightarrow> nat \<Rightarrow> bool" where
  "seat_known room w j \<longleftrightarrow> (\<exists>u. user_at w (p_user (player j w)) = Inr u) \<and> name_fits room w j \<and>
     1 \<le> p_seat (player j w) \<and> p_seat (player j w) \<le> 4"

lemma seat_known_same: "same_state w w' \<Longrightarrow> seat_known room w' j = seat_known room w j"
  by (simp add: seat_known_def name_fits_same same_user same_player)

lemma tell_seats_ok:
  "(\<And>j. Some j \<in> set ps \<Longrightarrow> seat_known room w j) \<Longrightarrow> env_ok e w0 \<Longrightarrow>
   \<exists>w'. tell_seats e i room k ps w = Inr w' \<and> same_state w w'"
proof (induction ps arbitrary: k w)
  case (Cons p ps)
  have step: "\<exists>w1. (case p of None \<Rightarrow> Inr w
       | Some j \<Rightarrow>
           if p_socket (player j w) \<noteq> 0 \<and> p_uid (player j w) \<noteq> p_uid (player i w) \<and> p_user (player j w) \<noteq> None
           then rbind (user_at w (p_user (player j w))) (\<lambda>u.
             rbind (sprintf_buf 100 (find_room_text (p_uid (player j w)) (u_name u) room (p_seat (player j w)) (mtime (2 + k) e))) (\<lambda>s.
               Inr (sendmsg i s w)))
           else Inr w) = Inr w1 \<and> same_state w w1"
  proof (cases p)
    case (Some j)
    then have s: "seat_known room w j" using Cons.prems(1) by simp
    then obtain u where u: "user_at w (p_user (player j w)) = Inr u" by (auto simp: seat_known_def)
    have "length (find_room_text (p_uid (player j w)) (u_name u) room (p_seat (player j w)) (mtime (2 + k) e)) < 100"
      using s u Cons.prems(2) by (intro find_room_text_fits) (auto simp: seat_known_def name_fits_def env_ok_def)
    then show ?thesis using Some u by (simp add: sprintf_buf_def)
  qed simp
  then obtain w1 where w1: "(case p of None \<Rightarrow> Inr w
       | Some j \<Rightarrow>
           if p_socket (player j w) \<noteq> 0 \<and> p_uid (player j w) \<noteq> p_uid (player i w) \<and> p_user (player j w) \<noteq> None
           then rbind (user_at w (p_user (player j w))) (\<lambda>u.
             rbind (sprintf_buf 100 (find_room_text (p_uid (player j w)) (u_name u) room (p_seat (player j w)) (mtime (2 + k) e))) (\<lambda>s.
               Inr (sendmsg i s w)))
           else Inr w) = Inr w1" "same_state w w1" by blast
  have "seat_known room w1 j" if "Some j \<in> set ps" for j
    using Cons.prems(1) [of j] that by (simp add: seat_known_same [OF w1(2)])
  then obtain w' where "tell_seats e i room (Suc k) ps w1 = Inr w'" "same_state w1 w'"
    using Cons.IH [of w1 "Suc k"] Cons.prems(2) by blast
  then show ?case using w1 same_state_trans by (auto simp only: tell_seats.simps rbind_Inr)
qed simp

section \<open>Opening a room\<close>

lemma first_fish:
  assumes "env_ok e w"
  shows "\<exists>l f s. fishs_create (Suc (fuel e)) (fuel e) (rnd e) (fresh e) (w_setting w) (mtime 7 e) fishs_init = Inr (Some (fresh e), l) \<and>
    fishs_ok l \<and> map fst (nl_items l) = [fresh e] \<and> nl_look l (fresh e) = Inr (f, None) \<and> fishJson f = Inr s"
proof -
  have i: "fishs_ok fishs_init" "nl_items fishs_init = []" using fishs_init_ok by simp_all
  obtain p s l where r: "fishs_create (Suc (fuel e)) (fuel e) (rnd e) (fresh e) (w_setting w) (mtime 7 e) fishs_init = Inr (Some (fresh e), l)"
    "fishs_ok l" "nl_items l = nl_items fishs_init @ [(fresh e, p)]" "fishJson p = Inr s"
    using create_announces [OF i(1), of "fresh e" "fuel e" "Suc (fuel e)" "rnd e" "w_setting w" "mtime 7 e"] assms i(2)
    by (auto simp: env_ok_def)
  have "nl_look l (fresh e) = Inr (p, first (map fst ([] :: (nat \<times> Fish) list)))"
    using fishs.look_law [OF r(2), of "[]" "fresh e" p "[]"] r(3) i(2) by simp
  then show ?thesis using r i(2) by auto
qed

text \<open>What \<open>open_room\<close> leaves behind in the room.\<close>

definition opened :: "'f env \<Rightarrow> Fishs \<Rightarrow> 'f Room \<Rightarrow> 'f Room" where
  "opened e fl r = (if r_fishs r = None
     then r\<lparr>r_create_time := mtime 6 e, r_fishs := Some fl, r_bullets := Some bullets_init\<rparr> else r)"

lemma put_room_same: "room_at rs k = Inr r \<Longrightarrow> put_room k r rs = rs"
  by (auto simp: room_at_def put_room_def rd_arr_def split: if_splits)

lemma open_room_ok:
  assumes "env_ok e w" "room_at (w_rooms w) (room - 1) = Inr r"
  shows "\<exists>fl w'. fishs_ok fl \<and> (r_fishs r = None \<longrightarrow> map fst (nl_items fl) = [fresh e]) \<and> open_room e i room w = Inr w' \<and> same_state (set_room (room - 1) (opened e fl r) w) w'"
proof (cases "r_fishs r")
  case None
  obtain l f s where l: "fishs_create (Suc (fuel e)) (fuel e) (rnd e) (fresh e) (w_setting w) (mtime 7 e) fishs_init = Inr (Some (fresh e), l)"
    "fishs_ok l" "map fst (nl_items l) = [fresh e]" "nl_look l (fresh e) = Inr (f, None)" "fishJson f = Inr s"
    using first_fish [OF assms(1)] by (elim exE conjE) (rule that; assumption)
  have "open_room e i room w = Inr (sendmsg i s (set_room (room - 1) (opened e l r) w))"
    using None l assms(2) by (simp add: open_room_def opened_def)
  then show ?thesis using l(2,3) by auto
next
  case (Some fl)
  have "opened e fishs_init r = r" using Some by (simp add: opened_def)
  moreover have "set_room (room - 1) r w = w" using put_room_same [OF assms(2)] by (simp add: set_room_def)
  moreover have "open_room e i room w = Inr w" using Some assms(2) by (simp add: open_room_def)
  ultimately show ?thesis using fishs_init_ok Some by (intro exI [of _ fishs_init] exI [of _ w]) simp
qed

section \<open>\<open>inRoom\<close>\<close>

text \<open>The world with player \<open>i\<close> on the seat, before the room is opened.\<close>

definition sit :: "'f env \<Rightarrow> nat \<Rightarrow> int \<Rightarrow> int \<Rightarrow> 'f World \<Rightarrow> 'f World" where
  "sit e i room seat w =
     (let r = rooms (w_rooms w) ! nat (room - 1)
      in set_room (room - 1) (r\<lparr>r_players := (r_players r)[nat (seat - 1) := Some i]\<rparr>)
           (set_player i (\<lambda>p. p\<lparr>p_room := room, p_seat := seat, p_game_time := now e\<rparr>) w))"

lemma take_seat_sit:
  assumes "1 \<le> room" "nat (room - 1) < length (rooms (w_rooms w))" "1 \<le> seat" "seat \<le> 4"
    and "length (r_players (rooms (w_rooms w) ! nat (room - 1))) = 4"
  shows "take_seat e i room seat w = Inr (sit e i room seat w)"
proof -
  have "nat (seat - 1) < 4" using assms(3,4) by simp
  then show ?thesis using assms by (simp add: take_seat_def sit_def Let_def room_at_in)
qed

lemma put_room_put [simp]: "put_room k a (put_room k b rs) = put_room k a rs"
  by (simp add: put_room_def)

lemma sit_ok:
  fixes w :: "'f World"
  assumes "world_ok w" "i < max_len" "p_room (player i w) = 0" "joined w i"
    and f: "findRoom (w_rooms w) = Inr (room, seat, rs)" "room \<noteq> 0" and fl: "fishs_ok fl"
    and W: "ws = sit e i room seat (w\<lparr>w_rooms := rs\<rparr>)" "r1 = rooms (w_rooms ws) ! nat (room - 1)" "W = set_room (room - 1) (opened e fl r1) ws"
  shows "world_ok W \<and> player i W = (player i w)\<lparr>p_room := room, p_seat := seat, p_game_time := now e\<rparr> \<and>
    (\<forall>j. j \<noteq> i \<longrightarrow> player j W = player j w) \<and> w_users W = w_users w \<and> w_acts W = w_acts w \<and> w_setting W = w_setting w \<and>
    w_exited W = w_exited w \<and> w_out W = w_out w"
proof -
  note p = world_parts [OF assms(1)]
  let ?k = "nat (room - 1)" and ?s = "nat (seat - 1)"
  define r where "r = rooms (w_rooms w) ! ?k"
  define q where "q = (player i w)\<lparr>p_room := room, p_seat := seat, p_game_time := now e\<rparr>"
  have bi: "bullets_ok (bullets_init :: 'f Bullets)" using bullets_init_ok [where 'f = 'f] by simp
  define r' where "r' = (if r_fishs r = None
     then r\<lparr>r_players := (r_players r)[?s := Some i], r_create_time := mtime 6 e, r_fishs := Some fl, r_bullets := Some bullets_init\<rparr>
     else r\<lparr>r_players := (r_players r)[?s := Some i]\<rparr>)"
  have t: "rooms_ok (put_room (room - 1) r' rs)" "1 \<le> room" "room \<le> max_room (w_rooms w)" "1 \<le> seat" "seat \<le> 4"
    "r_players r ! ?s = None" "rooms rs = rooms (w_rooms w)" "max_room rs = max_room (w_rooms w)"
    using take_seat_ok [OF p(2) f fl bi r_def r'_def] by blast+
  have k: "?k < n_rooms w" using t(2,3) p(6) by simp
  have len: "length (r_players r) = 4" using world_room(2) [OF assms(1) k] by (simp add: r_def)
  have s4: "?s < 4" using t(4,5) by simp
  have r1: "r1 = r\<lparr>r_players := (r_players r)[?s := Some i]\<rparr>"
    using k by (simp add: W(1,2) sit_def Let_def put_room_nth t(7) r_def n_rooms_def)
  have op: "opened e fl r1 = r'" by (simp add: r1 r'_def opened_def)
  have rw: "w_rooms W = put_room (room - 1) r' rs" by (simp add: W(3) op) (simp add: W(1) sit_def Let_def)
  have pl: "player j W = (if j = i then q else player j w)" for j
    using assms(2) p(5) by (simp add: W(3)) (simp add: W(1) sit_def Let_def q_def player_def set_player_def)
  have fr: "w_users W = w_users w" "w_acts W = w_acts w" "w_setting W = w_setting w" "w_exited W = w_exited w" "w_out W = w_out w"
    by (simp_all add: W(1,3) sit_def Let_def)
  have v: "user_of W = user_of w" "there W = there w" "leaving W = leaving w" "n_rooms W = n_rooms w"
    by (simp_all add: fun_eq_iff user_of_def there_def leaving_def n_rooms_def pl fr q_def rw t(7))
  have "world_ok W"
  proof (rule world_okI)
    have pk: "player_ok i (player i w)" using players_ok_at [OF p(1) assms(2)] by (simp add: player_def)
    have ps: "w_players W = put_player i (\<lambda>p. p\<lparr>p_room := room, p_seat := seat, p_game_time := now e\<rparr>) (w_players w)"
      by (simp add: W(3)) (simp add: W(1) sit_def Let_def set_player_def)
    show "players_ok (w_players W)" unfolding ps
      by (rule players_ok_put [OF p(1) assms(2), of q])
        (use pk assms(4) in \<open>simp_all add: joined_def player_def player_ok_def q_def\<close>)
    show "rooms_ok (w_rooms W)" using t(1) rw by simp
    show "agree (room_no W) (seat_no W) (joined W) (seat_of W) (n_rooms W)" unfolding v(4)
    proof (rule agree_take [OF p(3) assms(2) _ assms(4) t(2) _ t(4,5)])
      show "room_no w i = 0" using assms(3) by (simp add: room_no_def)
      show "room \<le> int (n_rooms w)" using t(2,3) p(6) by simp
      show "seat_of w ?k ?s = None" using t(6) by (simp add: seat_of_def r_def)
      fix a b assume ab: "a < n_rooms w" "b < (4 :: nat)"
      have "r_players r' = (r_players r)[?s := Some i]" by (simp add: r'_def)
      then show "seat_of W a b = (if a = ?k \<and> b = ?s then Some i else seat_of w a b)"
        using ab len by (auto simp: seat_of_def rw put_room_nth n_rooms_def t(7) r_def nth_list_update)
    next
      show "\<And>j. joined w j \<Longrightarrow> joined W j" by (auto simp: joined_def pl q_def)
    qed (simp_all add: room_no_def seat_no_def pl q_def)
    show "owned (user_of W) (there W) (leaving W)" using p(4) v by simp
  qed
  then show ?thesis using pl fr by (simp add: q_def)
qed

text \<open>Everybody on a seat of the room is known, once the newcomer sits.\<close>

lemma seated_known:
  assumes "world_ok w" "r < n_rooms w" "Some j \<in> set (r_players (rooms (w_rooms w) ! r))"
  shows "\<exists>u. user_at w (p_user (player j w)) = Inr u" "1 \<le> p_seat (player j w)" "p_seat (player j w) \<le> 4"
    "j < max_len" "p_room (player j w) = int r + 1"
proof -
  note p = world_parts [OF assms(1)]
  obtain s where s: "s < 4" "seat_of w r s = Some j"
    using assms(3) world_room(2) [OF assms(1,2)] by (auto simp: in_set_conv_nth seat_of_def)
  have a: "j < max_len \<and> room_no w j = int r + 1 \<and> seat_no w j = int s + 1" by (rule agree_seat [OF p(3) assms(2) s])
  then show "j < max_len" "p_room (player j w) = int r + 1" by (simp_all add: room_no_def)
  then have "p_room (player j w) \<noteq> 0" by simp
  note ws = world_seat [OF assms(1) \<open>j < max_len\<close> this]
  show "1 \<le> p_seat (player j w)" "p_seat (player j w) \<le> 4" by (rule ws)+
  show "\<exists>u. user_at w (p_user (player j w)) = Inr u" using ws(9) by (auto simp: user_at_def)
qed

text \<open>
  The rooms after \<open>inRoom\<close>: player \<open>i\<close> is on the seat, a room that had no fish has been given
  one and an empty list of bullets, everything else in the rooms is as it was, and the search
  goes on in the next room when the fourth seat has been taken.
\<close>

definition seat_given :: "'f env \<Rightarrow> nat \<Rightarrow> int \<Rightarrow> 'f World \<Rightarrow> 'f Rooms \<Rightarrow> bool" where
  "seat_given e i seat w rs \<longleftrightarrow> (let c = curr (w_rooms w); r = rooms (w_rooms w) ! nat c; r1 = r\<lparr>r_players := (r_players r)[nat (seat - 1) := Some i]\<rparr>
     in \<exists>fl. fishs_ok fl \<and> (r_fishs r1 = None \<longrightarrow> map fst (nl_items fl) = [fresh e]) \<and>
        rs = put_room c (opened e fl r1) ((w_rooms w)\<lparr>curr := (if seat = 4 then c + 1 else c)\<rparr>))"

lemma inRoom_ok:
  assumes "world_ok w" "env_ok e w" "i < max_len" "p_room (player i w) = 0" "joined w i"
    and "curr (w_rooms w) < max_room (w_rooms w)" "\<And>j. j < max_len \<Longrightarrow> name_fits (curr (w_rooms w) + 1) w j"
  shows "\<exists>w' seat. inRoom e i w = Inr w' \<and> world_ok w' \<and> 1 \<le> seat \<and> seat \<le> 4 \<and>
    seat_of w (nat (curr (w_rooms w))) (nat (seat - 1)) = None \<and>
    (\<forall>k. 1 \<le> k \<and> k < seat \<longrightarrow> seat_of w (nat (curr (w_rooms w))) (nat (k - 1)) \<noteq> None) \<and>
    player i w' = (player i w)\<lparr>p_room := curr (w_rooms w) + 1, p_seat := seat, p_game_time := now e\<rparr> \<and>
    (\<forall>j. j \<noteq> i \<longrightarrow> player j w' = player j w) \<and> w_users w' = w_users w \<and> w_acts w' = w_acts w \<and> w_setting w' = w_setting w \<and>
    w_exited w' = w_exited w \<and> seat_given e i seat w (w_rooms w')"
proof -
  note p = world_parts [OF assms(1)]
  let ?c = "curr (w_rooms w)"
  obtain j where j: "findRoom (w_rooms w) = Inr (?c + 1, int j + 1, (w_rooms w)\<lparr>curr := (if j = 3 then ?c + 1 else ?c)\<rparr>)" "j < 4"
    "r_players (rooms (w_rooms w) ! nat ?c) ! j = None" "\<forall>k < j. r_players (rooms (w_rooms w) ! nat ?c) ! k \<noteq> None"
    using findRoom_seat [OF p(2) assms(6)] by blast
  define room seat rs where "room = ?c + 1" and "seat = int j + 1" and "rs = (w_rooms w)\<lparr>curr := (if j = 3 then ?c + 1 else ?c)\<rparr>"
  have c0: "0 \<le> ?c" using p(2) by (simp add: rooms_ok_def)
  have f: "findRoom (w_rooms w) = Inr (room, seat, rs)" "room \<noteq> 0" using j(1) c0 by (simp_all add: room_def seat_def rs_def)
  have b: "1 \<le> room" "nat (room - 1) < length (rooms rs)" "1 \<le> seat" "seat \<le> 4" "nat (room - 1) < n_rooms w"
    using c0 j(2) assms(6) p(2,6) by (simp_all add: room_def seat_def rs_def rooms_ok_def)
  have l4: "length (r_players (rooms rs ! nat (room - 1))) = 4" using world_room(2) [OF assms(1) b(5)] by (simp add: rs_def)
  define ws where "ws = sit e i room seat (w\<lparr>w_rooms := rs\<rparr>)"
  have ts: "take_seat e i room seat (w\<lparr>w_rooms := rs\<rparr>) = Inr ws"
    using take_seat_sit [of room "w\<lparr>w_rooms := rs\<rparr>" seat] b l4 by (simp add: ws_def)
  note so = sit_ok [OF assms(1,3,4,5) f _ ws_def refl refl]
  have fs: "w_setting ws = w_setting w" "w_users ws = w_users w" by (simp_all add: ws_def sit_def Let_def)
  have pl: "player i ws = (player i w)\<lparr>p_room := room, p_seat := seat, p_game_time := now e\<rparr>" "\<And>k. k \<noteq> i \<Longrightarrow> player k ws = player k w"
    using so [of fishs_init] fishs_init_ok by simp_all
  obtain u where u: "user_at w (p_user (player i w)) = Inr u"
    using assms(5) owned_user [OF p(4) assms(3)] by (auto simp: joined_def user_at_def user_of_def there_def split: option.splits)
  have u2: "user_at ws (p_user (player i ws)) = Inr u" using u by (simp add: pl user_at_cong [OF fs(2)])
  have "length (find_room_text (p_uid (player i ws)) (u_name u) room seat (mtime 1 e)) < 100"
    using assms(2,7) [unfolded env_ok_def name_fits_def] assms(3) u b by (intro find_room_text_fits) (auto simp: pl room_def)
  then have sb: "sprintf_buf 100 (find_room_text (p_uid (player i ws)) (u_name u) room seat (mtime 1 e)) =
      Inr (find_room_text (p_uid (player i ws)) (u_name u) room seat (mtime 1 e))" by (simp add: sprintf_buf_def)
  define r1 where "r1 = rooms (w_rooms ws) ! nat (room - 1)"
  have nr: "length (rooms (w_rooms ws)) = n_rooms w" by (simp add: ws_def sit_def Let_def rs_def n_rooms_def)
  have ra: "room_at (w_rooms ws) (room - 1) = Inr r1" using b nr by (simp add: room_at_in r1_def)
  obtain w3 where w3: "sendmsgToRoom i (find_room_text (p_uid (player i ws)) (u_name u) room seat (mtime 1 e)) ws = Inr w3" "same_state ws w3"
    using b ra by (auto simp: sendmsgToRoom_def pl)
  have ra3: "room_at (w_rooms w3) (room - 1) = Inr r1" using ra w3(2) by (simp add: same_state_def)
  let ?W = "set_room (room - 1) (opened e fishs_init r1) ws"
  have ok: "world_ok ?W" using so [of fishs_init] fishs_init_ok by (simp add: r1_def)
  have known: "seat_known room w3 k" if "Some k \<in> set (r_players r1)" for k
  proof -
    have nW: "n_rooms ?W = n_rooms w" using nr by (simp add: n_rooms_def)
    have "Some k \<in> set (r_players (rooms (w_rooms ?W) ! nat (room - 1)))"
      using that b nr by (simp add: put_room_nth opened_def)
    note sk = seated_known [OF ok, of "nat (room - 1)", unfolded nW, OF b(5) this]
    have "user_at ?W = user_at ws" by (rule ext, rule user_at_cong) simp
    then have e: "player k ?W = player k ws" "user_at ?W = user_at ws" by simp_all
    have "name_fits room ws k"
      using assms(7) [of k] sk(4) pl(2) [of k] assms(3) pl(1) by (cases "k = i") (simp_all add: name_fits_def user_at_cong [OF fs(2)] room_def)
    then have "seat_known room ws k" using sk(1-3) unfolding seat_known_def e by blast
    then show ?thesis by (simp add: seat_known_same [OF w3(2)])
  qed
  obtain w4 where w4: "tell_seats e i room 0 (r_players r1) w3 = Inr w4" "same_state w3 w4"
    using tell_seats_ok [OF known assms(2)] by blast
  have s4: "same_state ws w4" by (rule same_state_trans [OF w3(2) w4(2)])
  have ra4: "room_at (w_rooms w4) (room - 1) = Inr r1" using ra s4 by (simp add: same_state_def)
  have e4: "env_ok e w4" using assms(2) s4 fs by (simp add: env_ok_def same_state_def)
  obtain fl w5 where w5: "fishs_ok fl" "open_room e i room w4 = Inr w5" "same_state (set_room (room - 1) (opened e fl r1) w4) w5"
    and one: "r_fishs r1 = None \<longrightarrow> map fst (nl_items fl) = [fresh e]"
    using open_room_ok [OF e4 ra4, where i = i] by (elim exE conjE) (rule that; assumption)
  define W where "W = set_room (room - 1) (opened e fl r1) ws"
  have W5: "same_state W w5"
    using w5(3) s4 by (simp add: W_def same_state_def)
  have fin: "world_ok W \<and> player i W = (player i w)\<lparr>p_room := room, p_seat := seat, p_game_time := now e\<rparr> \<and>
    (\<forall>j. j \<noteq> i \<longrightarrow> player j W = player j w) \<and> w_users W = w_users w \<and> w_acts W = w_acts w \<and> w_setting W = w_setting w \<and> w_exited W = w_exited w"
    using so [OF w5(1)] unfolding W_def r1_def by blast
  have "inRoom e i w = Inr w5"
    using assms(4,5) f u2 sb ts w3(1) ra3 w4(1) w5(2) by (auto simp: inRoom_def joined_def)
  moreover have "seat_of w (nat ?c) (nat (seat - 1)) = None" using j(3) by (simp add: seat_of_def seat_def)
  moreover have "seat_of w (nat ?c) (nat (k - 1)) \<noteq> None" if "1 \<le> k" "k < seat" for k
    using j(4) that by (simp add: seat_of_def seat_def)
  moreover have "seat_given e i seat w (w_rooms w5)"
  proof -
    have "r1 = (rooms (w_rooms w) ! nat ?c)\<lparr>r_players := (r_players (rooms (w_rooms w) ! nat ?c))[nat (seat - 1) := Some i]\<rparr>"
      using b nr by (simp add: r1_def ws_def sit_def Let_def put_room_nth) (simp add: rs_def room_def)
    moreover have "w_rooms w5 = put_room (room - 1) (opened e fl r1) rs"
      using W5 by (simp add: same_state_def W_def) (simp add: ws_def sit_def Let_def)
    moreover have "(seat = 4) = (j = 3)" by (simp add: seat_def)
    ultimately show ?thesis using w5(1) one unfolding seat_given_def Let_def by (intro exI [of _ fl]) (simp add: rs_def room_def)
  qed
  ultimately show ?thesis
    using fin W5 b by (intro exI [of _ w5] exI [of _ seat])
      (simp add: world_ok_same [OF W5] same_player [OF W5] room_def, simp add: same_state_def)
qed

end
