(* ===== verification/Shooting.thy ===== *)
theory Shooting
  imports Joining
begin

text \<open>
  Leaving, shooting and hitting under the invariant: what the handlers change, whom they tell,
  and that they keep the invariant.
\<close>

section \<open>Leaving\<close>

lemma leaveRoom_ok:
  assumes "world_ok w" "fits e w" "i < max_len"
  shows "\<exists>w'. leaveRoom e i w = Inr w' \<and> world_ok w' \<and> p_room (player i w') = 0 \<and> p_socket (player i w') = p_socket (player i w) \<and>
    p_user (player i w') = p_user (player i w) \<and> (\<forall>j. j \<noteq> i \<longrightarrow> player j w' = player j w) \<and> w_users w' = w_users w \<and>
    w_acts w' = w_acts w \<and> w_setting w' = w_setting w \<and> w_exited w' = w_exited w \<and> curr (w_rooms w') = curr (w_rooms w)"
  using world_leave_ok [OF assms] by (auto simp: leaveRoom_def)

text \<open>Closing a connection: the seat, the record and the user are given up.\<close>

lemma world_remove_ok:
  assumes "world_ok w" "i < max_len" "p_room (player i w) = 0"
  shows "world_ok (world_remove i w) \<and> player i (world_remove i w) = no_player \<and> (\<forall>j. j \<noteq> i \<longrightarrow> player j (world_remove i w) = player j w) \<and>
    w_users (world_remove i w) = w_users w \<and> w_rooms (world_remove i w) = w_rooms w"
proof -
  note p = world_parts [OF assms(1)]
  let ?w = "world_remove i w"
  obtain ps where ps: "players_remove i (w_players w) =
      ((if p_socket (player i w) = 0 then []
        else CloseSocket (p_socket (player i w)) # (case p_user (player i w) of None \<Rightarrow> [] | Some a \<Rightarrow> [StartUserLeave a])), ps)"
    "players_ok ps" "players ps = (players (w_players w))[i := no_player]"
    using players_remove_spec [OF p(1) assms(2)] unfolding player_def by blast
  have pl: "player j ?w = (if j = i then no_player else player j w)" for j
    using assms(2) p(5) by (simp add: world_remove_def ps(1) player_def ps(3) nth_list_update)
  have fr: "w_users ?w = w_users w" "w_rooms ?w = w_rooms w" "w_players ?w = ps" by (simp_all add: world_remove_def ps(1))
  have "player_ok i (player i w)" using players_ok_at [OF p(1) assms(2)] by (simp add: player_def)
  then have z: "p_socket (player i w) = 0 \<longrightarrow> p_user (player i w) = None" by (auto simp: player_ok_def)
  have lv: "leaving ?w = leaving w @ (case user_of w i of None \<Rightarrow> [] | Some a \<Rightarrow> [a])"
    using z by (auto simp: leaving_def world_remove_def ps(1) user_of_def split: option.splits)
  have "world_ok ?w"
  proof (rule world_okI)
    show "players_ok (w_players ?w)" using ps(2) by (simp add: fr)
    show "rooms_ok (w_rooms ?w)" using p(2) by (simp add: fr)
    have n: "n_rooms ?w = n_rooms w" by (simp add: n_rooms_def fr)
    have so: "seat_of w r s \<noteq> Some i" if "r < n_rooms w" "s < 4" for r s
      using agree_seat [OF p(3) that, of i] assms(3) by (auto simp: room_no_def)
    show "agree (room_no ?w) (seat_no ?w) (joined ?w) (seat_of ?w) (n_rooms ?w)" unfolding n
    proof (rule agreeI)
      fix j assume j: "j < max_len" "room_no ?w j \<noteq> 0"
      then have ne: "j \<noteq> i" by (auto simp: room_no_def pl)
      then show "joined ?w j \<and> 1 \<le> room_no ?w j \<and> room_no ?w j \<le> int (n_rooms w) \<and> 1 \<le> seat_no ?w j \<and> seat_no ?w j \<le> 4 \<and>
          seat_of ?w (nat (room_no ?w j - 1)) (nat (seat_no ?w j - 1)) = Some j"
        using agree_player [OF p(3) j(1)] j(2) by (simp add: room_no_def seat_no_def joined_def seat_of_def pl fr)
    next
      fix r s j assume r: "r < n_rooms w" "s < 4" "seat_of ?w r s = Some j"
      then have q: "seat_of w r s = Some j" by (simp add: seat_of_def fr)
      then have "j \<noteq> i" using so [OF r(1,2)] by auto
      then show "j < max_len \<and> room_no ?w j = int r + 1 \<and> seat_no ?w j = int s + 1"
        using agree_seat [OF p(3) r(1,2) q] by (simp add: room_no_def seat_no_def pl)
    qed
    show "owned (user_of ?w) (there ?w) (leaving ?w)"
    proof (rule owned_give [where pu = "user_of w"])
      have "there ?w = there w" by (simp add: there_def fr fun_eq_iff)
      then show "owned (user_of w) (there ?w) (leaving w)" using p(4) by simp
      show "leaving ?w = leaving w @ (case user_of w i of None \<Rightarrow> [] | Some a \<Rightarrow> [a])" by (rule lv)
    qed (simp_all add: assms(2) user_of_def pl)
  qed
  then show ?thesis using pl fr by simp
qed

section \<open>Shooting\<close>

lemma to_shot_text_fits:
  assumes "in_i32 uid" "in_i32 seat" "in_i32 coin" "in_i32 x" "in_i32 y" "in_i32 bid" "length angle \<le> 43"
  shows "length (to_shot_text uid seat coin x y angle bid) < 200"
  using len11 [OF assms(1)] len11 [OF assms(2)] len11 [OF assms(3)] len11 [OF assms(4)] len11 [OF assms(5)] len11 [OF assms(6)] assms(7)
  by (simp add: to_shot_text_def)

lemma in_i32_atoi: "in_i32 (atoi s)"
  using atoi_bounds [of s] by (simp add: in_i32_def)

lemma in_i32_value: "valueToInt js k = Inr x \<Longrightarrow> in_i32 x"
  by (auto simp: valueToInt_def rbind_eq_Inr in_i32_atoi split: option.splits) (simp add: in_i32_def)

text \<open>The players of a room who are told do not depend on the fields that change.\<close>

lemma seated_cong: "(\<And>j. p_socket (player j w') = p_socket (player j w)) \<Longrightarrow> seated ps w' = seated ps w"
  by (simp add: seated_def)

text \<open>
  A shot by a player with coins: one coin is paid, a bullet is appended to the room, and every
  player on a seat of the room is told.
\<close>

lemma toShot_ok:
  assumes "world_ok w" "i < max_len" "p_room (player i w) \<noteq> 0"
    and "p_user (player i w) = Some a" "w_users w a = Some u" "0 < u_coin u"
    and "valueToInt js ''x'' = Inr x" "valueToInt js ''y'' = Inr y" "valueToFloat (atof e) js ''angle'' = Inr angle"
    and "r_bullets (room_of w i) = Some bl" "length (nl_items bl) \<le> fuel e" "length (nl_items bl) < 2147483645"
    and "fresh e \<notin> fst ` set (nl_items bl)" "in_i32 (p_uid (player i w))" "in_i32 (u_coin u)" "length (show2 e angle) \<le> 43"
  shows "\<exists>w' b bl'. toShot e i js w = Inr w' \<and> world_ok w' \<and> w_users w' = (w_users w)(a \<mapsto> u\<lparr>u_coin := u_coin u - 1\<rparr>) \<and>
    r_bullets (room_of w' i) = Some bl' \<and> nl_items bl' = nl_items bl @ [(fresh e, b)] \<and>
    b_uid b = p_uid (player i w) \<and> b_x b = x \<and> b_y b = y \<and> b_angle b = angle \<and> b_lock b = 0 \<and> b_isdel b = 0 \<and>
    b_id b \<notin> (b_id \<circ> snd) ` set (nl_items bl) \<and>
    w_out w' = w_out w @ map (\<lambda>j. (p_socket (player j w), emsg 1 1 (bytes_of
      (to_shot_text (p_uid (player i w)) (p_seat (player i w)) (u_coin u - 1) x y (show2 e angle) (b_id b))))) (seated (r_players (room_of w i)) w)"
proof -
  note s = world_seat [OF assms(1-3)]
  define u1 where "u1 = u\<lparr>u_coin := u_coin u - 1\<rparr>"
  define w0 where "w0 = set_player i (\<lambda>p. p\<lparr>p_op_time := now e\<rparr>) w"
  define w1 where "w1 = set_user (Some a) u1 w0"
  have ok0: "world_ok w0" unfolding w0_def by (rule world_ok_set_player [OF assms(1,2) s(10)]) simp
  have ok1: "world_ok w1" unfolding w1_def by (rule world_ok_set_user [OF ok0]) (simp add: there_def w0_def assms(5))
  have pl: "player j w1 = (if i = j then (player i w)\<lparr>p_op_time := now e\<rparr> else player j w)" for j
    using assms(2) world_parts(5) [OF assms(1)] by (simp add: w1_def w0_def)
  have rm: "w_rooms w1 = w_rooms w" by (simp add: w1_def w0_def)
  have bok: "bullets_ok bl" using s(8) assms(10) by auto
  obtain n l where b: "bullets_create (Suc (fuel e)) (fuel e) (fresh e) (p_uid (player i w)) x y angle (mtime 1 e) bl = Inr (fresh e, l)"
    "bullets_ok l" "n \<notin> (b_id \<circ> snd) ` set (nl_items bl)" "1 \<le> n" "n < MAX_INT"
    "nl_items l = nl_items bl @ [(fresh e, \<lparr>b_id = n, b_uid = p_uid (player i w), b_x = x, b_y = y, b_angle = angle, b_create_time = mtime 1 e,
            b_lock = 0, b_isdel = 0\<rparr>)]"
    using bullets_create_ok [OF bok assms(13,12,11), of "Suc (fuel e)" "p_uid (player i w)" x y angle "mtime 1 e"] assms(11) by auto
  define bu where "bu = \<lparr>b_id = n, b_uid = p_uid (player i w), b_x = x, b_y = y, b_angle = angle, b_create_time = mtime 1 e, b_lock = 0, b_isdel = 0\<rparr>"
  have lk: "nl_look l (fresh e) = Inr (bu, None)"
    using bullets.look_law [OF b(2), of "nl_items bl" "fresh e" bu "[]"] b(6) by (simp add: bu_def)
  define r1 where "r1 = (room_of w i)\<lparr>r_bullets := Some l\<rparr>"
  define w2 where "w2 = set_room (p_room (player i w) - 1) r1 w1"
  have r1ok: "room_ok r1" using s(11) assms(10) b(2) by (auto simp: r1_def room_ok_def room_empty_def split: option.splits)
  have n1: "n_rooms w1 = n_rooms w" by (simp add: n_rooms_def rm)
  have ok2: "world_ok w2" unfolding w2_def
    by (rule world_ok_set_room [OF ok1 _ r1ok]) (use s(1) in \<open>simp_all add: n1 r1_def room_of_def rm\<close>)
  define t where "t = to_shot_text (p_uid (player i w)) (p_seat (player i w)) (u_coin u - 1) x y (show2 e angle) n"
  have tl: "length t < 200" unfolding t_def
    by (rule to_shot_text_fits) (use assms s(4,5) b(4,5) in_i32_value in \<open>auto simp: in_i32_def\<close>)
  have ra: "room_at (w_rooms w2) (p_room (player i w) - 1) = Inr r1"
    using s(1,2) by (simp add: w2_def room_at_in put_room_nth rm n_rooms_def)
  have p2: "player j w2 = player j w1" for j by (simp add: w2_def)
  define w3 where "w3 = send_seats (r_players r1) (emsg 1 1 (bytes_of t)) w2"
  have sm: "sendmsgToRoom i t w2 = Inr w3"
    using ra s(2) by (simp add: sendmsgToRoom_def p2 pl w3_def)
  have f1: "p_room (player i w1) = p_room (player i w)" "p_uid (player i w1) = p_uid (player i w)" "p_seat (player i w1) = p_seat (player i w)"
    by (simp_all add: pl)
  have "shoot e i js (u_coin u - 1) w1 = Inr w3"
    using assms(7-10) s(6) b(1) lk sm tl unfolding shoot_def rm f1
    by (simp add: Let_def sprintf_buf_def bu_def t_def flip: r1_def) (simp add: w2_def)
  then have e1: "toShot e i js w = Inr w3"
    using assms(4-6) by (simp add: toShot_def user_at_def w1_def w0_def u1_def)
  have sd: "seated (r_players (room_of w i)) w2 = seated (r_players (room_of w i)) w"
    by (rule seated_cong) (simp add: p2 pl)
  have out: "w_out w3 = w_out w @ map (\<lambda>j. (p_socket (player j w), emsg 1 1 (bytes_of t))) (seated (r_players (room_of w i)) w)"
    using sd by (simp add: w3_def send_seats_out p2 pl r1_def if_distrib [of p_socket] cong: if_cong)
       (simp add: w2_def w1_def w0_def)
  have ro: "room_of w3 i = r1" using s(1) by (simp add: room_of_def w3_def p2 pl) (simp add: w2_def put_room_nth rm n_rooms_def)
  have us: "w_users w3 = (w_users w)(a \<mapsto> u1)" by (simp add: w3_def) (simp add: w2_def w1_def w0_def set_user_def)
  have "world_ok w3" using ok2 by (simp add: w3_def)
  then show ?thesis using e1 us ro b(6) out b(3)
    by (intro exI [of _ w3] exI [of _ bu] exI [of _ l]) (simp add: u1_def r1_def bu_def t_def)
qed

section \<open>Hitting\<close>

lemma nl_put_lid: "nl_put a f l = Inr l' \<Longrightarrow> lid l' = lid l"
  by (auto simp: nl_put_def rbind_eq_Inr)

lemma fishs_put_ok:
  assumes "fishs_ok l" "nl_items l = xs @ (a, e) # ys" "f_id (f e) = f_id e"
  shows "\<exists>l'. nl_put a f l = Inr l' \<and> fishs_ok l' \<and> nl_items l' = xs @ (a, f e) # ys"
proof -
  have ok: "nl_ok l" using assms(1) by (simp add: fishs_ok_def)
  obtain l' where l': "nl_put a f l = Inr l'" "nl_ok l'" "nl_items l' = xs @ (a, f e) # ys"
    using nl_put_items [OF ok assms(2)] by blast
  then show ?thesis using assms nl_put_lid [OF l'(1)] by (auto simp: fishs_ok_def)
qed

lemma bullets_put_ok:
  assumes "bullets_ok l" "nl_items l = xs @ (a, e) # ys" "b_id (f e) = b_id e"
  shows "\<exists>l'. nl_put a f l = Inr l' \<and> bullets_ok l' \<and> nl_items l' = xs @ (a, f e) # ys"
proof -
  have ok: "nl_ok l" using assms(1) by (simp add: bullets_ok_def)
  obtain l' where l': "nl_put a f l = Inr l'" "nl_ok l'" "nl_items l' = xs @ (a, f e) # ys"
    using nl_put_items [OF ok assms(2)] by blast
  then show ?thesis using assms nl_put_lid [OF l'(1)] by (auto simp: bullets_ok_def)
qed

lemma find_bullet:
  assumes "bullets_ok l" "nl_items l = xs @ (a, b) # ys"
  shows "List.find (\<lambda>(a, e). b_id e = b_id b \<and> P e) (nl_items l) = (if P b then Some (a, b) else None)"
proof -
  have d: "distinct (map (b_id \<circ> snd) (xs @ (a, b) # ys))" using assms by (simp add: bullets_ok_def)
  then have "b_id b \<notin> (b_id \<circ> snd) ` set xs" "b_id b \<notin> (b_id \<circ> snd) ` set ys" by auto
  moreover have skip: "List.find (\<lambda>(a, e). b_id e = b_id b \<and> P e) (zs @ us) = List.find (\<lambda>(a, e). b_id e = b_id b \<and> P e) us"
    if "b_id b \<notin> (b_id \<circ> snd) ` set zs" for zs us
    using that by (induction zs) auto
  ultimately show ?thesis unfolding assms(2) using skip [of ys "[]"] by (simp add: skip)
qed

text \<open>What a hit makes of the fish and of the user.\<close>

definition hit_mark :: "Fish \<Rightarrow> Fish" where
  "hit_mark f = f\<lparr>f_hit_coin := i32 (f_hit_coin f + 1), f_isdel := 1, f_lock := 0\<rparr>"

definition hit_user :: "Fish \<Rightarrow> User \<Rightarrow> User" where
  "hit_user f u = killFish (fish_no (f_fish f)) (u\<lparr>u_coin := i32 (u_coin u + fish_coin (f_fish f))\<rparr>)"

lemma hit_one_ok:
  assumes "fishs_ok fl" "nl_items fl = xs @ (a, f) # ys" "f_lock f = 0" "f_isdel f = 0" "length (nl_items fl) \<le> fuel e"
    and "valueToInt js ''fish_id'' = Inr (f_id f)" "valueToInt js ''bx'' = Inr bx" "valueToInt js ''by'' = Inr by'"
    and "valueToInt js ''fx'' = Inr fx" "valueToInt js ''fy'' = Inr fy" "valueToFloat (atof e) js ''fag'' = Inr fag"
    and "t = hit_fish_text (p_uid (player i w)) (u_coin (hit_user f u)) bid bx by' (f_id f) fx fy (show2 e fag) (f_type f)" "length t < 200"
  shows "\<exists>fl'. hit_one e i js bid fl u w = Inr (fl', hit_user f u, sendmsg i t w) \<and> fishs_ok fl' \<and> nl_items fl' = xs @ (a, hit_mark f) # ys"
proof -
  let ?f1 = "f\<lparr>f_lock := 1\<rparr>"
  obtain l1 where l1: "fishs_getFish (fuel e) (f_id f) fl = Inr (Some a, l1)" "fishs_ok l1" "nl_items l1 = xs @ (a, ?f1) # ys"
    using fishs_getFish_locks [OF assms(1-5)] by blast
  have lk: "nl_look l1 a = Inr (?f1, first (map fst ys))" by (rule fishs.look_law [OF l1(2,3)])
  obtain l2 where l2: "nl_put a hit_mark l1 = Inr l2" "fishs_ok l2" "nl_items l2 = xs @ (a, hit_mark ?f1) # ys"
    using fishs_put_ok [OF l1(2,3), of hit_mark] by (auto simp: hit_mark_def)
  have l2': "nl_put a (\<lambda>f. f\<lparr>f_hit_coin := i32 (f_hit_coin f + 1), f_isdel := 1, f_lock := 0\<rparr>) l1 = Inr l2"
    using l2(1) by (simp add: hit_mark_def [abs_def])
  have hm: "hit_mark ?f1 = hit_mark f" by (simp add: hit_mark_def)
  have "hit_one e i js bid fl u w = Inr (l2, hit_user f u, sendmsg i t w)"
    using assms(6-13) l1(1) lk l2' by (simp add: hit_one_def Let_def sprintf_buf_def hit_user_def)
  then show ?thesis using l2(2,3) hm by auto
qed

text \<open>
  A hit with a bullet of the sender on a free fish: the fish's coins are paid and the kill is
  counted, fish and bullet are marked as deleted; the bullet pays nothing a second time.
\<close>

lemma hitFish_ok:
  assumes "world_ok w" "i < max_len" "p_room (player i w) \<noteq> 0" "p_user (player i w) = Some a" "w_users w a = Some u"
    and fl: "r_fishs (room_of w i) = Some fl" "nl_items fl = xs @ (fa, f) # ys" "f_lock f = 0" "f_isdel f = 0" "length (nl_items fl) \<le> fuel e"
    and bl: "r_bullets (room_of w i) = Some bl" "nl_items bl = us @ (ba, b) # vs" "b_uid b = p_uid (player i w)" "b_lock b = 0" "b_isdel b = 0"
      "length (nl_items bl) \<le> fuel e"
    and js: "valueToInt js ''bullet_id'' = Inr (b_id b)" "valueToInt js ''fish_id'' = Inr (f_id f)" "valueToInt js ''bx'' = Inr bx" "valueToInt js ''by'' = Inr by'"
      "valueToInt js ''fx'' = Inr fx" "valueToInt js ''fy'' = Inr fy" "valueToFloat (atof e) js ''fag'' = Inr fag"
    and t: "t = hit_fish_text (p_uid (player i w)) (u_coin (hit_user f u)) (b_id b) bx by' (f_id f) fx fy (show2 e fag) (f_type f)" "length t < 200"
  shows "\<exists>w' fl' bl'. hitFish e i js w = Inr w' \<and> world_ok w' \<and> w_users w' = (w_users w)(a \<mapsto> hit_user f u) \<and>
    r_fishs (room_of w' i) = Some fl' \<and> nl_items fl' = xs @ (fa, hit_mark f) # ys \<and>
    r_bullets (room_of w' i) = Some bl' \<and> nl_items bl' = us @ (ba, b\<lparr>b_isdel := 1\<rparr>) # vs \<and>
    w_out w' = w_out w @ [(p_socket (player i w), emsg 1 1 (bytes_of t))] \<and>
    hitFish e i js w' = Inr (sendmsg i ''{op:'hit fish', status:0, msg:'no valid!'}'' w')"
proof -
  note s = world_seat [OF assms(1-3)]
  have fok: "fishs_ok fl" and bok: "bullets_ok bl" using s(7,8) fl(1) bl(1) by auto
  obtain fl1 where f1: "hit_one e i js (b_id b) fl u w = Inr (fl1, hit_user f u, sendmsg i t w)" "fishs_ok fl1" "nl_items fl1 = xs @ (fa, hit_mark f) # ys"
    using hit_one_ok [OF fok fl(2-5) js(2-7) t] by blast
  have gb: "bullets_getBullet (fuel e) (b_id b) (p_uid (player i w)) bl = Inr (Some ba)"
    using bullets_getBullet_own [OF bok bl(6)] find_bullet [OF bok bl(2), of "\<lambda>e. b_uid e = p_uid (player i w) \<and> b_lock e = 0 \<and> b_isdel e = 0"] bl(3-5)
    by simp
  obtain bl1 where b1: "nl_put ba (\<lambda>b. b\<lparr>b_isdel := 1, b_lock := 0\<rparr>) bl = Inr bl1" "bullets_ok bl1" "nl_items bl1 = us @ (ba, b\<lparr>b_isdel := 1\<rparr>) # vs"
    using bullets_put_ok [OF bok bl(2), of "\<lambda>b. b\<lparr>b_isdel := 1, b_lock := 0\<rparr>"] bl(4) by auto
  define r1 where "r1 = (room_of w i)\<lparr>r_fishs := Some fl1, r_bullets := Some bl1\<rparr>"
  define w1 where "w1 = set_user (Some a) (hit_user f u) (sendmsg i t w)"
  define w2 where "w2 = set_room (p_room (player i w) - 1) r1 w1"
  have e: "hitFish e i js w = Inr w2"
    using assms(4,5) fl(1) bl(1) js(1) s(6) f1(1) gb b1(1)
    by (simp add: hitFish_def user_at_def w2_def w1_def r1_def)
  have ok1: "world_ok w1" unfolding w1_def by (rule world_ok_set_user) (use assms(1,5) in \<open>simp_all add: there_def\<close>)
  have rm: "w_rooms w1 = w_rooms w" by (simp add: w1_def)
  have r1ok: "room_ok r1" using s(11) fl(1) bl(1) f1(2) b1(2) by (auto simp: r1_def room_ok_def room_empty_def)
  have ok2: "world_ok w2" unfolding w2_def
    by (rule world_ok_set_room [OF ok1 _ r1ok]) (use s(1) in \<open>simp_all add: n_rooms_def r1_def room_of_def rm\<close>)
  have pl: "player j w2 = player j w" for j by (simp add: w2_def w1_def)
  have ro: "room_of w2 i = r1" using s(1) by (simp add: room_of_def pl) (simp add: w2_def put_room_nth rm n_rooms_def)
  have us: "w_users w2 = (w_users w)(a \<mapsto> hit_user f u)" by (simp add: w2_def w1_def set_user_def)
  have out: "w_out w2 = w_out w @ [(p_socket (player i w), emsg 1 1 (bytes_of t))]" by (simp add: w2_def w1_def)
  have p2: "p_room (player i w2) \<noteq> 0" using assms(3) by (simp add: pl)
  have gb2: "bullets_getBullet (fuel e) (b_id b) (p_uid (player i w)) bl1 = Inr None"
    using bullets_getBullet_own [OF b1(2), of "fuel e"] find_bullet [OF b1(2,3), of "\<lambda>e. b_uid e = p_uid (player i w) \<and> b_lock e = 0 \<and> b_isdel e = 0"] bl(2,6) b1(3)
    by simp
  have pu: "p_uid (player i w2) = p_uid (player i w)" by (simp add: pl)
  have ra: "room_at (w_rooms w2) (p_room (player i w2) - 1) = Inr r1" using world_seat(6) [OF ok2 assms(2) p2] by (simp add: ro)
  have rb: "r_bullets r1 = Some bl1" by (simp add: r1_def)
  have "hitFish e i js w2 = Inr (sendmsg i ''{op:'hit fish', status:0, msg:'no valid!'}'' w2)"
    by (simp add: hitFish_def js(1) ra rb pu gb2)
  then show ?thesis using e ok2 us ro f1(3) b1(3) out
    by (intro exI [of _ w2] exI [of _ fl1] exI [of _ bl1]) (simp add: r1_def)
qed

end
