(* ===== verification/Seating.thy ===== *)
theory Seating
  imports Shooting
begin

text \<open>
  The contract of the seats, apart from the code: a machine whose state says who sits where.
  A player may enter a seat nobody has, and leave. The lemmas say what each change of the
  server's world is for the machine, without assuming that the loops have enough fuel: a
  handler that returns has kept the invariant.
\<close>

section \<open>The machine\<close>

type_synonym seating = "nat \<Rightarrow> (int \<times> int) option"

inductive seat_step :: "nat \<Rightarrow> seating \<Rightarrow> seating \<Rightarrow> bool" where
  enter: "f i = None \<Longrightarrow> (r, s) \<notin> ran f \<Longrightarrow> 1 \<le> r \<Longrightarrow> r \<le> int n \<Longrightarrow> 1 \<le> s \<Longrightarrow> s \<le> 4 \<Longrightarrow> seat_step n f (f(i \<mapsto> (r, s)))"
| leave: "seat_step n f (f(i := None))"

inductive_cases seat_stepE: "seat_step n f g"

text \<open>Nobody shares a seat, and every seat is one of the \<open>n\<close> rooms' four.\<close>

definition seating_ok :: "nat \<Rightarrow> seating \<Rightarrow> bool" where
  "seating_ok n f \<longleftrightarrow> (\<forall>i j x. f i = Some x \<longrightarrow> f j = Some x \<longrightarrow> i = j) \<and>
     (\<forall>i r s. f i = Some (r, s) \<longrightarrow> 1 \<le> r \<and> r \<le> int n \<and> 1 \<le> s \<and> s \<le> 4)"

lemma seat_step_ok: "seat_step n f g \<Longrightarrow> seating_ok n f \<Longrightarrow> seating_ok n g"
proof (induction rule: seat_step.induct)
  case (enter f i r s n)
  have "f j \<noteq> Some (r, s)" for j using enter.hyps(2) by (auto simp: ran_def)
  then show ?case using enter unfolding seating_ok_def by (metis fun_upd_apply option.inject prod.inject)
qed (simp add: seating_ok_def)

section \<open>What the world says\<close>

definition seating_of :: "'f World \<Rightarrow> seating" where
  "seating_of w i = (if i < max_len \<and> p_room (player i w) \<noteq> 0 then Some (p_room (player i w), p_seat (player i w)) else None)"

definition keeps :: "'f World \<Rightarrow> 'f World \<Rightarrow> bool" where
  "keeps w w' \<longleftrightarrow> world_ok w' \<and> n_rooms w' = n_rooms w \<and> (seat_step (n_rooms w))\<^sup>*\<^sup>* (seating_of w) (seating_of w')"

lemma keeps_trans [trans]: "keeps a b \<Longrightarrow> keeps b c \<Longrightarrow> keeps a c"
  unfolding keeps_def by (metis rtranclp_trans)

lemma keeps_refl: "world_ok w \<Longrightarrow> keeps w w"
  by (simp add: keeps_def)

lemma seating_cong:
  "(\<And>j. p_room (player j w') = p_room (player j w) \<and> (p_room (player j w) = 0 \<or> p_seat (player j w') = p_seat (player j w))) \<Longrightarrow>
   seating_of w' = seating_of w"
  unfolding seating_of_def fun_eq_iff by metis

lemma keepsI:
  "world_ok w' \<Longrightarrow> n_rooms w' = n_rooms w \<Longrightarrow>
   (\<And>j. p_room (player j w') = p_room (player j w) \<and> (p_room (player j w) = 0 \<or> p_seat (player j w') = p_seat (player j w))) \<Longrightarrow> keeps w w'"
  using seating_cong [of w' w] by (simp add: keeps_def)

lemma keeps_same: "world_ok w \<Longrightarrow> same_state w w' \<Longrightarrow> keeps w w'"
  by (rule keepsI) (simp_all add: world_ok_same same_player, simp add: n_rooms_def same_state_def)

lemma keeps_ok: "keeps w w' \<Longrightarrow> world_ok w'"
  by (simp add: keeps_def)

lemma keeps_step:
  "world_ok w' \<Longrightarrow> n_rooms w' = n_rooms w \<Longrightarrow> seat_step (n_rooms w) (seating_of w) (seating_of w') \<Longrightarrow> keeps w w'"
  by (auto simp: keeps_def)

lemma seating_of_seat:
  assumes "world_ok w" "seating_of w i = Some (r, s)"
  shows "1 \<le> r" "r \<le> int (n_rooms w)" "1 \<le> s" "s \<le> 4" "seat_of w (nat (r - 1)) (nat (s - 1)) = Some i"
  using agree_player [OF world_parts(3) [OF assms(1)], of i] assms(2)
  by (auto simp: seating_of_def room_no_def seat_no_def split: if_splits)

lemma seating_of_ok:
  assumes "world_ok w"
  shows "seating_ok (n_rooms w) (seating_of w)"
  unfolding seating_ok_def
proof (intro conjI allI impI)
  fix i j x assume "seating_of w i = Some x" "seating_of w j = Some x"
  then show "i = j" using seating_of_seat(5) [OF assms, of i] seating_of_seat(5) [OF assms, of j] by (cases x) fastforce
qed (use seating_of_seat [OF assms] in blast)+

section \<open>Leaving\<close>

lemma free_nodes_mono: "free_nodes n h p = Inr h' \<Longrightarrow> n \<le> m \<Longrightarrow> free_nodes m h p = Inr h'"
proof (induction n h p arbitrary: m h' rule: free_nodes.induct)
  case (3 n h a)
  then obtain k where "m = Suc k" "n \<le> k" by (cases m) auto
  then show ?case using 3 by (auto simp: rbind_eq_Inr simp del: fun_upd_apply)
qed auto

lemma nl_clear_mono: "nl_clear n l = Inr l' \<Longrightarrow> n \<le> m \<Longrightarrow> nl_clear m l = Inr l'"
  using free_nodes_mono by (fastforce simp: nl_clear_def rbind_eq_Inr)

lemma room_clear_mono:
  assumes "room_clear n r = Inr r'" "n \<le> m"
  shows "room_clear m r = Inr r'"
proof -
  have f: "fishs_clear m l = Inr l'" if "fishs_clear n l = Inr l'" for l l'
    using that nl_clear_mono [OF _ assms(2)] by (simp add: fishs_clear_def split: if_splits)
  have b: "bullets_clear m l = Inr l'" if "bullets_clear n l = Inr l'" for l l'
    using that nl_clear_mono [OF _ assms(2)] by (simp add: bullets_clear_def split: if_splits)
  show ?thesis using assms(1) by (auto simp: room_clear_def rbind_eq_Inr dest: f b split: option.splits)
qed

lemma rooms_leave_mono:
  assumes "rooms_leave n p w = Inr x" "n \<le> m"
  shows "rooms_leave m p w = Inr x"
  using assms(1) room_clear_mono [OF _ assms(2)] by (simp add: rooms_leave_def Let_def rbind_eq_Inr split: if_splits) blast+

lemma world_leave_mono: "world_leave e i w = Inr w' \<Longrightarrow> fuel e \<le> m \<Longrightarrow> world_leave (e\<lparr>fuel := m\<rparr>) i w = Inr w'"
  using rooms_leave_mono by (fastforce simp: world_leave_def rbind_eq_Inr)

definition room_need :: "'f Room \<Rightarrow> nat" where
  "room_need r = (case r_fishs r of None \<Rightarrow> 0 | Some l \<Rightarrow> length (nl_items l)) + (case r_bullets r of None \<Rightarrow> 0 | Some l \<Rightarrow> length (nl_items l))"

lemma enough_fuel: "\<exists>m \<ge> fuel e. fits (e\<lparr>fuel := m\<rparr>) w"
proof (intro exI [of _ "fuel e + sum_list (map room_need (rooms (w_rooms w)))"] conjI)
  have "room_fits (fuel e + sum_list (map room_need (rooms (w_rooms w)))) (rooms (w_rooms w) ! r)" if "r < n_rooms w" for r
  proof -
    have "room_need (rooms (w_rooms w) ! r) \<le> sum_list (map room_need (rooms (w_rooms w)))"
      using that by (intro member_le_sum_list) (simp_all add: n_rooms_def)
    then show ?thesis by (auto simp: room_fits_def room_need_def split: option.splits)
  qed
  then show "fits (e\<lparr>fuel := fuel e + sum_list (map room_need (rooms (w_rooms w)))\<rparr>) w" by (simp add: fits_def)
qed simp

lemma world_leave_keeps:
  assumes "world_ok w" "i < max_len" "world_leave e i w = Inr w'"
  shows "world_ok w' \<and> p_room (player i w') = 0 \<and> p_socket (player i w') = p_socket (player i w) \<and>
    p_user (player i w') = p_user (player i w) \<and> (\<forall>j. j \<noteq> i \<longrightarrow> player j w' = player j w) \<and> w_users w' = w_users w \<and>
    w_acts w' = w_acts w \<and> w_setting w' = w_setting w \<and> n_rooms w' = n_rooms w"
proof -
  obtain m where m: "fuel e \<le> m" "fits (e\<lparr>fuel := m\<rparr>) w" using enough_fuel by blast
  have "n_rooms w' = n_rooms w"
    using assms(3) by (auto simp: world_leave_def rooms_leave_def Let_def n_rooms_def rbind_eq_Inr split: if_splits)
  then show ?thesis using world_leave_ok [OF assms(1) m(2) assms(2)] world_leave_mono [OF assms(3) m(1)] by auto
qed

lemma seating_left:
  assumes "\<And>j. j \<noteq> i \<Longrightarrow> player j w' = player j w" "p_room (player i w') = 0"
  shows "seating_of w' = (seating_of w)(i := None)"
  using assms by (auto simp: seating_of_def fun_eq_iff)

lemma world_leave_step:
  assumes "world_ok w" "i < max_len" "world_leave e i w = Inr w'"
  shows "keeps w w'"
proof -
  note k = world_leave_keeps [OF assms]
  have "seating_of w' = (seating_of w)(i := None)" by (rule seating_left) (use k in simp_all)
  then show ?thesis using k by (intro keeps_step) (simp_all add: seat_step.leave)
qed

lemma world_remove_step:
  assumes "world_ok w" "i < max_len" "p_room (player i w) = 0"
  shows "keeps w (world_remove i w)"
proof (rule keepsI)
  note k = world_remove_ok [OF assms]
  show "world_ok (world_remove i w)" using k by simp
  show "n_rooms (world_remove i w) = n_rooms w" using k by (simp add: n_rooms_def)
  fix j
  show "p_room (player j (world_remove i w)) = p_room (player j w) \<and>
      (p_room (player j w) = 0 \<or> p_seat (player j (world_remove i w)) = p_seat (player j w))"
    using k assms(3) by (cases "j = i") simp_all
qed

end
