(* ===== verification/Keeping.thy ===== *)
theory Keeping
  imports Seating
begin

text \<open>
  A handler of the game that returns has kept the invariant, and what it did to the seats is
  what the seating machine allows. The lists of the rooms are assumed to be no longer than
  the environment's bound on walks, the fresh address to be unused.
\<close>

definition list_good :: "nat \<Rightarrow> nat \<Rightarrow> (nat \<times> 'a) list \<Rightarrow> bool" where
  "list_good n a xs \<longleftrightarrow> length xs \<le> n \<and> a \<notin> fst ` set xs"

definition room_good :: "nat \<Rightarrow> nat \<Rightarrow> 'f Room \<Rightarrow> bool" where
  "room_good n a r \<longleftrightarrow> (\<forall>l. r_fishs r = Some l \<longrightarrow> list_good n a (nl_items l)) \<and> (\<forall>l. r_bullets r = Some l \<longrightarrow> list_good n a (nl_items l))"

definition good :: "'f env \<Rightarrow> 'f World \<Rightarrow> bool" where
  "good e w \<longleftrightarrow> (\<forall>j. 0 \<le> rnd e j) \<and> fuel e < 2147483645 \<and> w_users w (fresh e) = None \<and>
     (\<forall>r < n_rooms w. room_good (fuel e) (fresh e) (rooms (w_rooms w) ! r))"

lemma good_room:
  "good e w \<Longrightarrow> r < n_rooms w \<Longrightarrow> r_fishs (rooms (w_rooms w) ! r) = Some fl \<Longrightarrow> length (nl_items fl) \<le> fuel e \<and> fresh e \<notin> fst ` set (nl_items fl)"
  "good e w \<Longrightarrow> r < n_rooms w \<Longrightarrow> r_bullets (rooms (w_rooms w) ! r) = Some bl \<Longrightarrow> length (nl_items bl) \<le> fuel e \<and> fresh e \<notin> fst ` set (nl_items bl)"
  by (auto simp: good_def room_good_def list_good_def)

section \<open>The lists\<close>

lemma fishs_create_keeps:
  assumes "fishs_ok l" "length (nl_items l) \<le> n" "n < 2147483645" "a \<notin> fst ` set (nl_items l)" "\<forall>j. 0 \<le> rs j"
    and "fishs_create (Suc n) n rs a st t l = Inr (b, l')"
  shows "fishs_ok l' \<and> (\<exists>f. b = Some a \<and> nl_items l' = nl_items l @ [(a, f)])"
proof -
  have ok: "nl_ok l" using assms(1) by (simp add: fishs_ok_def)
  have "fish st \<noteq> []"
    using assms(6) by (auto simp: fishs_create_def getFishQty_def rbind_eq_Inr split: if_splits)
  then show ?thesis using fishs_create_ok [of l a n "Suc n" rs st t] assms by fastforce
qed

lemma split_find: "List.find P xs = Some x \<Longrightarrow> \<exists>us vs. xs = us @ x # vs \<and> P x"
  by (metis find_Some_iff in_set_conv_decomp nth_mem)

lemma fishs_put_keeps:
  assumes "fishs_ok l" "(a, e) \<in> set (nl_items l)" "\<And>e. f_id (g e) = f_id e" "nl_put a g l = Inr l'"
  shows "fishs_ok l' \<and> map fst (nl_items l') = map fst (nl_items l)"
proof -
  obtain us vs where "nl_items l = us @ (a, e) # vs" using split_list [OF assms(2)] by blast
  from fishs_put_ok [OF assms(1) this, of g] assms(3,4) this show ?thesis by auto
qed

lemma bullets_put_keeps:
  assumes "bullets_ok l" "(a, e) \<in> set (nl_items l)" "\<And>e. b_id (g e) = b_id e" "nl_put a g l = Inr l'"
  shows "bullets_ok l' \<and> map fst (nl_items l') = map fst (nl_items l)"
proof -
  obtain us vs where "nl_items l = us @ (a, e) # vs" using split_list [OF assms(2)] by blast
  from bullets_put_ok [OF assms(1) this, of g] assms(3,4) this show ?thesis by auto
qed

lemma fishs_getFish_keeps:
  assumes "fishs_ok l" "length (nl_items l) \<le> n" "fishs_getFish n i l = Inr (r, l')"
  shows "fishs_ok l' \<and> map fst (nl_items l') = map fst (nl_items l) \<and> (\<forall>a. r = Some a \<longrightarrow> a \<in> fst ` set (nl_items l))"
proof -
  have ok: "nl_ok l" using assms(1) by (simp add: fishs_ok_def)
  note f = find_node_ok [OF ok assms(2), of "\<lambda>e. f_id e = i"]
  show ?thesis
  proof (cases "List.find (\<lambda>(a, e). f_id e = i) (nl_items l)")
    case None
    then show ?thesis using assms(1,3) f ok_unlocked [OF ok] by (simp add: fishs_getFish_def)
  next
    case (Some x)
    obtain a e where x: "x = (a, e)" by (cases x)
    have m: "(a, e) \<in> set (nl_items l)" using split_find [OF Some] x by auto
    then show ?thesis using assms(1,3) f ok_unlocked [OF ok] Some x fishs_put_keeps [OF assms(1) m, of "f_lock_update (\<lambda>_. 1)"]
      by (force simp: fishs_getFish_def rbind_eq_Inr split: if_splits)
  qed
qed

lemma fst_items_put: "map fst xs = map fst ys \<Longrightarrow> (\<exists>e. (a, e) \<in> set xs) = (\<exists>e. (a, e) \<in> set ys)"
  by (metis (no_types) fst_conv image_iff list.set_map prod.collapse)

lemma hit_one_keeps:
  assumes "fishs_ok fl" "length (nl_items fl) \<le> fuel e" "hit_one e i js bid fl u w = Inr (fl', u', w')"
  shows "fishs_ok fl' \<and> same_state w w'"
proof -
  obtain fid f fl1 where f: "fishs_getFish (fuel e) fid fl = Inr (f, fl1)"
    and r: "(case f of None \<Rightarrow> Inr (fl1, u, w)
       | Some a \<Rightarrow>
         rbind (nl_look fl1 a) (\<lambda>(fi, _).
           let u1 = killFish (fish_no (f_fish fi)) (u\<lparr>u_coin := i32 (u_coin u + fish_coin (f_fish fi))\<rparr>)
           in rbind (valueToInt js ''bx'') (\<lambda>bx. rbind (valueToInt js ''by'') (\<lambda>by'. rbind (valueToInt js ''fx'') (\<lambda>fx.
              rbind (valueToInt js ''fy'') (\<lambda>fy. rbind (valueToFloat (atof e) js ''fag'') (\<lambda>fag.
              rbind (sprintf_buf 200 (hit_fish_text (p_uid (player i w)) (u_coin u1) bid bx by' (f_id fi) fx fy (show2 e fag) (f_type fi))) (\<lambda>s.
              rbind (nl_put a (\<lambda>f. f\<lparr>f_hit_coin := i32 (f_hit_coin f + 1), f_isdel := 1, f_lock := 0\<rparr>) fl1) (\<lambda>fl2.
                Inr (fl2, u1, sendmsg i s w)))))))))) = Inr (fl', u', w')"
    using assms(3) by (auto simp: hit_one_def rbind_eq_Inr)
  note k = fishs_getFish_keeps [OF assms(1,2) f]
  show ?thesis
  proof (cases f)
    case (Some a)
    then have "a \<in> fst ` set (nl_items fl)" using k by simp
    then obtain x where x: "(a, x) \<in> set (nl_items fl1)" using k fst_items_put [of "nl_items fl1" "nl_items fl" a] by auto
    obtain s where "nl_put a (\<lambda>f. f\<lparr>f_hit_coin := i32 (f_hit_coin f + 1), f_isdel := 1, f_lock := 0\<rparr>) fl1 = Inr fl'" "w' = sendmsg i s w"
      using r Some by (auto simp: rbind_eq_Inr Let_def)
    then show ?thesis using fishs_put_keeps [OF _ x, of "\<lambda>f. f\<lparr>f_hit_coin := i32 (f_hit_coin f + 1), f_isdel := 1, f_lock := 0\<rparr>" fl'] k by simp
  qed (use k r in simp)
qed

section \<open>Entering a room\<close>

lemma tell_seats_same: "tell_seats e i room k ps w = Inr w' \<Longrightarrow> same_state w w'"
proof (induction ps arbitrary: k w)
  case (Cons p ps)
  then have "\<exists>w1. same_state w w1 \<and> tell_seats e i room (Suc k) ps w1 = Inr w'"
    by (auto simp: rbind_eq_Inr split: option.splits if_splits intro: same_state_simps)
  then show ?case using Cons.IH same_state_trans by blast
qed simp

lemma sendmsgToRoom_same: "sendmsgToRoom i m w = Inr w' \<Longrightarrow> same_state w w'"
  by (auto simp: sendmsgToRoom_def rbind_eq_Inr split: if_splits)

lemma open_room_keeps:
  assumes "\<forall>j. 0 \<le> rnd e j" "fuel e < 2147483645" "room_at (w_rooms w) (room - 1) = Inr r" "open_room e i room w = Inr w'"
  shows "\<exists>fl. fishs_ok fl \<and> same_state (set_room (room - 1) (opened e fl r) w) w'"
proof (cases "r_fishs r")
  case None
  obtain a l s where c: "fishs_create (Suc (fuel e)) (fuel e) (rnd e) (fresh e) (w_setting w) (mtime 7 e) fishs_init = Inr (a, l)"
    and w': "w' = sendmsg i s (set_room (room - 1) (r\<lparr>r_create_time := mtime 6 e, r_fishs := Some l, r_bullets := Some bullets_init\<rparr>) w)"
    using assms(3,4) None by (auto simp: open_room_def rbind_eq_Inr split: option.splits)
  have "fishs_ok l" using fishs_create_keeps [OF _ _ assms(2) _ assms(1) c] fishs_init_ok by simp
  then show ?thesis using None by (intro exI [of _ l]) (simp add: opened_def w')
next
  case (Some fl)
  have "opened e fishs_init r = r" using Some by (simp add: opened_def)
  moreover have "set_room (room - 1) r w = w" using put_room_same [OF assms(3)] by (simp add: set_room_def)
  moreover have "w' = w" using assms(3,4) Some by (simp add: open_room_def)
  ultimately show ?thesis using fishs_init_ok by (metis same_state_simps(1))
qed

lemma inRoom_keeps:
  assumes "world_ok w" "good e w" "i < max_len" "p_socket (player i w) \<noteq> 0" "inRoom e i w = Inr w'"
  shows "keeps w w'"
proof (cases "p_room (player i w) > 0 \<or> p_user (player i w) = None")
  case True
  then have "w' = w" using assms(5) by (auto simp: inRoom_def)
  then show ?thesis using keeps_refl [OF assms(1)] by simp
next
  case False
  note p = world_parts [OF assms(1)]
  have r0: "p_room (player i w) = 0" using False world_seat(2) [OF assms(1,3)] by fastforce
  have jo: "joined w i" using False assms(4) by (simp add: joined_def)
  obtain room seat rs where f: "findRoom (w_rooms w) = Inr (room, seat, rs)"
    using False assms(5) by (auto simp: inRoom_def rbind_eq_Inr)
  have lt: "curr (w_rooms w) < max_room (w_rooms w)"
    using f p(2) findRoom_past_end [OF p(2)] by (auto simp: rooms_ok_def order.strict_iff_order)
  have b: "1 \<le> room" "nat (room - 1) < n_rooms w" "1 \<le> seat" "seat \<le> 4" "rooms rs = rooms (w_rooms w)"
    "room \<le> int (n_rooms w)" "seat_of w (nat (room - 1)) (nat (seat - 1)) = None"
    using findRoom_seat [OF p(2) lt] f p(2,6) lt by (auto simp: rooms_ok_def seat_of_def)
  have nz: "room \<noteq> 0" using b(1) by simp
  define ws where "ws = sit e i room seat (w\<lparr>w_rooms := rs\<rparr>)"
  have ts: "take_seat e i room seat (w\<lparr>w_rooms := rs\<rparr>) = Inr ws"
    unfolding ws_def by (rule take_seat_sit) (use b world_room(2) [OF assms(1) b(2)] in \<open>simp_all add: n_rooms_def\<close>)
  define r1 where "r1 = rooms (w_rooms ws) ! nat (room - 1)"
  have nr: "length (rooms (w_rooms ws)) = n_rooms w" using b(5) by (simp add: ws_def sit_def Let_def n_rooms_def)
  have ra: "room_at (w_rooms ws) (room - 1) = Inr r1" using b nr by (simp add: room_at_in r1_def)
  obtain s w3 ps w4 where w3: "sendmsgToRoom i s ws = Inr w3" and w4: "tell_seats e i room 0 ps w3 = Inr w4"
    and w5: "open_room e i room w4 = Inr w'"
    using assms(5) False f nz ts by (simp add: inRoom_def rbind_eq_Inr) blast
  have s4: "same_state ws w4" by (rule same_state_trans [OF sendmsgToRoom_same [OF w3] tell_seats_same [OF w4]])
  have ra4: "room_at (w_rooms w4) (room - 1) = Inr r1" using ra s4 by (simp add: same_state_def)
  obtain fl where fl: "fishs_ok fl" "same_state (set_room (room - 1) (opened e fl r1) w4) w'"
    using open_room_keeps [OF _ _ ra4 w5] assms(2) by (auto simp: good_def)
  define W where "W = set_room (room - 1) (opened e fl r1) ws"
  have W5: "same_state W w'" using fl(2) s4 by (simp add: W_def same_state_def)
  note so = sit_ok [OF assms(1,3) r0 jo f nz fl(1) ws_def r1_def W_def]
  have pl: "player j W = (if j = i then (player i w)\<lparr>p_room := room, p_seat := seat, p_game_time := now e\<rparr> else player j w)" for j
    using so by simp
  have "(room, seat) \<notin> ran (seating_of w)"
    using seating_of_seat(5) [OF assms(1)] b(7) by (fastforce simp: ran_def)
  then have "seat_step (n_rooms w) (seating_of w) ((seating_of w)(i \<mapsto> (room, seat)))"
    using b by (intro seat_step.enter) (simp_all add: seating_of_def r0)
  also have "(seating_of w)(i \<mapsto> (room, seat)) = seating_of W" using nz assms(3) by (auto simp: seating_of_def fun_eq_iff pl)
  finally have "keeps w W" using so nr by (intro keeps_step) (simp_all add: n_rooms_def W_def)
  then show ?thesis using keeps_trans [OF _ keeps_same [OF _ W5]] so by blast
qed

section \<open>Shooting and hitting\<close>

lemma toShot_keeps:
  assumes "world_ok w" "good e w" "i < max_len" "p_room (player i w) \<noteq> 0" "toShot e i js w = Inr w'"
  shows "keeps w w'"
proof -
  note s = world_seat [OF assms(1,3,4)]
  obtain a u where u: "p_user (player i w) = Some a" "w_users w a = Some u" using s(9) by blast
  show ?thesis
  proof (cases "u_coin u \<le> 0")
    case True
    then show ?thesis using assms(1,5) u by (auto simp: toShot_def user_at_def intro: keeps_same)
  next
    case False
    define w0 where "w0 = set_player i (\<lambda>p. p\<lparr>p_op_time := now e\<rparr>) w"
    define w1 where "w1 = set_user (Some a) (u\<lparr>u_coin := u_coin u - 1\<rparr>) w0"
    have ok0: "world_ok w0" unfolding w0_def by (rule world_ok_set_player [OF assms(1,3) s(10)]) simp
    have ok1: "world_ok w1" unfolding w1_def by (rule world_ok_set_user [OF ok0]) (simp add: there_def w0_def u(2))
    have pl: "player j w1 = (if i = j then (player i w)\<lparr>p_op_time := now e\<rparr> else player j w)" for j
      using assms(3) world_parts(5) [OF assms(1)] by (simp add: w1_def w0_def)
    have rm: "w_rooms w1 = w_rooms w" by (simp add: w1_def w0_def)
    have n1: "n_rooms w1 = n_rooms w" by (simp add: n_rooms_def rm)
    have sh: "shoot e i js (u_coin u - 1) w1 = Inr w'"
      using assms(5) u False by (simp add: toShot_def user_at_def w1_def w0_def)
    obtain bl where bl: "r_bullets (room_of w i) = Some bl" "bullets_ok bl" using s(8) by blast
    have pr: "p_room (player i w1) = p_room (player i w)" by (simp add: pl)
    have ra: "room_at (w_rooms w1) (p_room (player i w) - 1) = Inr (room_of w i)" using s(6) rm by simp
    obtain uid x y ag b l m where c: "bullets_create (Suc (fuel e)) (fuel e) (fresh e) uid x y ag (mtime 1 e) bl = Inr (b, l)"
      and sd: "sendmsgToRoom i m (set_room (p_room (player i w) - 1) ((room_of w i)\<lparr>r_bullets := Some l\<rparr>) w1) = Inr w'"
      using sh bl(1) ra pr by (simp add: shoot_def rbind_eq_Inr Let_def split_paired_Ex case_prod_unfold) blast
    have "length (nl_items bl) \<le> fuel e \<and> fresh e \<notin> fst ` set (nl_items bl)"
      using good_room(2) [OF assms(2) s(1)] bl(1) by (simp add: room_of_def)
    then have lok: "bullets_ok l"
      using bullets_create_ok [OF bl(2), of "fresh e" "fuel e" "Suc (fuel e)" uid x y ag "mtime 1 e"] c assms(2) by (auto simp: good_def)
    let ?r = "(room_of w i)\<lparr>r_bullets := Some l\<rparr>"
    have rok: "room_ok ?r" using s(11) bl(1) lok by (auto simp: room_ok_def room_empty_def split: option.splits)
    have "world_ok (set_room (p_room (player i w) - 1) ?r w1)"
      by (rule world_ok_set_room [OF ok1 _ rok]) (use s(1) in \<open>simp_all add: n1 room_of_def rm\<close>)
    then have "keeps w (set_room (p_room (player i w) - 1) ?r w1)"
      by (rule keepsI) (simp_all add: pl n_rooms_def rm)
    then show ?thesis using keeps_trans [OF _ keeps_same [OF _ sendmsgToRoom_same [OF sd]]] keeps_ok by blast
  qed
qed

lemma hitFish_keeps:
  assumes "world_ok w" "good e w" "i < max_len" "p_room (player i w) \<noteq> 0" "hitFish e i js w = Inr w'"
  shows "keeps w w'"
proof -
  note s = world_seat [OF assms(1,3,4)]
  obtain a u where u: "p_user (player i w) = Some a" "w_users w a = Some u" using s(9) by blast
  obtain bl where bl: "r_bullets (room_of w i) = Some bl" "bullets_ok bl" using s(8) by blast
  obtain fl where fl: "r_fishs (room_of w i) = Some fl" "fishs_ok fl" using s(7) by blast
  obtain bid b where b: "bullets_getBullet (fuel e) bid (p_uid (player i w)) bl = Inr b"
    and r: "(case b of
             Some ba \<Rightarrow> rbind (hit_one e i js bid fl u w) (\<lambda>(fl1, u1, w1).
                     rbind (nl_put ba (\<lambda>b. b\<lparr>b_isdel := 1, b_lock := 0\<rparr>) bl) (\<lambda>bl1.
                       Inr (set_room (p_room (player i w) - 1) ((room_of w i)\<lparr>r_fishs := Some fl1, r_bullets := Some bl1\<rparr>)
                            (set_user (Some a) u1 w1))))
           | None \<Rightarrow> Inr (sendmsg i ''{op:'hit fish', status:0, msg:'no valid!'}'' w)) = Inr w'"
    using assms(5) s(6) bl(1) fl(1) u by (auto simp: hitFish_def rbind_eq_Inr user_at_def split: option.splits)
  show ?thesis
  proof (cases b)
    case None
    then show ?thesis using r keeps_same [OF assms(1)] by auto
  next
    case (Some ba)
    obtain fl1 u1 w1 bl1 where h: "hit_one e i js bid fl u w = Inr (fl1, u1, w1)" "nl_put ba (\<lambda>b. b\<lparr>b_isdel := 1, b_lock := 0\<rparr>) bl = Inr bl1"
      and w': "w' = set_room (p_room (player i w) - 1) ((room_of w i)\<lparr>r_fishs := Some fl1, r_bullets := Some bl1\<rparr>) (set_user (Some a) u1 w1)"
      using r Some by (auto simp: rbind_eq_Inr)
    have lf: "length (nl_items fl) \<le> fuel e" and lb: "length (nl_items bl) \<le> fuel e"
      using good_room [OF assms(2) s(1)] fl(1) bl(1) by (simp_all add: room_of_def)
    have k: "fishs_ok fl1" "same_state w w1" using hit_one_keeps [OF fl(2) lf h(1)] by simp_all
    obtain x where "(ba, x) \<in> set (nl_items bl)"
      using b Some bullets_getBullet_own [OF bl(2) lb] split_find by fastforce
    then have bk: "bullets_ok bl1" using bullets_put_keeps [OF bl(2) _ _ h(2)] by simp
    define w2 where "w2 = set_user (Some a) u1 w1"
    have ok1: "world_ok w1" using assms(1) world_ok_same [OF k(2)] by simp
    have ok2: "world_ok w2" unfolding w2_def by (rule world_ok_set_user [OF ok1]) (use k(2) u(2) in \<open>simp add: there_def same_state_def\<close>)
    have rm1: "w_rooms w1 = w_rooms w" using k(2) by (simp add: same_state_def)
    then have rm: "w_rooms w2 = w_rooms w" by (simp add: w2_def)
    let ?r = "(room_of w i)\<lparr>r_fishs := Some fl1, r_bullets := Some bl1\<rparr>"
    have rok: "room_ok ?r" using s(11) fl(1) bl(1) k(1) bk by (auto simp: room_ok_def room_empty_def)
    have "world_ok w'" unfolding w' w2_def [symmetric]
      by (rule world_ok_set_room [OF ok2 _ rok]) (use s(1) in \<open>simp_all add: n_rooms_def room_of_def rm\<close>)
    then show ?thesis
      by (rule keepsI) (simp_all add: w' n_rooms_def rm1 same_player [OF k(2)])
  qed
qed

end
