(* ===== verification/Threads.thy ===== *)
theory Threads
  imports Joining
begin

text \<open>
  The background threads (\<open>src/thread/thread.hpp\<close>): each is given by one pass of its endless
  loop, or by its whole body when it ends. A pass is taken as one step, the interleaving of
  the passes with the message handling is the step relation of theory \<open>Server\<close>. The clock, the
  random numbers and the fresh addresses may differ from room to room: \<open>es k\<close> is the
  environment of the turn for room \<open>k\<close>.
\<close>

section \<open>Sweeping the rooms\<close>

fun for_rooms :: "(nat \<Rightarrow> 'f World \<Rightarrow> 'f World res) \<Rightarrow> nat list \<Rightarrow> 'f World \<Rightarrow> 'f World res" where
  "for_rooms f [] w = Inr w"
| "for_rooms f (k # ks) w = rbind (f k w) (for_rooms f ks)"

text \<open>A locked object stays; one marked as deleted goes, and a bullet older than 10 seconds.\<close>

definition bullet_dead :: "'f env \<Rightarrow> nat \<Rightarrow> 'f Bullet \<Rightarrow> bool" where
  "bullet_dead e k b \<longleftrightarrow> b_lock b = 0 \<and> (b_isdel b \<noteq> 0 \<or> mtime k e - b_create_time b > 10000000)"

definition sweep_bullets :: "'f env \<Rightarrow> 'f Bullets \<Rightarrow> 'f Bullets res" where
  "sweep_bullets e l = sweep (fuel e) clearing nl_look bullets_destroy (bullet_dead e) 0 (bullets_getHead l) l"

definition bullet_room :: "'f env \<Rightarrow> nat \<Rightarrow> 'f World \<Rightarrow> 'f World res" where
  "bullet_room e k w = rbind (room_at (w_rooms w) (int k)) (\<lambda>r.
     case r_bullets r of None \<Rightarrow> Inr w
     | Some l \<Rightarrow> rbind (sweep_bullets e l) (\<lambda>l1. Inr (set_room (int k) (r\<lparr>r_bullets := Some l1\<rparr>) w)))"

definition thread_bullet :: "(nat \<Rightarrow> 'f env) \<Rightarrow> 'f World \<Rightarrow> 'f World res" where
  "thread_bullet es w = for_rooms (\<lambda>k. bullet_room (es k) k) [0..<nat (getMaxRoom (w_rooms w))] w"

definition fish_dead :: "nat \<Rightarrow> Fish \<Rightarrow> bool" where
  "fish_dead k f \<longleftrightarrow> f_lock f = 0 \<and> f_isdel f \<noteq> 0"

definition sweep_fish :: "'f env \<Rightarrow> Fishs \<Rightarrow> Fishs res" where
  "sweep_fish e l = sweep (fuel e) clearing nl_look fishs_destroy fish_dead 0 (fishs_getHead l) l"

text \<open>A room with fewer than ten fish gets a new one, which its players are told about.\<close>

definition spawn_fish :: "'f env \<Rightarrow> nat \<Rightarrow> Fishs \<Rightarrow> 'f World \<Rightarrow> (Fishs \<times> 'f World) res" where
  "spawn_fish e k l w =
     (if fishs_getLength l < 10 then
        rbind (fishs_create (Suc (fuel e)) (fuel e) (rnd e) (fresh e) (w_setting w) (mtime 0 e) l) (\<lambda>(a, l1).
          case a of None \<Rightarrow> Inr (l1, w)
          | Some a \<Rightarrow> rbind (nl_look l1 a) (\<lambda>(f, _). rbind (fishJson f) (\<lambda>msg.
              rbind (room_at (w_rooms w) (int k)) (\<lambda>r. Inr (l1, send_seats (r_players r) (emsg 1 1 (bytes_of msg)) w)))))
      else Inr (l, w))"

definition fish_room :: "'f env \<Rightarrow> nat \<Rightarrow> 'f World \<Rightarrow> 'f World res" where
  "fish_room e k w = rbind (room_at (w_rooms w) (int k)) (\<lambda>r.
     case r_fishs r of None \<Rightarrow> Inr w
     | Some l \<Rightarrow> rbind (spawn_fish e k l w) (\<lambda>(l1, w1). rbind (sweep_fish e l1) (\<lambda>l2.
         Inr (set_room (int k) (r\<lparr>r_fishs := Some l2\<rparr>) w1))))"

definition thread_fish :: "(nat \<Rightarrow> 'f env) \<Rightarrow> 'f World \<Rightarrow> 'f World res" where
  "thread_fish es w = for_rooms (\<lambda>k. fish_room (es k) k) [0..<nat (getMaxRoom (w_rooms w))] w"

section \<open>Saving users\<close>

text \<open>The interval is read once, when the thread starts.\<close>

definition save_interval :: "Setting \<Rightarrow> int" where
  "save_interval st = (let t = systemToInt st ''game_user_save_timeval'' 0 in if t < 5 then 300 else t)"

text \<open>\<open>saved_at i\<close> is the clock \<open>save\<close> reads for the user of player \<open>i\<close>.\<close>

fun save_due :: "'d mysql_lib \<Rightarrow> int \<Rightarrow> int \<Rightarrow> (nat \<Rightarrow> int) \<Rightarrow> nat list \<Rightarrow> 'f World \<Rightarrow> 'd Mysql \<Rightarrow> ('f World \<times> 'd Mysql) res" where
  "save_due lib timeval now_time saved_at [] w m = Inr (w, m)"
| "save_due lib timeval now_time saved_at (i # is) w m =
     rbind (if p_user (player i w) = None then Inr (w, m)
       else rbind (user_at w (p_user (player i w))) (\<lambda>u.
         if i32 (now_time - u_op_time u) > timeval
         then rbind (save lib (saved_at i) u m) (\<lambda>(u1, m1). Inr (set_user (p_user (player i w)) u1 w, m1))
         else Inr (w, m))) (\<lambda>(w1, m1). save_due lib timeval now_time saved_at is w1 m1)"

definition userSave :: "'d mysql_lib \<Rightarrow> int \<Rightarrow> int \<Rightarrow> (nat \<Rightarrow> int) \<Rightarrow> 'f World \<Rightarrow> 'd Mysql \<Rightarrow> ('f World \<times> 'd Mysql) res" where
  "userSave lib timeval now_time saved_at w m = save_due lib timeval now_time saved_at [0..<max_len] w m"

text \<open>The thread of a user who has left: save, free what the user holds, free the user.\<close>

definition userLeave :: "'d mysql_lib \<Rightarrow> int \<Rightarrow> nat \<Rightarrow> 'f World \<Rightarrow> 'd Mysql \<Rightarrow> ('f World \<times> 'd Mysql) res" where
  "userLeave lib t a w m =
     rbind (user_at w (Some a)) (\<lambda>u. rbind (save lib t u m) (\<lambda>(u1, m1). rbind (destory u1) (\<lambda>u2.
       Inr (w\<lparr>w_users := (w_users w)(a := None)\<rparr>, m1))))"

section \<open>Verifying an account\<close>

definition verify_failed :: string where
  "verify_failed = ''{'op':'verify account', 'uid':0, 'status':0}''"

definition verify_text :: "User \<Rightarrow> int \<Rightarrow> string" where
  "verify_text u t = ''{'op':'verify account', 'status':1, 'uid':'' @ dec_int (u_id u) @ '', 'coin':'' @ dec_int (u_coin u) @
     '', 'name':'' @ [APOS] @ show_str (u_name u) @ [APOS] @ '', 'time':'' @ fmt_time t @ ''}''"

text \<open>The first record with the user identifier: at most one is looked at further.\<close>

fun find_uid :: "int \<Rightarrow> nat \<Rightarrow> Player list \<Rightarrow> nat option" where
  "find_uid uid i [] = None"
| "find_uid uid i (p # ps) = (if p_uid p = uid then Some i else find_uid uid (Suc i) ps)"

text \<open>Another connection of the user: put off line when that one agrees to be kicked.\<close>

definition kick_other :: "'f env \<Rightarrow> int \<Rightarrow> 'f World \<Rightarrow> (bool \<times> 'f World) res" where
  "kick_other e uid w =
     (case find_uid uid 0 (players (w_players w)) of
        None \<Rightarrow> Inr (True, w)
      | Some j \<Rightarrow>
          if p_kick (player j w) \<noteq> 0
          then rbind (world_leave e j (sendmsg j ''{'op':'offline', 'status':1}'' w)) (\<lambda>w1. Inr (True, world_remove j w1))
          else Inr (False, w))"

text \<open>The new user takes the record of player \<open>i\<close>, whatever has become of it meanwhile.\<close>

definition log_in :: "'d mysql_lib \<Rightarrow> 'f env \<Rightarrow> nat \<Rightarrow> int \<Rightarrow> User \<Rightarrow> 'f World \<Rightarrow> 'd Mysql \<Rightarrow> ('f World \<times> 'd Mysql) res" where
  "log_in lib e i uid u w m =
     rbind (load lib (now e) u m) (\<lambda>(_, u1, m1).
       let w1 = (set_player i (\<lambda>p. p\<lparr>p_uid := uid, p_user := Some (fresh e)\<rparr>) w)\<lparr>w_users := (w_users w)(fresh e \<mapsto> u1)\<rparr>
       in rbind (sprintf_buf 128 (verify_text u1 (mtime 1 e))) (\<lambda>s. Inr (sendmsg i s w1, m1)))"

text \<open>
  The key is what \<open>tmp\<close> of the record points to. \<open>u0\<close> is what the fresh memory of the user
  holds; it is given back on every path that does not log in.
\<close>

definition thread_verify :: "'d mysql_lib \<Rightarrow> 'f env \<Rightarrow> User \<Rightarrow> nat \<Rightarrow> 'f World \<Rightarrow> 'd Mysql \<Rightarrow> ('f World \<times> 'd Mysql) res" where
  "thread_verify lib e u0 i w m = (case p_tmp (player i w) of
       None \<Rightarrow> Inl NullDeref
     | Some key \<Rightarrow>
         if CHR 0x22 \<in> set key \<or> APOS \<in> set key then Inr (sendmsg i verify_failed w, m)
         else rbind (checkSignKey lib key u0 m) (\<lambda>(uid, u, m1).
           if uid \<le> 0 then Inr (sendmsg i verify_failed w, m1)
           else if list_ex (\<lambda>p. p_save_uid p = uid) (players (w_players w))
           then Inr (sendmsg i ''{'op':'verify account', 'status':-1}'' w, m1)
           else rbind (kick_other e uid w) (\<lambda>(free, w1).
             if free then log_in lib e i uid u w1 m1
             else Inr (sendmsg i ''{'op':'verify account', 'status':-2}'' w1, m1))))"

end
