(* ===== verification/Server.thy ===== *)
theory Server
  imports Threads Sha1 Base64
begin

text \<open>
  The WebSocket server (\<open>src/source/websocket.hpp\<close>): accepting a connection, the handshake, a
  message, the end of a connection, and the loop over the connected players. The memory pool,
  the CPU load shown by one handler and what an unassigned \<open>char\<close> holds are arguments.
\<close>

record ('f, 'd, 'r) Server =
  world :: "'f World"
  db :: "'d Mysql"
  redis :: 'r

section \<open>Connecting\<close>

definition ip_key :: "int \<Rightarrow> string" where
  "ip_key ip = ''ip_limit_'' @ dec_int (i32 ip)"

definition ip_record :: "int \<Rightarrow> int \<Rightarrow> int \<Rightarrow> string" where
  "ip_record start_time now_time n =
     ''{'start_time':'' @ dec_int start_time @ '','end_time':'' @ dec_int now_time @ '','count':'' @ dec_int n @ ''}''"

text \<open>The start time and the count of the record found, with this connection counted.\<close>

definition ip_counted :: "char \<Rightarrow> int \<Rightarrow> string option \<Rightarrow> (int \<times> int) res" where
  "ip_counted junk now_time result = (case result of
       None \<Rightarrow> Inr (now_time, 1)
     | Some s \<Rightarrow> rbind (parseString junk s None) (\<lambda>(_, js). rbind (valueToInt js ''start_time'') (\<lambda>start_time.
         rbind (valueToInt js ''count'') (\<lambda>n. rbind (json_clear js) (\<lambda>_. Inr (start_time, i32 (n + 1)))))))"

definition onconnect :: "'r redis_lib \<Rightarrow> char \<Rightarrow> int \<Rightarrow> int \<Rightarrow> int \<Rightarrow> 'f World \<times> 'r \<Rightarrow> ('f World \<times> 'r) res" where
  "onconnect lib junk now_time sk ip s =
     (case s of (w, r) \<Rightarrow>
        rbind (sprintf_buf 32 (ip_key ip)) (\<lambda>key. case redis_get lib key r of (result, r1) \<Rightarrow>
          rbind (ip_counted junk now_time result) (\<lambda>(start_time, n).
          rbind (if result \<noteq> None \<and> n > 10000 then Inr (w\<lparr>w_acts := w_acts w @ [CloseSocket sk]\<rparr>)
                 else rbind (players_add sk ip now_time (w_players w)) (\<lambda>(_, ps). Inr (w\<lparr>w_players := ps\<rparr>))) (\<lambda>w1.
          rbind (sprintf_buf 128 (ip_record start_time now_time n)) (\<lambda>v. Inr (w1, snd (redis_set lib key v r1)))))))"

section \<open>The handshake\<close>

text \<open>The buffer a message was received into, up to its first NUL.\<close>

definition c_prefix :: "bytes \<Rightarrow> bytes" where
  "c_prefix bs = takeWhile (\<lambda>b. b \<noteq> 0) bs"

fun strstr :: "string \<Rightarrow> string \<Rightarrow> nat option" where
  "strstr [] need = (if need = [] then Some 0 else None)"
| "strstr (c # s) need = (if take (length need) (c # s) = need then Some 0 else map_option Suc (strstr s need))"

text \<open>
  The key goes up to the carriage return, blanks left out, at most 50 characters; the walk
  does not stop at the end of the text but goes on in the buffer.
\<close>

function sec_key :: "bytes \<Rightarrow> nat \<Rightarrow> bytes \<Rightarrow> bytes res" where
  "sec_key buf p sec = rbind (rd_arr buf p) (\<lambda>c.
     if c \<noteq> 13 \<and> length sec < 50 then sec_key buf (Suc p) (if c \<noteq> 32 then sec @ [c] else sec) else Inr sec)"
  by pat_completeness auto
termination
  by (relation "measure (\<lambda>(buf, p, sec). Suc (length buf) - p)") (auto simp: rd_arr_def split: if_splits)

declare sec_key.simps [simp del]

definition guid :: string where
  "guid = ''258EAFA5-E914-47DA-95CA-C5AB0DC85B11''"

definition upgrade_text :: "string \<Rightarrow> string" where
  "upgrade_text accept =
     ''HTTP/1.1 101 WebSocket Protocol Handshake'' @ [CHR 0x0D, CHR 0x0A] @
     ''Upgrade: websocket'' @ [CHR 0x0D, CHR 0x0A] @ ''Connection: Upgrade'' @ [CHR 0x0D, CHR 0x0A] @
     ''WebSocket-Origin: http://127.0.0.1'' @ [CHR 0x0D, CHR 0x0A] @
     ''WebSocket-Location: ws://127.0.0.1:1680'' @ [CHR 0x0D, CHR 0x0A] @
     ''Sec-WebSocket-Accept: '' @ accept @ [CHR 0x0D, CHR 0x0A, CHR 0x0D, CHR 0x0A]"

text \<open>
  The answer to a key: 50 characters fill \<open>sec\<close>, and the NUL behind them is outside of it.
  \<open>block\<close> is what the SHA-1 context's block held before.
\<close>

definition accept_text :: "bytes \<Rightarrow> bytes \<Rightarrow> string res" where
  "accept_text block sec =
     (if 50 \<le> length sec then Inl OutOfBounds
      else case sha1_hash block (c_prefix sec @ bytes_of guid) of
          (_, None) \<Rightarrow> Inl Uninit
        | (_, Some digest) \<Rightarrow> Inr (upgrade_text (base64_encode digest)))"

definition hack :: "bytes \<Rightarrow> bytes \<Rightarrow> nat \<Rightarrow> 'f World \<Rightarrow> 'f World res" where
  "hack block buf i w = (case strstr (text_of (c_prefix buf)) ''Sec-WebSocket-Key:'' of
       None \<Rightarrow> Inr w
     | Some p \<Rightarrow> rbind (sec_key buf (p + 18) []) (\<lambda>sec. rbind (accept_text block sec) (\<lambda>t.
         Inr (set_player i (\<lambda>p. p\<lparr>p_hack := 1\<rparr>) (send (p_socket (player i w)) (bytes_of t) w)))))"

section \<open>Messages and the end of a connection\<close>

definition onclose :: "'f env \<Rightarrow> nat \<Rightarrow> 'f World \<Rightarrow> 'f World res" where
  "onclose e i w = rbind (world_leave e i w) (\<lambda>w1. Inr (world_remove i w1))"

definition onmessage :: "'f env \<Rightarrow> mem \<Rightarrow> string \<Rightarrow> char \<Rightarrow> bytes \<Rightarrow> nat \<Rightarrow> 'f World \<Rightarrow> 'f World res" where
  "onmessage e mem cpu junk buf i w =
     (if closeing (w_setting w) then Inr w
      else rbind (fmsg buf) (\<lambda>(code, t_msg).
        if code = -1 then onclose e i w
        else if code = 1 then
          (case t_msg of None \<Rightarrow> Inl NullDeref
           | Some bs \<Rightarrow> rbind (parseString junk (text_of (c_prefix bs)) None) (\<lambda>(_, js).
               rbind (entry e mem cpu i js w) (\<lambda>w1. rbind (json_clear js) (\<lambda>_. Inr w1))))
        else Inr w))"

text \<open>An unassigned setting read is a fault; the tests are made in order.\<close>

definition timed_out :: "int option \<Rightarrow> int \<Rightarrow> bool \<Rightarrow> bool res" where
  "timed_out limit waited idle = (case limit of None \<Rightarrow> Inl Uninit | Some n \<Rightarrow> Inr (n > 0 \<and> waited > n \<and> idle))"

definition onread :: "int \<Rightarrow> Setting \<Rightarrow> Player \<Rightarrow> bool res" where
  "onread now_time st p =
     rbind (timed_out (no_verify_account_timout (vals st)) (i32 (now_time - p_in_time p)) (p_uid p = 0)) (\<lambda>b.
       if b then Inr False
       else rbind (timed_out (no_game_timeout (vals st)) (i32 (now_time - p_in_time p)) (p_room p = 0)) (\<lambda>b.
         if b then Inr False
         else rbind (timed_out (no_op_timeout (vals st)) (i32 (now_time - p_op_time p)) True) (\<lambda>b. Inr (\<not> b))))"

section \<open>The loop over the players\<close>

text \<open>The sockets asked for in \<open>select\<close>; a connection whose time is over is closed.\<close>

fun drop_idle :: "'f env \<Rightarrow> int \<Rightarrow> nat list \<Rightarrow> int list \<Rightarrow> 'f World \<Rightarrow> (int list \<times> 'f World) res" where
  "drop_idle e now_time [] fds w = Inr (fds, w)"
| "drop_idle e now_time (i # is) fds w =
     (if p_socket (player i w) = 0 then drop_idle e now_time is fds w
      else rbind (onread now_time (w_setting w) (player i w)) (\<lambda>stay.
        if stay then drop_idle e now_time is (p_socket (player i w) # fds) w
        else rbind (onclose e i w) (\<lambda>w1. drop_idle e now_time is fds w1)))"

text \<open>
  What \<open>recv\<close> of 1023 bytes leaves: \<open>ret\<close> bytes and a NUL. A full buffer makes one more
  \<open>recv\<close> of a single character; when that succeeds the message is cut behind its first byte.
\<close>

definition received :: "nat \<Rightarrow> bool \<Rightarrow> bytes \<Rightarrow> bytes" where
  "received ret one_more buf =
     (let b1 = buf[ret := 0] in if ret = 1023 \<and> one_more then b1[1 := 0] else b1)"

text \<open>
  What receiving from a socket gives: the result, whether the error is a reset connection, the
  buffer of 1024 bytes, and whether one more byte comes.
\<close>

record rx =
  rx_ret :: int
  rx_reset :: bool
  rx_buf :: bytes
  rx_more :: bool

text \<open>
  The first player whose message is handled ends the pass; those before it whose \<open>recv\<close> fails
  or gives fewer than 6 bytes are closed. \<open>ret\<close> is the variable of the source that holds the
  result of \<open>select\<close> first and of the last \<open>recv\<close> then: \<open>bad\<close> is its test before a player is
  read, \<open>ret = 0\<close> or a reset connection.
\<close>

definition bad_ret :: "rx \<Rightarrow> bool" where
  "bad_ret r \<longleftrightarrow> rx_ret r = 0 \<or> rx_ret r = -1 \<and> rx_reset r"

definition handle :: "'f env \<Rightarrow> mem \<Rightarrow> string \<Rightarrow> char \<Rightarrow> bytes \<Rightarrow> rx \<Rightarrow> nat \<Rightarrow> 'f World \<Rightarrow> 'f World res" where
  "handle e mem cpu junk block r i w =
     (let msg = received (nat (rx_ret r)) (rx_more r) (rx_buf r)
      in if p_hack (player i w) = 0 then hack block msg i w else onmessage e mem cpu junk msg i w)"

fun serve :: "'f env \<Rightarrow> ('f World \<Rightarrow> nat \<Rightarrow> rx \<Rightarrow> 'f World res) \<Rightarrow> (int \<Rightarrow> rx) \<Rightarrow> int list \<Rightarrow> bool \<Rightarrow> nat list \<Rightarrow> 'f World \<Rightarrow> 'f World res" where
  "serve e handler recv fds bad [] w = Inr w"
| "serve e handler recv fds bad (i # is) w =
     (let sk = p_socket (player i w)
      in if sk = 0 \<or> sk \<notin> set fds then serve e handler recv fds bad is w
         else if bad then rbind (onclose e i w) (serve e handler recv fds bad is)
         else if rx_ret (recv sk) < 6 then rbind (onclose e i w) (serve e handler recv fds (bad_ret (recv sk)) is)
         else handler w i (recv sk))"

text \<open>
  One pass of \<open>run\<close>. \<open>select\<close> answers its result and the sockets it leaves in the set; a result
  of 0 ends the pass.
\<close>

definition run_pass :: "'f env \<Rightarrow> mem \<Rightarrow> string \<Rightarrow> char \<Rightarrow> bytes \<Rightarrow> (int list \<Rightarrow> rx \<times> int list) \<Rightarrow> (int \<Rightarrow> rx) \<Rightarrow> 'f World \<Rightarrow> 'f World res" where
  "run_pass e mem cpu junk block sel recv w =
     rbind (drop_idle e (now e) [0..<max_len] [] w) (\<lambda>(fds, w1).
       case sel fds of (ret, ready) \<Rightarrow>
         if rx_ret ret = 0 then Inr w1
         else serve e (\<lambda>w i r. handle e mem cpu junk block r i w) recv ready (bad_ret ret) [0..<max_len] w1)"

section \<open>Starting\<close>

definition server_start :: "int \<Rightarrow> Setting \<Rightarrow> 'f World" where
  "server_start n st = \<lparr>w_players = players_start, w_rooms = rooms_start (if n \<le> 0 then 100 else n),
     w_users = (\<lambda>_. None), w_setting = st, w_out = [], w_acts = [], w_exited = False\<rparr>"

end
