(* ===== verification/Running.thy ===== *)
theory Running
  imports Keeping Server
begin

text \<open>
  The server runs: accepting, serving and reading keep the invariant and move the seats as the
  seating machine may, in every pass of the loop but one that carries out an administrator's order
  to kick somebody or to stop the server. These two work on copies of the players' records and
  break the invariant (theory \<open>Claims\<close>); \<open>no_order\<close> says of a pass that it carries out neither.
\<close>

text \<open>The operation a received message asks for: the text of its member \<open>op\<close>.\<close>

definition message_op :: "char \<Rightarrow> bytes \<Rightarrow> string option" where
  "message_op junk buf = (case fmsg buf of
       Inr (code, Some bs) \<Rightarrow> if code \<noteq> 1 then None
         else (case parseString junk (text_of (c_prefix bs)) None of
                 Inr (_, js) \<Rightarrow> (case json_value js ''op'' of Inr op \<Rightarrow> op | Inl _ \<Rightarrow> None)
               | Inl _ \<Rightarrow> None)
     | _ \<Rightarrow> None)"

text \<open>An operation that player \<open>i\<close> orders with the privilege for it.\<close>

definition orders :: "nat \<Rightarrow> string \<Rightarrow> 'f World \<Rightarrow> bool" where
  "orders i op w = (case user_at w (p_user (player i w)) of Inl _ \<Rightarrow> False
     | Inr u \<Rightarrow> op = ''kick user'' \<and> kick (u_privilege u) \<or> op = ''exit'' \<and> exit (u_privilege u))"

definition order_in :: "char \<Rightarrow> nat \<Rightarrow> rx \<Rightarrow> 'f World \<Rightarrow> bool" where
  "order_in junk i r w = (case message_op junk (received (nat (rx_ret r)) (rx_more r) (rx_buf r)) of
       None \<Rightarrow> False | Some op \<Rightarrow> orders i op w)"

definition no_order :: "char \<Rightarrow> (int \<Rightarrow> rx) \<Rightarrow> 'f World \<Rightarrow> bool" where
  "no_order junk recv w = list_all (\<lambda>i. \<not> order_in junk i (recv (p_socket (player i w))) w) [0..<max_len]"

lemma no_order_iff: "no_order junk recv w \<longleftrightarrow> (\<forall>i. i < max_len \<longrightarrow> \<not> order_in junk i (recv (p_socket (player i w))) w)"
  unfolding no_order_def list_all_iff set_upt Ball_def atLeastLessThan_iff by blast

lemma no_order_at: "no_order junk recv w \<Longrightarrow> i < max_len \<Longrightarrow> \<not> order_in junk i (recv (p_socket (player i w))) w"
  unfolding no_order_iff by blast

text \<open>Where a player has gone and the others stay as they are, no order is added.\<close>

lemma no_order_less:
  assumes "no_order junk recv w" "w_users w' = w_users w" "\<And>j. player j w' = player j w \<or> player j w' = no_player"
  shows "no_order junk recv w'"
proof -
  have "\<not> order_in junk i (recv (p_socket (player i w'))) w'" if "i < max_len" for i
    using assms(3) [of i] no_order_at [OF assms(1) that]
    by (auto simp: order_in_def orders_def user_at_def assms(2) split: option.splits)
  then show ?thesis unfolding no_order_iff by blast
qed

section \<open>Messages\<close>

lemma sendmsg_part_same: "same_state w w1 \<Longrightarrow> same_state w (sendmsg_part i s x y w1)"
  by (simp add: sendmsg_part_def same_state_def)

lemma senderror_same: "senderror i c w = Inr w' \<Longrightarrow> same_state w w'"
  by (auto simp: senderror_def rbind_eq_Inr)

lemma online_parts_same: "online_parts i t ps w = Inr w' \<Longrightarrow> same_state w w'"
proof (induction ps arbitrary: w)
  case (Cons p ps)
  then consider "online_parts i t ps w = Inr w'" | s where "online_parts i t ps (sendmsg_part i s 0 0 w) = Inr w'"
    by (auto simp: rbind_eq_Inr split: if_splits)
  then show ?case
  proof cases
    case 2
    show ?thesis by (rule same_state_trans [OF same_state_part Cons.IH [OF 2]])
  qed (rule Cons.IH)
qed simp

lemma viewOnline_same: "viewOnline e i w = Inr w' \<Longrightarrow> same_state w w'"
  by (auto simp: viewOnline_def rbind_eq_Inr dest!: online_parts_same)
    (simp add: sendmsg_part_def same_state_def)

lemma other_same: "other i js w = Inr w' \<Longrightarrow> same_state w w'"
  by (auto simp: other_def rbind_eq_Inr)

lemma privileged_keeps:
  assumes "world_ok w" "privileged priv i h w = Inr w'" "h w = Inr w' \<Longrightarrow> keeps w w'"
  shows "keeps w w'"
  using assms(2,3) by (auto simp: privileged_def rbind_eq_Inr split: if_splits dest!: senderror_same intro: keeps_same [OF assms(1)])

lemma privileged_refused:
  assumes "world_ok w" "privileged priv i h w = Inr w'" "\<And>u. user_at w (p_user (player i w)) = Inr u \<Longrightarrow> \<not> priv (u_privilege u)"
  shows "keeps w w'"
  using assms(2,3) by (auto simp: privileged_def rbind_eq_Inr dest!: senderror_same intro: keeps_same [OF assms(1)])

lemma serverInfo_same: "serverInfo m cpu i w = Inr w' \<Longrightarrow> same_state w w'"
  by (auto simp: serverInfo_def rbind_eq_Inr)

text \<open>The settings are not part of the invariant.\<close>

lemma setSetting_keeps:
  assumes "world_ok w" "setSetting i js w = Inr w'"
  shows "keeps w w'"
proof -
  obtain s st where w': "w' = sendmsg i s (w\<lparr>w_setting := st\<rparr>)" using assms(2) by (auto simp: setSetting_def rbind_eq_Inr)
  let ?w = "w\<lparr>w_setting := st\<rparr>"
  have ok: "world_ok ?w" using assms(1) by (subst world_ok_cong [of _ w]) (simp_all add: leaving_def)
  have k: "keeps w ?w" by (rule keepsI [OF ok]) (simp_all add: n_rooms_def player_def)
  show ?thesis unfolding w' by (rule keeps_trans [OF k keeps_same [OF ok]]) simp
qed

lemma leaving_snoc: "leaving (w\<lparr>w_acts := w_acts w @ [StartVerify i]\<rparr>) = leaving w"
  by (simp add: leaving_def)

lemma verifyAccount_keeps:
  assumes "world_ok w" "i < max_len" "p_socket (player i w) \<noteq> 0" "verifyAccount i js w = Inr w'"
  shows "keeps w w'"
proof -
  consider "same_state w w'" | k x where "w' = (set_player i (\<lambda>p. p\<lparr>p_kick := x, p_tmp := Some k\<rparr>) w)\<lparr>w_acts := w_acts w @ [StartVerify i]\<rparr>"
    using assms(4) by (auto simp: verifyAccount_def rbind_eq_Inr split: option.splits)
  then show ?thesis
  proof cases
    case 2
    let ?w = "set_player i (\<lambda>p. p\<lparr>p_kick := x, p_tmp := Some k\<rparr>) w"
    have "world_ok ?w" by (rule world_ok_set_player [OF assms(1-3)]) simp
    then have "world_ok w'" unfolding 2 by (subst world_ok_cong [of _ ?w]) (simp_all add: leaving_def)
    moreover have "player j w' = player j ?w" for j by (simp add: 2 player_def)
    ultimately show ?thesis
      by (intro keepsI) (use assms(2) world_parts(5) [OF assms(1)] in \<open>simp_all add: n_rooms_def 2\<close>)
  qed (rule keeps_same [OF assms(1)])
qed

lemma dispatch_keeps:
  assumes "world_ok w" "good e w" "\<not> orders i op w" "i < max_len" "p_socket (player i w) \<noteq> 0" "dispatch e m cpu i js op w = Inr w'"
  shows "keeps w w'"
proof -
  note d = assms(6) [unfolded dispatch_def strcmp_eq_def]
  have ir: "keeps w w'" if "in_room_only i h w = Inr w'" "p_room (player i w) \<noteq> 0 \<Longrightarrow> h w = Inr w' \<Longrightarrow> keeps w w'" for h
    using that keeps_refl [OF assms(1)] by (auto simp: in_room_only_def split: if_splits)
  have lr: "keeps w w'" if l: "leaveRoom e i w = Inr w'"
  proof -
    obtain w1 s where w1: "world_leave e i w = Inr w1" "w' = sendmsg i s w1" using l by (auto simp: leaveRoom_def rbind_eq_Inr)
    have k: "keeps w w1" by (rule world_leave_step [OF assms(1,4) w1(1)])
    show ?thesis unfolding w1(2) by (rule keeps_trans [OF k keeps_same [OF keeps_ok [OF k]]]) simp
  qed
  have kick: "keeps w w'" if "op = ''kick user''" "privileged kick i h w = Inr w'" for h
    by (rule privileged_refused [OF assms(1) that(2)]) (use assms(3) that(1) in \<open>simp add: orders_def\<close>)
  have stop: "keeps w w'" if "op = ''exit''" "privileged exit i h w = Inr w'" for h
    by (rule privileged_refused [OF assms(1) that(2)]) (use assms(3) that(1) in \<open>simp add: orders_def\<close>)
  have pr: "keeps w w'" if "privileged priv i h w = Inr w'" "h w = Inr w' \<Longrightarrow> keeps w w'" for priv h
    by (rule privileged_keeps [OF assms(1) that])
  show ?thesis
    using d kick stop pr [OF _ keeps_same [OF assms(1) viewOnline_same]] pr [OF _ keeps_same [OF assms(1) serverInfo_same]] pr [OF _ setSetting_keeps [OF assms(1)]]
      verifyAccount_keeps [OF assms(1,4,5)] inRoom_keeps [OF assms(1,2,4,5)] ir [OF _ lr] ir [OF _ toShot_keeps [OF assms(1,2,4)]]
      ir [OF _ hitFish_keeps [OF assms(1,2,4)]] keeps_same [OF assms(1) other_same]
    by (simp split: if_split_asm)
qed

lemma entry_keeps:
  assumes "world_ok w" "good e w" "\<And>op. json_value js ''op'' = Inr (Some op) \<Longrightarrow> \<not> orders i op w" "i < max_len" "p_socket (player i w) \<noteq> 0"
    and "entry e m cpu i js w = Inr w'"
  shows "keeps w w'"
proof -
  obtain op where o: "json_value js ''op'' = Inr op" and r: "(case op of None \<Rightarrow> senderror i ERROR_MSG_OP w
     | Some op \<Rightarrow> if \<not> strcmp_eq op ''verify account'' \<and> p_user (player i w) = None then Inr w else dispatch e m cpu i js op w) = Inr w'"
    using assms(6) by (auto simp: entry_def rbind_eq_Inr)
  from r consider "w' = w" | "same_state w w'" | op' where "op = Some op'" "dispatch e m cpu i js op' w = Inr w'"
    by (auto split: option.splits if_splits dest!: senderror_same)
  then show ?thesis
    by cases (use o assms(3) in \<open>simp_all add: keeps_refl [OF assms(1)] keeps_same [OF assms(1)] dispatch_keeps [OF assms(1,2) _ assms(4,5)]\<close>)
qed

section \<open>Connections\<close>

lemma onclose_keeps:
  assumes "world_ok w" "i < max_len" "onclose e i w = Inr w'"
  shows "keeps w w'"
proof -
  obtain w1 where w1: "world_leave e i w = Inr w1" "w' = world_remove i w1" using assms(3) by (auto simp: onclose_def rbind_eq_Inr)
  have k: "keeps w w1" by (rule world_leave_step [OF assms(1,2) w1(1)])
  have "p_room (player i w1) = 0" using world_leave_keeps [OF assms(1,2) w1(1)] by simp
  then show ?thesis unfolding w1(2) by (rule keeps_trans [OF k world_remove_step [OF keeps_ok [OF k] assms(2)]])
qed

lemma onmessage_keeps:
  assumes "world_ok w" "good e w" "\<And>op. message_op junk buf = Some op \<Longrightarrow> \<not> orders i op w" "i < max_len" "p_socket (player i w) \<noteq> 0"
    and "onmessage e m cpu junk buf i w = Inr w'"
  shows "keeps w w'"
proof -
  consider "closeing (w_setting w)" | code b where "\<not> closeing (w_setting w)" "fmsg buf = Inr (code, b)"
    using assms(6) by (cases "closeing (w_setting w)"; cases "fmsg buf") (auto simp: onmessage_def)
  then consider "w' = w" | "onclose e i w = Inr w'"
    | bs pos js where "fmsg buf = Inr (1, Some bs)" "parseString junk (text_of (c_prefix bs)) None = Inr (pos, js)" "entry e m cpu i js w = Inr w'"
  proof cases
    case 1
    then show ?thesis using assms(6) that(1) by (simp add: onmessage_def)
  next
    case (2 code b)
    have r: "(if code = -1 then onclose e i w
        else if code = 1 then
          (case b of None \<Rightarrow> Inl NullDeref
           | Some bs \<Rightarrow> rbind (parseString junk (text_of (c_prefix bs)) None) (\<lambda>(_, js).
               rbind (entry e m cpu i js w) (\<lambda>w1. rbind (json_clear js) (\<lambda>_. Inr w1))))
        else Inr w) = Inr w'"
      using assms(6) 2 by (simp add: onmessage_def)
    show ?thesis
    proof (cases "code = 1")
      case True
      from r obtain bs pos js where "b = Some bs" "parseString junk (text_of (c_prefix bs)) None = Inr (pos, js)" "entry e m cpu i js w = Inr w'"
        unfolding True by (auto simp: rbind_eq_Inr split: option.splits)
      then show ?thesis using 2 True that(3) by simp
    next
      case False
      then show ?thesis using r that(1,2) by (cases "code = -1") simp_all
    qed
  qed
  then show ?thesis
  proof cases
    case 3
    have "\<not> orders i op w" if "json_value js ''op'' = Inr (Some op)" for op
      using assms(3) [of op] 3(1,2) that by (simp add: message_op_def)
    then show ?thesis by (rule entry_keeps [OF assms(1,2) _ assms(4,5) 3(3)])
  qed (simp_all add: keeps_refl [OF assms(1)] onclose_keeps [OF assms(1,4)])
qed

lemma hack_keeps:
  assumes "world_ok w" "i < max_len" "p_socket (player i w) \<noteq> 0" "hack block buf i w = Inr w'"
  shows "keeps w w'"
proof -
  consider "w' = w" | t where "w' = set_player i (\<lambda>p. p\<lparr>p_hack := 1\<rparr>) (send (p_socket (player i w)) t w)"
    using assms(4) by (auto simp: hack_def rbind_eq_Inr split: option.splits)
  then show ?thesis
  proof cases
    case 2
    have s: "world_ok (send (p_socket (player i w)) t w)" using assms(1) world_ok_same [OF same_state_simps(2)] by blast
    have "world_ok w'" unfolding 2 by (rule world_ok_set_player [OF s assms(2)]) (simp_all add: assms(3))
    then show ?thesis
      by (rule keepsI) (use assms(2) world_parts(5) [OF assms(1)] in \<open>simp_all add: n_rooms_def 2\<close>)
  qed (simp add: keeps_refl assms(1))
qed

section \<open>One pass of the loop\<close>

text \<open>Closing a connection takes fish and bullets away, so the bound on walks stays good.\<close>

lemma room_clear_shape: "room_clear n r = Inr r' \<Longrightarrow> r' = r\<lparr>r_fishs := None, r_bullets := None\<rparr>"
  by (auto simp: room_clear_def rbind_eq_Inr)

lemma rooms_leave_shape:
  assumes "rooms_leave n p w = Inr (p', rs)" "p_room p \<noteq> 0"
  shows "\<exists>r ps r2. room_at w (p_room p - 1) = Inr r \<and> rs = put_room (p_room p - 1) r2 w \<and>
    (r2 = r\<lparr>r_players := ps\<rparr> \<or> r2 = (r\<lparr>r_players := ps\<rparr>)\<lparr>r_fishs := None, r_bullets := None\<rparr>)"
proof -
  obtain r ps where r: "room_at w (p_room p - 1) = Inr r" "\<not> p_seat p < 1" "wr_arr (r_players r) (nat (p_seat p - 1)) None = Inr ps"
    using assms by (auto simp: rooms_leave_def rbind_eq_Inr Let_def split: if_split_asm)
  let ?r = "r\<lparr>r_players := ps\<rparr>"
  obtain r2 where r2: "(if room_empty ?r then room_clear n ?r else Inr ?r) = Inr r2" "rs = put_room (p_room p - 1) r2 w"
    using assms r by (cases "room_empty ?r") (auto simp: rooms_leave_def rbind_eq_Inr Let_def)
  have "r2 = ?r \<or> r2 = ?r\<lparr>r_fishs := None, r_bullets := None\<rparr>"
    using r2(1) room_clear_shape by (cases "room_empty ?r") (simp_all, blast)
  then show ?thesis using r(1) r2(2) by blast
qed

lemma room_good_less: "room_good n a r \<Longrightarrow> room_good n a (r\<lparr>r_players := ps\<rparr>)" "room_good n a (r\<lparr>r_fishs := None, r_bullets := None\<rparr>)"
  by (simp_all add: room_good_def)

lemma good_put:
  assumes "good e w" "nat k < n_rooms w" "room_good (fuel e) (fresh e) r'" "w_rooms w' = put_room k r' (w_rooms w)" "w_users w' = w_users w"
  shows "good e w'"
  using assms by (auto simp: good_def n_rooms_def put_room_nth)

lemma world_leave_good:
  assumes "good e w" "world_leave e' i w = Inr w'"
  shows "good e w'"
proof -
  obtain p rs where l: "rooms_leave (fuel e') (player i w) (w_rooms w) = Inr (p, rs)" and w': "w' = set_player i (\<lambda>_. p) (w\<lparr>w_rooms := rs\<rparr>)"
    using assms(2) by (auto simp: world_leave_def rbind_eq_Inr)
  show ?thesis
  proof (cases "p_room (player i w) = 0")
    case True
    then show ?thesis using assms(1) l by (simp add: rooms_leave_def w' good_def n_rooms_def)
  next
    case False
    let ?k = "p_room (player i w) - 1"
    obtain r ps r2 where r: "room_at (w_rooms w) ?k = Inr r" "rs = put_room ?k r2 (w_rooms w)"
      and r2: "r2 = r\<lparr>r_players := ps\<rparr> \<or> r2 = (r\<lparr>r_players := ps\<rparr>)\<lparr>r_fishs := None, r_bullets := None\<rparr>"
      using rooms_leave_shape [OF l False] by blast
    have k: "nat ?k < n_rooms w" "r = rooms (w_rooms w) ! nat ?k"
      using r(1) by (auto simp: room_at_def rd_arr_def n_rooms_def split: if_splits)
    have "room_good (fuel e) (fresh e) r" using assms(1) k by (simp add: good_def)
    then have "room_good (fuel e) (fresh e) r2" using r2 room_good_less by blast
    then show ?thesis by (rule good_put [OF assms(1) k(1)]) (simp_all add: w' r(2))
  qed
qed

lemma world_remove_rooms: "w_rooms (world_remove i w) = w_rooms w" "w_users (world_remove i w) = w_users w" "w_setting (world_remove i w) = w_setting w"
  by (simp_all add: world_remove_def split: prod.splits)

lemma onclose_good:
  assumes "good e w" "onclose e' i w = Inr w'"
  shows "good e w'"
proof -
  obtain w1 where w1: "world_leave e' i w = Inr w1" "w' = world_remove i w1" using assms(2) by (auto simp: onclose_def rbind_eq_Inr)
  show ?thesis using world_leave_good [OF assms(1) w1(1)] by (simp add: w1(2) good_def n_rooms_def world_remove_rooms)
qed

lemma onclose_users: "onclose e i w = Inr w' \<Longrightarrow> w_users w' = w_users w"
  by (auto simp: onclose_def world_leave_def rbind_eq_Inr world_remove_rooms)

lemma onclose_players:
  assumes "world_ok w" "i < max_len" "onclose e i w = Inr w'"
  shows "player j w' = player j w \<or> player j w' = no_player"
proof -
  obtain w1 where w1: "world_leave e i w = Inr w1" "w' = world_remove i w1" using assms(3) by (auto simp: onclose_def rbind_eq_Inr)
  note l = world_leave_keeps [OF assms(1,2) w1(1)]
  have "world_ok w1" "p_room (player i w1) = 0" using l by simp_all
  from world_remove_ok [OF this(1) assms(2) this(2)] l show ?thesis unfolding w1(2) by (cases "j = i") simp_all
qed

text \<open>What a pass needs of the world and passes on.\<close>

definition ready :: "char \<Rightarrow> (int \<Rightarrow> rx) \<Rightarrow> 'f env \<Rightarrow> 'f World \<Rightarrow> bool" where
  "ready junk recv e w \<longleftrightarrow> world_ok w \<and> good e w \<and> no_order junk recv w"

lemma onclose_ready: "ready junk recv e w \<Longrightarrow> i < max_len \<Longrightarrow> onclose e i w = Inr w' \<Longrightarrow> ready junk recv e w' \<and> keeps w w'"
  using onclose_keeps [of w i e w'] onclose_good [of e w e i w'] onclose_users [of e i w w'] onclose_players [of w i e w'] no_order_less [of junk recv w w']
    keeps_ok [of w w'] by (auto simp: ready_def)

lemma drop_idle_ready:
  "ready junk recv e w \<Longrightarrow> set is \<subseteq> {..<max_len} \<Longrightarrow> drop_idle e t is fds w = Inr (fds', w') \<Longrightarrow> ready junk recv e w' \<and> keeps w w'"
proof (induction "is" arbitrary: fds w)
  case Nil
  then show ?case by (simp add: ready_def keeps_refl)
next
  case (Cons i "is")
  have i: "i < max_len" "set is \<subseteq> {..<max_len}" using Cons.prems(2) by auto
  consider fds1 where "drop_idle e t is fds1 w = Inr (fds', w')" | w1 where "onclose e i w = Inr w1" "drop_idle e t is fds w1 = Inr (fds', w')"
    using Cons.prems(3) by (auto simp: rbind_eq_Inr split: if_splits)
  then show ?case
  proof cases
    case 1
    then show ?thesis by (rule Cons.IH [OF Cons.prems(1) i(2)])
  next
    case 2
    note r = onclose_ready [OF Cons.prems(1) i(1) 2(1)]
    show ?thesis using Cons.IH [OF _ i(2) 2(2)] r keeps_trans by blast
  qed
qed

lemma serve_keeps:
  assumes h: "\<And>w i w'. ready junk recv e w \<Longrightarrow> i < max_len \<Longrightarrow> p_socket (player i w) \<noteq> 0 \<Longrightarrow>
    handler w i (recv (p_socket (player i w))) = Inr w' \<Longrightarrow> keeps w w'"
  shows "ready junk recv e w \<Longrightarrow> set is \<subseteq> {..<max_len} \<Longrightarrow> serve e handler recv fds bad is w = Inr w' \<Longrightarrow> keeps w w'"
proof (induction "is" arbitrary: bad w)
  case Nil
  then show ?case by (simp add: ready_def keeps_refl)
next
  case (Cons i "is")
  have i: "i < max_len" "set is \<subseteq> {..<max_len}" using Cons.prems(2) by auto
  consider bad1 where "serve e handler recv fds bad1 is w = Inr w'"
    | bad1 w1 where "onclose e i w = Inr w1" "serve e handler recv fds bad1 is w1 = Inr w'"
    | "p_socket (player i w) \<noteq> 0" "handler w i (recv (p_socket (player i w))) = Inr w'"
    using Cons.prems(3) by (auto simp: rbind_eq_Inr Let_def split: if_splits)
  then show ?case
  proof cases
    case 1
    then show ?thesis by (rule Cons.IH [OF Cons.prems(1) i(2)])
  next
    case 2
    note r = onclose_ready [OF Cons.prems(1) i(1) 2(1)]
    show ?thesis using Cons.IH [OF _ i(2) 2(2)] r keeps_trans by blast
  next
    case 3
    show ?thesis by (rule h [OF Cons.prems(1) i(1) 3])
  qed
qed

lemma handle_keeps:
  assumes "ready junk recv e w" "i < max_len" "p_socket (player i w) \<noteq> 0" "handle e m cpu junk block (recv (p_socket (player i w))) i w = Inr w'"
  shows "keeps w w'"
proof -
  let ?r = "recv (p_socket (player i w))"
  let ?msg = "received (nat (rx_ret ?r)) (rx_more ?r) (rx_buf ?r)"
  have w: "world_ok w" "good e w" using assms(1) by (simp_all add: ready_def)
  have "\<not> order_in junk i ?r w" by (rule no_order_at [OF _ assms(2)]) (use assms(1) in \<open>simp add: ready_def\<close>)
  then have o: "message_op junk ?msg = Some op \<Longrightarrow> \<not> orders i op w" for op by (simp add: order_in_def)
  show ?thesis using assms(4) hack_keeps [OF w(1) assms(2,3)] onmessage_keeps [OF w o assms(2,3)]
    by (simp add: handle_def Let_def split: if_splits)
qed

lemma all_slots: "set [0..<max_len] \<subseteq> {..<max_len}"
  unfolding set_upt by (rule subsetI) simp

lemma run_pass_keeps:
  assumes "ready junk recv e w" "run_pass e m cpu junk block sel recv w = Inr w'"
  shows "keeps w w'"
proof -
  obtain fds w1 where d: "drop_idle e (now e) [0..<max_len] [] w = Inr (fds, w1)"
    and r: "(case sel fds of (ret, rdy) \<Rightarrow> if rx_ret ret = 0 then Inr w1
      else serve e (\<lambda>w i r. handle e m cpu junk block r i w) recv rdy (bad_ret ret) [0..<max_len] w1) = Inr w'"
    using assms(2) by (auto simp: run_pass_def rbind_eq_Inr)
  have d1: "ready junk recv e w1" "keeps w w1" using drop_idle_ready [OF assms(1) all_slots d] by simp_all
  have "keeps w1 w'"
  proof (cases "sel fds")
    case (Pair ret rdy)
    show ?thesis
    proof (cases "rx_ret ret = 0")
      case True
      then show ?thesis using r Pair d1(1) by (simp add: ready_def keeps_refl)
    next
      case False
      have s: "serve e (\<lambda>w i r. handle e m cpu junk block r i w) recv rdy (bad_ret ret) [0..<max_len] w1 = Inr w'"
        using r Pair False by simp
      from serve_keeps [OF handle_keeps d1(1) all_slots s] show ?thesis .
    qed
  qed
  then show ?thesis by (rule keeps_trans [OF d1(2)])
qed

end
