(* ===== verification/Steps.thy ===== *)
theory Steps
  imports Running
begin

text \<open>
  The background threads keep the invariant, and the step relation of the whole server: a
  connection accepted, a pass of the loop over the players, one room's turn of the two
  sweeping threads, a pass of the saving thread, the thread of a user who has left and the
  thread of an account to verify. Every such event is a step whoever is logged in and whatever
  has become of the connection meanwhile; \<open>orderly\<close> singles out the two kinds of event that do
  not keep the invariant, and a \<open>calm_step\<close> is a step with an event of the other kinds.
\<close>

section \<open>Sweeping a room\<close>

lemma sweep_bullets_ok:
  assumes "bullets_ok l" "length (nl_items l) \<le> fuel e"
  shows "\<exists>l'. sweep_bullets e l = Inr l' \<and> bullets_ok l' \<and> nl_items l' = survivors (bullet_dead e) 0 (nl_items l)"
  unfolding sweep_bullets_def by (rule bullets.sweep_all [OF assms])

lemma sweep_fish_ok:
  assumes "fishs_ok l" "length (nl_items l) \<le> fuel e"
  shows "\<exists>l'. sweep_fish e l = Inr l' \<and> fishs_ok l' \<and> nl_items l' = survivors fish_dead 0 (nl_items l)"
  unfolding sweep_fish_def by (rule fishs.sweep_all [OF assms])

lemma room_at_nth: "k < n_rooms w \<Longrightarrow> room_at (w_rooms w) (int k) = Inr (rooms (w_rooms w) ! k)"
  by (simp add: room_at_in n_rooms_def)

lemma set_room_keeps:
  assumes "world_ok w" "k < n_rooms w" "room_ok r'" "r_players r' = r_players (rooms (w_rooms w) ! k)"
  shows "keeps w (set_room (int k) r' w)"
  by (rule keepsI [OF world_ok_set_room]) (use assms in \<open>simp_all add: n_rooms_def\<close>)

lemma bullet_room_keeps:
  assumes "world_ok w" "good e w" "k < n_rooms w" "bullet_room e k w = Inr w'"
  shows "keeps w w'"
proof (cases "r_bullets (rooms (w_rooms w) ! k)")
  case None
  then show ?thesis using assms(4) keeps_refl [OF assms(1)] by (simp add: bullet_room_def room_at_nth [OF assms(3)])
next
  case (Some l)
  let ?r = "rooms (w_rooms w) ! k"
  have ok: "room_ok ?r" by (rule world_room [OF assms(1,3)])
  then have "bullets_ok l" using Some by (auto simp: room_ok_def)
  then obtain l' where l': "sweep_bullets e l = Inr l'" "bullets_ok l'"
    using sweep_bullets_ok good_room(2) [OF assms(2,3) Some] by blast
  have "w' = set_room (int k) (?r\<lparr>r_bullets := Some l'\<rparr>) w"
    using assms(4) Some l'(1) by (simp add: bullet_room_def room_at_nth [OF assms(3)])
  moreover have "room_ok (?r\<lparr>r_bullets := Some l'\<rparr>)"
    using ok l'(2) Some by (auto simp: room_ok_def room_empty_def split: option.splits)
  ultimately show ?thesis using set_room_keeps [OF assms(1,3)] by simp
qed

lemma spawn_fish_keeps:
  assumes "good e w" "10 \<le> fuel e" "k < n_rooms w" "r_fishs (rooms (w_rooms w) ! k) = Some l" "fishs_ok l"
    and "spawn_fish e k l w = Inr (l1, w1)"
  shows "fishs_ok l1 \<and> length (nl_items l1) \<le> fuel e \<and> same_state w w1"
proof -
  have g: "length (nl_items l) \<le> fuel e" "fresh e \<notin> fst ` set (nl_items l)" "fuel e < 2147483645" "\<forall>j. 0 \<le> rnd e j"
    using good_room(1) [OF assms(1,3,4)] assms(1) by (simp_all add: good_def)
  have nl: "nl_ok l" using assms(5) by (simp add: fishs_ok_def)
  have len: "fishs_getLength l = int (length (nl_items l))"
    using nl by (simp add: fishs_getLength_def nl_ok_def nl_rep_def nl_items_def)
  show ?thesis
  proof (cases "fishs_getLength l < 10")
    case False
    then show ?thesis using assms(5,6) g by (simp add: spawn_fish_def)
  next
    case True
    obtain a where c: "fishs_create (Suc (fuel e)) (fuel e) (rnd e) (fresh e) (w_setting w) (mtime 0 e) l = Inr (a, l1)" and s: "same_state w w1"
      using assms(6) True by (auto simp: spawn_fish_def rbind_eq_Inr split: option.splits)
    obtain f where f: "fishs_ok l1" "nl_items l1 = nl_items l @ [(fresh e, f)]"
      using fishs_create_keeps [OF assms(5) g(1,3,2,4) c] by blast
    then show ?thesis using s True len assms(2) by simp
  qed
qed

lemma fish_room_keeps:
  assumes "world_ok w" "good e w" "10 \<le> fuel e" "k < n_rooms w" "fish_room e k w = Inr w'"
  shows "keeps w w'"
proof (cases "r_fishs (rooms (w_rooms w) ! k)")
  case None
  then show ?thesis using assms(5) keeps_refl [OF assms(1)] by (simp add: fish_room_def room_at_nth [OF assms(4)])
next
  case (Some l)
  let ?r = "rooms (w_rooms w) ! k"
  have ok: "room_ok ?r" by (rule world_room [OF assms(1,4)])
  then have lok: "fishs_ok l" using Some by (auto simp: room_ok_def)
  obtain l1 w1 l2 where s: "spawn_fish e k l w = Inr (l1, w1)" "sweep_fish e l1 = Inr l2"
    and w': "w' = set_room (int k) (?r\<lparr>r_fishs := Some l2\<rparr>) w1"
    using assms(5) Some by (auto simp: fish_room_def room_at_nth [OF assms(4)] rbind_eq_Inr)
  have k: "fishs_ok l1" "length (nl_items l1) \<le> fuel e" "same_state w w1"
    using spawn_fish_keeps [OF assms(2-4) Some lok s(1)] by simp_all
  have "fishs_ok l2" using sweep_fish_ok [OF k(1,2)] s(2) by auto
  then have rok: "room_ok (?r\<lparr>r_fishs := Some l2\<rparr>)"
    using ok Some by (auto simp: room_ok_def room_empty_def split: option.splits)
  have rm: "w_rooms w1 = w_rooms w" using k(3) by (simp add: same_state_def)
  have k1: "keeps w w1" by (rule keeps_same [OF assms(1) k(3)])
  have "keeps w1 w'" unfolding w'
    by (rule set_room_keeps [OF keeps_ok [OF k1]]) (use assms(4) rok in \<open>simp_all add: rm n_rooms_def\<close>)
  then show ?thesis by (rule keeps_trans [OF k1])
qed

section \<open>Saving\<close>

lemma set_user_keeps: "world_ok w \<Longrightarrow> there w a \<Longrightarrow> keeps w (set_user (Some a) u w)"
  by (rule keepsI [OF world_ok_set_user]) (simp_all add: n_rooms_def)

lemma save_due_keeps: "world_ok w \<Longrightarrow> save_due lib tv t ts is w m = Inr (w', m') \<Longrightarrow> keeps w w'"
proof (induction "is" arbitrary: w m)
  case Nil
  then show ?case by (simp add: keeps_refl)
next
  case (Cons i "is")
  consider m1 where "save_due lib tv t ts is w m1 = Inr (w', m')"
    | a u u1 m1 where "w_users w a = Some u" "save_due lib tv t ts is (set_user (Some a) u1 w) m1 = Inr (w', m')"
    using Cons.prems(2) by (auto simp: rbind_eq_Inr user_at_def split: if_splits option.splits)
  then show ?case
  proof cases
    case 1
    then show ?thesis by (rule Cons.IH [OF Cons.prems(1)])
  next
    case 2
    have k: "keeps w (set_user (Some a) u1 w)" by (rule set_user_keeps) (use Cons.prems(1) 2(1) in \<open>simp_all add: there_def\<close>)
    show ?thesis by (rule keeps_trans [OF k Cons.IH [OF keeps_ok [OF k] 2(2)]])
  qed
qed

text \<open>The threads started and not yet run are those of the log; one that runs is taken out.\<close>

definition take_act :: "act \<Rightarrow> 'f World \<Rightarrow> 'f World" where
  "take_act x w = w\<lparr>w_acts := remove1 x (w_acts w)\<rparr>"

definition users_leaving :: "act list \<Rightarrow> nat list" where
  "users_leaving xs = concat (map (\<lambda>x. case x of StartUserLeave a \<Rightarrow> [a] | _ \<Rightarrow> []) xs)"

lemma leaving_eq: "leaving w = users_leaving (w_acts w)"
  by (simp add: leaving_def users_leaving_def)

lemma users_leaving_remove: "users_leaving (remove1 (StartUserLeave a) xs) = remove1 a (users_leaving xs)"
  by (induction xs) (auto simp: users_leaving_def split: act.splits)

lemma users_leaving_other: "(\<And>a. x \<noteq> StartUserLeave a) \<Longrightarrow> users_leaving (remove1 x xs) = users_leaving xs"
  by (induction xs) (auto simp: users_leaving_def split: act.splits)

lemma users_leaving_mem: "StartUserLeave a \<in> set xs \<Longrightarrow> a \<in> set (users_leaving xs)"
  by (induction xs) (auto simp: users_leaving_def)

lemma owned_freed:
  assumes "owned pu th lv" "a \<in> set lv" "\<And>b. th' b \<longleftrightarrow> th b \<and> b \<noteq> a"
  shows "owned pu th' (remove1 a lv)"
  using assms unfolding owned_def by (auto dest: notin_set_remove1)

lemma userLeave_keeps:
  assumes "world_ok w" "StartUserLeave a \<in> set (w_acts w)" "userLeave lib t a w m = Inr (w1, m1)"
  shows "keeps w (take_act (StartUserLeave a) w1)"
proof (rule keepsI)
  note p = world_parts [OF assms(1)]
  have w1: "w1 = w\<lparr>w_users := (w_users w)(a := None)\<rparr>" using assms(3) by (auto simp: userLeave_def rbind_eq_Inr)
  let ?w = "take_act (StartUserLeave a) w1"
  have pl: "player j ?w = player j w" for j by (simp add: take_act_def w1 player_def)
  have v: "room_no ?w = room_no w" "seat_no ?w = seat_no w" "joined ?w = joined w" "user_of ?w = user_of w" "seat_of ?w = seat_of w"
    by (simp_all add: fun_eq_iff room_no_def seat_no_def joined_def user_of_def seat_of_def pl) (simp add: take_act_def w1)
  show n: "n_rooms ?w = n_rooms w" by (simp add: n_rooms_def take_act_def w1)
  have lv: "leaving ?w = remove1 a (leaving w)" by (simp add: leaving_eq take_act_def w1 users_leaving_remove)
  have "owned (user_of w) (there ?w) (remove1 a (leaving w))"
    by (rule owned_freed [OF p(4)])
      (use assms(2) in \<open>auto simp: leaving_eq users_leaving_mem there_def take_act_def w1\<close>)
  then show "world_ok ?w" using p v n lv by (intro world_okI) (simp_all add: take_act_def w1)
  show "p_room (player j ?w) = p_room (player j w) \<and> (p_room (player j w) = 0 \<or> p_seat (player j ?w) = p_seat (player j w))" for j
    by (simp add: pl)
qed

section \<open>Verifying an account\<close>

lemma take_verify_keeps: "world_ok w \<Longrightarrow> keeps w (take_act (StartVerify i) w)"
proof (rule keepsI)
  assume w: "world_ok w"
  have "leaving (take_act (StartVerify i) w) = leaving w"
    by (simp add: leaving_eq take_act_def users_leaving_other)
  then show "world_ok (take_act (StartVerify i) w)" using w world_ok_cong [of "take_act (StartVerify i) w" w] by (simp add: take_act_def)
qed (simp_all add: take_act_def n_rooms_def player_def)

lemma find_uid_spec: "find_uid uid k ps = Some j \<Longrightarrow> k \<le> j \<and> j < k + length ps \<and> p_uid (ps ! (j - k)) = uid"
proof (induction ps arbitrary: k)
  case (Cons p ps)
  show ?case
  proof (cases "p_uid p = uid")
    case False
    then have s: "Suc k \<le> j \<and> j < Suc k + length ps \<and> p_uid (ps ! (j - Suc k)) = uid" using Cons.IH [of "Suc k"] Cons.prems by simp
    have "j - k = Suc (j - Suc k)" using s by linarith
    then show ?thesis using s by simp
  qed (use Cons.prems in auto)
qed simp

text \<open>The first record with the identifier is put off line when it agrees to be kicked.\<close>

lemma kick_other_keeps:
  assumes "world_ok w" "kick_other e uid w = Inr (b, w1)"
  shows "keeps w w1 \<and> w_users w1 = w_users w \<and>
    (\<forall>i. player i w1 = (if find_uid uid 0 (players (w_players w)) = Some i \<and> p_kick (player i w) \<noteq> 0 then no_player else player i w)) \<and>
    (b \<longleftrightarrow> (\<forall>i. find_uid uid 0 (players (w_players w)) = Some i \<longrightarrow> p_kick (player i w) \<noteq> 0))"
proof (cases "find_uid uid 0 (players (w_players w))")
  case None
  then show ?thesis using assms(2) keeps_refl [OF assms(1)] by (simp add: kick_other_def)
next
  case (Some j)
  have j: "j < max_len"
    using find_uid_spec [OF Some] world_parts(5) [OF assms(1)] by simp
  show ?thesis
  proof (cases "p_kick (player j w) = 0")
    case True
    then show ?thesis using assms(2) Some keeps_refl [OF assms(1)] by (simp add: kick_other_def)
  next
    case False
    obtain s w2 where w2: "world_leave e j (sendmsg j s w) = Inr w2" "w1 = world_remove j w2" "b"
      using assms(2) Some False by (auto simp: kick_other_def rbind_eq_Inr)
    have ok0: "world_ok (sendmsg j s w)" using assms(1) by simp
    have k0: "keeps w (sendmsg j s w)" by (rule keeps_same [OF assms(1)]) simp
    have k1: "keeps (sendmsg j s w) w2" by (rule world_leave_step [OF ok0 j w2(1)])
    note l = world_leave_keeps [OF ok0 j w2(1)]
    have k2: "keeps w2 w1" unfolding w2(2) by (rule world_remove_step [OF keeps_ok [OF k1] j]) (use l in simp)
    note r = world_remove_ok [OF keeps_ok [OF k1] j]
    have "player i w1 = (if i = j then no_player else player i w)" for i
      using l r by (cases "i = j") (simp_all add: w2(2))
    moreover have "w_users w1 = w_users w" using l r by (simp add: w2(2))
    ultimately show ?thesis using keeps_trans [OF k0 keeps_trans [OF k1 k2]] Some False w2(3) by auto
  qed
qed

lemma owned_new:
  assumes "owned pu th lv" "\<not> th a" "\<And>j. pu' j = (if j = i then Some a else pu j)" "\<And>b. th' b \<longleftrightarrow> th b \<or> b = a"
  shows "owned pu' th' lv"
proof -
  have n: "pu j \<noteq> Some a" if "j < max_len" for j using owned_user [OF assms(1) that] assms(2) by blast
  have nl: "a \<notin> set lv" using assms(1,2) unfolding owned_def by blast
  have 1: "th' b \<and> b \<notin> set lv" if "j < max_len" "pu' j = Some b" for j b
    using that nl owned_user [OF assms(1), of j b] by (auto simp: assms(3,4) split: if_splits)
  have 2: "j = k" if "j < max_len" "k < max_len" "pu' j = Some b" "pu' k = Some b" for j k b
  proof (cases "b = a")
    case True
    then show ?thesis using that n by (auto simp: assms(3) split: if_splits)
  next
    case False
    then have "pu j = Some b" "pu k = Some b" using that by (auto simp: assms(3) split: if_splits)
    then show ?thesis using assms(1) that(1,2) unfolding owned_def by blast
  qed
  have 3: "\<forall>b \<in> set lv. th' b" "distinct lv" using assms(1,4) unfolding owned_def by simp_all
  show ?thesis unfolding owned_def using 1 2 3 by blast
qed

lemma log_in_keeps:
  assumes "world_ok w" "i < max_len" "p_socket (player i w) \<noteq> 0" "w_users w (fresh e) = None"
    and "log_in lib e i uid u w m = Inr (w', m')"
  shows "keeps w w'"
proof -
  note p = world_parts [OF assms(1)]
  obtain u1 s where w': "w' = sendmsg i s ((set_player i (\<lambda>p. p\<lparr>p_uid := uid, p_user := Some (fresh e)\<rparr>) w)\<lparr>w_users := (w_users w)(fresh e \<mapsto> u1)\<rparr>)"
    using assms(5) by (auto simp: log_in_def rbind_eq_Inr)
  let ?w = "(set_player i (\<lambda>p. p\<lparr>p_uid := uid, p_user := Some (fresh e)\<rparr>) w)\<lparr>w_users := (w_users w)(fresh e \<mapsto> u1)\<rparr>"
  let ?q = "(player i w)\<lparr>p_uid := uid, p_user := Some (fresh e)\<rparr>"
  have pl: "player j ?w = (if j = i then ?q else player j w)" for j
    using assms(2) p(5) by (simp add: player_def set_player_def)
  have k: "player_ok i (player i w)" using players_ok_at [OF p(1) assms(2)] by (simp add: player_def)
  have po: "players_ok (put_player i (\<lambda>p. p\<lparr>p_uid := uid, p_user := Some (fresh e)\<rparr>) (w_players w))"
    by (rule players_ok_put [OF p(1) assms(2), of ?q]) (use k assms(3) in \<open>simp_all add: player_def player_ok_def\<close>)
  have n: "n_rooms ?w = n_rooms w" by (simp add: n_rooms_def)
  have ok: "world_ok ?w"
  proof (rule world_okI)
    show "players_ok (w_players ?w)" using po by (simp add: set_player_def)
    show "agree (room_no ?w) (seat_no ?w) (joined ?w) (seat_of ?w) (n_rooms ?w)" unfolding n
      by (rule agree_cong [OF p(3)]) (auto simp: room_no_def seat_no_def joined_def seat_of_def pl)
    show "owned (user_of ?w) (there ?w) (leaving ?w)"
      by (rule owned_new [of "user_of w" "there w" _ "fresh e" _ i])
        (use p(4) assms(4) in \<open>auto simp: user_of_def there_def pl leaving_def\<close>)
  qed (use p in simp)
  have "keeps w ?w" by (rule keepsI [OF ok n]) (simp add: pl)
  then show ?thesis unfolding w' by (rule keeps_trans) (rule keeps_same [OF ok], simp)
qed

text \<open>
  A connection that verifies again the account it is logged in with, and asks that another
  connection of the account be put off line: the record found is its own.
\<close>

definition self_kick :: "'d mysql_lib \<Rightarrow> User \<Rightarrow> nat \<Rightarrow> 'f World \<Rightarrow> 'd Mysql \<Rightarrow> bool" where
  "self_kick lib u0 i w m = (case p_tmp (player i w) of
       None \<Rightarrow> False
     | Some key \<Rightarrow> CHR 0x22 \<notin> set key \<and> APOS \<notin> set key \<and> (case checkSignKey lib key u0 m of
           Inl _ \<Rightarrow> False
         | Inr (uid, _, _) \<Rightarrow> 0 < uid \<and> find_uid uid 0 (players (w_players w)) = Some i \<and> p_kick (player i w) \<noteq> 0))"

text \<open>A thread that runs after its connection has been closed finds no key in the record.\<close>

lemma thread_verify_socket:
  assumes "world_ok w" "i < max_len" "thread_verify lib e u0 i w m = Inr (w', m')"
  shows "p_socket (player i w) \<noteq> 0"
proof
  assume "p_socket (player i w) = 0"
  then have "player i w = no_player" using players_ok_at [OF world_parts(1) [OF assms(1)] assms(2)] by (simp add: player_def player_ok_def)
  then show False using assms(3) by (simp add: thread_verify_def no_player_def)
qed

lemma thread_verify_keeps:
  assumes "world_ok w" "i < max_len" "w_users w (fresh e) = None" "\<not> self_kick lib u0 i w m"
    and "thread_verify lib e u0 i w m = Inr (w', m')"
  shows "keeps w w'"
proof -
  note sk = thread_verify_socket [OF assms(1,2,5)]
  obtain key where key: "p_tmp (player i w) = Some key" using assms(5) by (auto simp: thread_verify_def split: option.splits)
  consider "same_state w w'" | uid u m1 b w1 where "CHR 0x22 \<notin> set key" "APOS \<notin> set key" "checkSignKey lib key u0 m = Inr (uid, u, m1)"
      "0 < uid" "kick_other e uid w = Inr (b, w1)"
      "(if b then log_in lib e i uid u w1 m1 else Inr (sendmsg i ''{'op':'verify account', 'status':-2}'' w1, m1)) = Inr (w', m')"
    using assms(5) by (auto simp: thread_verify_def key rbind_eq_Inr not_le simp del: if_split split: if_split_asm)
  then show ?thesis
  proof cases
    case 2
    note k = kick_other_keeps [OF assms(1) 2(5)]
    have k1: "keeps w w1" and u: "w_users w1 = w_users w" using k by blast+
    have p: "player i w1 = player i w" using k assms(4) 2(1-4) by (auto simp: self_kick_def key)
    show ?thesis
    proof (cases b)
      case True
      have f: "p_socket (player i w1) \<noteq> 0" "w_users w1 (fresh e) = None" unfolding p u by (rule sk) (rule assms(3))
      have "log_in lib e i uid u w1 m1 = Inr (w', m')" using 2(6) True by simp
      from log_in_keeps [OF keeps_ok [OF k1] assms(2) f this] have "keeps w1 w'" .
      then show ?thesis by (rule keeps_trans [OF k1])
    next
      case False
      then show ?thesis using 2(6) by (auto intro: keeps_trans [OF k1 keeps_same [OF keeps_ok [OF k1]]])
    qed
  qed (rule keeps_same [OF assms(1)])
qed

section \<open>A connection\<close>

lemma players_add_keeps:
  assumes "world_ok w" "sk \<noteq> 0" "players_add sk ip t (w_players w) = Inr (b, ps)"
  shows "keeps w (w\<lparr>w_players := ps\<rparr>)"
proof -
  note p = world_parts [OF assms(1)]
  note a = players_add_spec [OF p(1) assms(2), of ip t]
  show ?thesis
  proof (cases "used (players (w_players w)) = max_len")
    case True
    then have "w\<lparr>w_players := ps\<rparr> = w" using a assms(3) by simp
    then show ?thesis using keeps_refl [OF assms(1)] by simp
  next
    case False
    let ?q = "\<lambda>i. no_player\<lparr>p_index := int i, p_socket := sk, p_ip := ip, p_in_time := t\<rparr>"
    obtain i where i: "players_ok ps" "i < max_len" "p_socket (players (w_players w) ! i) = 0" "players ps = (players (w_players w))[i := ?q i]"
      using a assms(3) False by auto
    let ?w = "w\<lparr>w_players := ps\<rparr>"
    have blank: "player i w = no_player"
      using players_ok_at [OF p(1) i(2)] i(3) by (simp add: player_def player_ok_def)
    have pl: "player j ?w = (if j = i then ?q i else player j w)" for j
      using i(2,4) p(5) by (simp add: player_def nth_list_update)
    have v: "room_no ?w = room_no w" "user_of ?w = user_of w" "seat_no ?w = seat_no w"
      by (auto simp: fun_eq_iff room_no_def user_of_def seat_no_def pl blank)
    have v2: "there ?w = there w" "leaving ?w = leaving w" "seat_of ?w = seat_of w" "n_rooms ?w = n_rooms w"
      by (simp_all add: fun_eq_iff there_def leaving_def seat_of_def n_rooms_def)
    have ok: "world_ok ?w"
    proof (rule world_okI)
      show "players_ok (w_players ?w)" using i(1) by simp
      show "agree (room_no ?w) (seat_no ?w) (joined ?w) (seat_of ?w) (n_rooms ?w)" unfolding v v2
        by (rule agree_cong [OF p(3)]) (auto simp: joined_def pl blank)
    qed (use p v v2 in simp_all)
    show ?thesis by (rule keepsI [OF ok v2(4)]) (simp add: pl blank)
  qed
qed

lemma onconnect_keeps:
  assumes "world_ok w" "sk \<noteq> 0" "onconnect lib junk t sk ip (w, r) = Inr (w', r')"
  shows "keeps w w'"
proof -
  consider "w' = w\<lparr>w_acts := w_acts w @ [CloseSocket sk]\<rparr>" | b ps where "players_add sk ip t (w_players w) = Inr (b, ps)" "w' = w\<lparr>w_players := ps\<rparr>"
  proof -
    obtain key where key: "sprintf_buf 32 (ip_key ip) = Inr key" using assms(3) by (auto simp: onconnect_def rbind_eq_Inr)
    obtain result r1 where g: "redis_get lib key r = (result, r1)" by (cases "redis_get lib key r")
    show thesis using assms(3) key g that by (auto simp: onconnect_def rbind_eq_Inr split: if_splits)
  qed
  then show ?thesis
  proof cases
    case 1
    have "world_ok w'" unfolding 1 using assms(1) by (subst world_ok_cong [of _ w]) (simp_all add: leaving_def)
    then show ?thesis by (rule keepsI) (simp_all add: 1 n_rooms_def player_def)
  next
    case 2
    show ?thesis unfolding 2(2) by (rule players_add_keeps [OF assms(1,2) 2(1)])
  qed
qed

section \<open>The steps of the server\<close>

text \<open>
  What the two databases, the network, the clock and the random numbers answer is left open
  in every step, and every event is possible whenever the code can come to it. \<open>good\<close> says of an
  environment that its fuel covers the lists to walk, that the memory it hands out is not in use
  and that its random numbers are not negative. An operation that faults is no step: what the
  program does afterwards is undefined, and a run is one in which every operation so far has
  returned. The label tells a pass from the messages it receives and a verification from the
  connection it is for.
\<close>

datatype event = Accept | Pass char "int \<Rightarrow> rx" | Bullets nat | Fish nat | Save | Leave nat | Verify nat User

inductive step :: "'d mysql_lib \<Rightarrow> 'r redis_lib \<Rightarrow> event \<Rightarrow> ('f, 'd, 'r) Server \<Rightarrow> ('f, 'd, 'r) Server \<Rightarrow> bool" for ml rl where
  accept: "sk \<noteq> 0 \<Longrightarrow> onconnect rl junk t sk ip (world s, redis s) = Inr (w', r') \<Longrightarrow> step ml rl Accept s (s\<lparr>world := w', redis := r'\<rparr>)"
| pass: "good e (world s) \<Longrightarrow> run_pass e m cpu junk block sel recv (world s) = Inr w' \<Longrightarrow>
    step ml rl (Pass junk recv) s (s\<lparr>world := w'\<rparr>)"
| bullets: "good e (world s) \<Longrightarrow> k < nat (getMaxRoom (w_rooms (world s))) \<Longrightarrow> bullet_room e k (world s) = Inr w' \<Longrightarrow>
    step ml rl (Bullets k) s (s\<lparr>world := w'\<rparr>)"
| fish: "good e (world s) \<Longrightarrow> 10 \<le> fuel e \<Longrightarrow> k < nat (getMaxRoom (w_rooms (world s))) \<Longrightarrow> fish_room e k (world s) = Inr w' \<Longrightarrow>
    step ml rl (Fish k) s (s\<lparr>world := w'\<rparr>)"
| save: "userSave ml tv t ts (world s) (db s) = Inr (w', m') \<Longrightarrow> step ml rl Save s (s\<lparr>world := w', db := m'\<rparr>)"
| leave: "StartUserLeave a \<in> set (w_acts (world s)) \<Longrightarrow> userLeave ml t a (world s) (db s) = Inr (w', m') \<Longrightarrow>
    step ml rl (Leave a) s (s\<lparr>world := take_act (StartUserLeave a) w', db := m'\<rparr>)"
| verify: "StartVerify i \<in> set (w_acts (world s)) \<Longrightarrow> i < max_len \<Longrightarrow> w_users (world s) (fresh e) = None \<Longrightarrow>
    thread_verify ml e u0 i (world s) (db s) = Inr (w', m') \<Longrightarrow>
    step ml rl (Verify i u0) s (s\<lparr>world := take_act (StartVerify i) w', db := m'\<rparr>)"

text \<open>
  Two kinds of event are not orderly: a pass that carries out an administrator's order to kick
  somebody or to stop the server, and a verification that puts its own connection off line.
\<close>

fun orderly :: "'d mysql_lib \<Rightarrow> event \<Rightarrow> ('f, 'd, 'r) Server \<Rightarrow> bool" where
  "orderly ml (Pass junk recv) s = no_order junk recv (world s)"
| "orderly ml (Verify i u0) s = (\<not> self_kick ml u0 i (world s) (db s))"
| "orderly ml _ s = True"

definition calm_step :: "'d mysql_lib \<Rightarrow> 'r redis_lib \<Rightarrow> ('f, 'd, 'r) Server \<Rightarrow> ('f, 'd, 'r) Server \<Rightarrow> bool" where
  "calm_step ml rl s s' \<longleftrightarrow> (\<exists>ev. step ml rl ev s s' \<and> orderly ml ev s)"

definition any_step :: "'d mysql_lib \<Rightarrow> 'r redis_lib \<Rightarrow> ('f, 'd, 'r) Server \<Rightarrow> ('f, 'd, 'r) Server \<Rightarrow> bool" where
  "any_step ml rl s s' \<longleftrightarrow> (\<exists>ev. step ml rl ev s s')"

text \<open>A run is calm up to its first event that is not orderly.\<close>

lemma runs_calm_or_not:
  assumes "(any_step ml rl)\<^sup>*\<^sup>* s0 s"
  shows "(calm_step ml rl)\<^sup>*\<^sup>* s0 s \<or>
    (\<exists>s1 ev s2. (calm_step ml rl)\<^sup>*\<^sup>* s0 s1 \<and> step ml rl ev s1 s2 \<and> \<not> orderly ml ev s1 \<and> (any_step ml rl)\<^sup>*\<^sup>* s2 s)"
  using assms
proof (induction rule: rtranclp_induct)
  case (step y z)
  obtain ev where ev: "step ml rl ev y z" using step.hyps(2) by (auto simp: any_step_def)
  from step.IH show ?case
  proof
    assume c: "(calm_step ml rl)\<^sup>*\<^sup>* s0 y"
    show ?thesis
    proof (cases "orderly ml ev y")
      case True
      then have "calm_step ml rl y z" using ev by (auto simp: calm_step_def)
      then show ?thesis using c by (meson rtranclp.rtrancl_into_rtrancl)
    next
      case False
      then show ?thesis using c ev by blast
    qed
  next
    assume "\<exists>s1 ev s2. (calm_step ml rl)\<^sup>*\<^sup>* s0 s1 \<and> step ml rl ev s1 s2 \<and> \<not> orderly ml ev s1 \<and> (any_step ml rl)\<^sup>*\<^sup>* s2 y"
    then show ?thesis using step.hyps(2) by (meson rtranclp.rtrancl_into_rtrancl)
  qed
qed simp

lemma rooms_count: "world_ok w \<Longrightarrow> nat (getMaxRoom (w_rooms w)) = n_rooms w"
  using world_parts(6) [of w] by (simp add: getMaxRoom_def)

lemma step_keeps: "step ml rl ev s s' \<Longrightarrow> orderly ml ev s \<Longrightarrow> world_ok (world s) \<Longrightarrow> keeps (world s) (world s')"
proof (induction rule: step.induct)
  case (accept sk junk t ip s w' r')
  then show ?case using onconnect_keeps [of "world s" sk rl junk t ip "redis s" w' r'] by simp
next
  case (pass e s m cpu junk block sel recv w')
  then have "ready junk recv e (world s)" by (simp add: ready_def)
  then show ?case using run_pass_keeps [OF _ pass.hyps(2)] by simp
next
  case (bullets e s k w')
  then show ?case using bullet_room_keeps [of "world s" e k w'] by (simp add: rooms_count)
next
  case (fish e s k w')
  then show ?case using fish_room_keeps [of "world s" e k w'] by (simp add: rooms_count)
next
  case (save tv t ts s w' m')
  then show ?case using save_due_keeps [of "world s" ml tv t ts "[0..<max_len]" "db s" w' m'] by (simp add: userSave_def)
next
  case (leave a s t w' m')
  then show ?case using userLeave_keeps [of "world s" a ml t "db s" w' m'] by simp
next
  case (verify i s e u0 w' m')
  then have k: "keeps (world s) w'" by (intro thread_verify_keeps [of "world s" i e ml u0 "db s" w' m']) simp_all
  show ?case using keeps_trans [OF k take_verify_keeps [OF keeps_ok [OF k]]] by simp
qed

lemma server_start_ok: "world_ok (server_start n st :: 'f World)"
proof (rule world_okI)
  let ?w = "server_start n st :: 'f World"
  have pl: "i < max_len \<Longrightarrow> player i ?w = no_player" for i
    by (simp add: player_def server_start_def players_start_def players_init_def)
  show "players_ok (w_players ?w)" by (simp add: server_start_def players_start_ok)
  show "rooms_ok (w_rooms ?w)" by (simp add: server_start_def rooms_start_ok)
  have "seat_of ?w r s = None" if "r < n_rooms ?w" "s < 4" for r s
    using that by (auto simp: seat_of_def n_rooms_def server_start_def rooms_start_def setRooms_def less4 split: if_splits)
  then have no: "seat_of ?w r s \<noteq> Some i" if "r < n_rooms ?w" "s < 4" for r s i using that by simp
  show "agree (room_no ?w) (seat_no ?w) (joined ?w) (seat_of ?w) (n_rooms ?w)"
    by (rule agreeI) (use no in \<open>auto simp: room_no_def pl\<close>)
  show "owned (user_of ?w) (there ?w) (leaving ?w)"
    by (simp add: owned_def user_of_def pl leaving_def) (simp add: server_start_def)
qed

section \<open>The server implements the seating machine\<close>

text \<open>A system with an invariant whose steps are, seen through a view, steps of the machine.\<close>

locale seat_refinement =
  fixes ok :: "'s \<Rightarrow> bool"
    and move :: "'s \<Rightarrow> 's \<Rightarrow> bool"
    and seats :: "'s \<Rightarrow> seating"
    and size_of :: "'s \<Rightarrow> nat"
  assumes view_law: "ok s \<Longrightarrow> seating_ok (size_of s) (seats s)"
    and move_law: "ok s \<Longrightarrow> move s t \<Longrightarrow> ok t \<and> size_of t = size_of s \<and> (seat_step (size_of s))\<^sup>*\<^sup>* (seats s) (seats t)"
begin

lemma runs:
  assumes "ok s" "move\<^sup>*\<^sup>* s t"
  shows "ok t \<and> size_of t = size_of s \<and> (seat_step (size_of s))\<^sup>*\<^sup>* (seats s) (seats t) \<and> seating_ok (size_of s) (seats t)"
  using assms(2)
proof (induction rule: rtranclp_induct)
  case base
  then show ?case using assms(1) view_law by simp
next
  case (step y z)
  then have y: "ok y" by simp
  have z: "ok z" "size_of z = size_of y" "(seat_step (size_of y))\<^sup>*\<^sup>* (seats y) (seats z)"
    using move_law [OF y step.hyps(2)] by simp_all
  have "(seat_step (size_of s))\<^sup>*\<^sup>* (seats s) (seats z)"
    using step.IH z(3) by (metis rtranclp_trans)
  then show ?case using z step.IH view_law [OF z(1)] by simp
qed

end

interpretation server: seat_refinement "\<lambda>s. world_ok (world s)" "calm_step ml rl" "\<lambda>s. seating_of (world s)" "\<lambda>s. n_rooms (world s)"
  for ml :: "'d mysql_lib" and rl :: "'r redis_lib"
proof
  fix s t :: "('f, 'd, 'r) Server"
  assume w: "world_ok (world s)"
  then show "seating_ok (n_rooms (world s)) (seating_of (world s))" by (rule seating_of_ok)
  assume "calm_step ml rl s t"
  then obtain ev where "step ml rl ev s t" "orderly ml ev s" by (auto simp: calm_step_def)
  from step_keeps [OF this w]
  show "world_ok (world t) \<and> n_rooms (world t) = n_rooms (world s) \<and>
      (seat_step (n_rooms (world s)))\<^sup>*\<^sup>* (seating_of (world s)) (seating_of (world t))"
    by (simp add: keeps_def)
qed

end
