(* ===== verification/Startup.thy ===== *)
theory Startup
  imports Steps Conf Memory Explode
begin

text \<open>
  \<open>main\<close> (\<open>src/main.cpp\<close>): the configuration and the memory pool, the line that tries the string
  splitter, the connections to Redis and MySQL, the settings, and the state in which the
  server's loop starts. Each early return is a \<open>stop\<close>; what the two libraries and the allocator
  answer is a parameter. The statements about what happens afterwards are those of the
  components, put together for a server that was started this way.
\<close>

datatype stop = NoFile | ConfIncomplete | NoPool int | NoRedis | RedisError string | MysqlError int | NoFish

section \<open>The configuration and the pool\<close>

text \<open>\<open>pool\<close> and \<open>bits\<close> are the addresses the run-time gives for the pool and its flags.\<close>

definition main_config :: "string option \<Rightarrow> int \<Rightarrow> int \<Rightarrow> (stop + Conf \<times> mem) res" where
  "main_config file pool bits =
     rbind (conf_parse file conf_new) (\<lambda>(found, c).
       if \<not> found then Inr (Inl NoFile)
       else if \<not> conf_check c then Inr (Inl ConfIncomplete)
       else rbind (get_memory_size c) (\<lambda>size.
         case memory_init (u32 size) pool bits mem0 of (ok, mem) \<Rightarrow>
           if ok then Inr (Inr (c, mem)) else Inr (Inl (NoPool size))))"

section \<open>Trying the splitter\<close>

definition splitter_line :: "string option res" where
  "splitter_line = rbind (explode_str ''||'' (Some ''1||23||4||||2.,|||||'')) (\<lambda>array. Inr (explode_nth array 2))"

section \<open>The connections and the settings\<close>

text \<open>
  What connecting gives: the context of Redis, which is NULL when there is no memory for it and
  carries an error text when the server is not there, and the connection of MySQL with its
  error number.
\<close>

record ('d, 'r) links =
  redis_context :: "('r \<times> string option) option"
  mysql_conn :: 'd
  mysql_errno :: int

definition ask :: "'d mysql_lib \<Rightarrow> string \<Rightarrow> 'd Mysql \<Rightarrow> row list option \<times> 'd Mysql" where
  "ask ml sql m = (case mysql_real_query ml sql m of (err, m1) \<Rightarrow> if err then (None, m1) else mysql_store_result m1)"

fun row_pairs :: "row list \<Rightarrow> (string option \<times> string option) list res" where
  "row_pairs [] = Inr []"
| "row_pairs (r # rs) = rbind (rd_arr r 0) (\<lambda>k. rbind (rd_arr r 1) (\<lambda>v. rbind (row_pairs rs) (\<lambda>ps. Inr ((k, v) # ps))))"

definition fish_sql :: string where
  "fish_sql = ''SELECT id,no,coin FROM fishs WHERE status=1''"

definition system_sql :: string where
  "system_sql = ''SELECT type,value FROM setting''"

definition new_Setting :: "'d mysql_lib \<Rightarrow> 'd Mysql \<Rightarrow> (Setting \<times> 'd Mysql) res" where
  "new_Setting ml m =
     (case ask ml fish_sql m of (fs, m1) \<Rightarrow> case ask ml system_sql m1 of (ss, m2) \<Rightarrow>
        rbind (case ss of None \<Rightarrow> Inr None | Some rs \<Rightarrow> rbind (row_pairs rs) (\<lambda>ps. Inr (Some ps))) (\<lambda>ps.
        rbind (setting_init fs ps) (\<lambda>st. Inr (st, m2))))"

definition main_connect ::
  "'d mysql_lib \<Rightarrow> 'r redis_lib \<Rightarrow> ('d, 'r) links \<Rightarrow> Conf \<Rightarrow> (stop + ('f, 'd, 'r) Server) res" where
  "main_connect ml rl out c =
     (case redis_context out of
        None \<Rightarrow> Inr (Inl NoRedis)
      | Some (r, Some err) \<Rightarrow> Inr (Inl (RedisError err))
      | Some (r, None) \<Rightarrow>
          (let r1 = snd (redis_set rl ''x'' ''xx'' r); m = mysql_new (mysql_conn out) (mysql_errno out)
           in if mysql_error m \<noteq> 0 then Inr (Inl (MysqlError (mysql_error m)))
              else rbind (setChar ml (conf_get c ''mysql_char'') m) (\<lambda>(_, m1).
                rbind (new_Setting ml m1) (\<lambda>(st, m2).
                  if getFishQty st = 0 then Inr (Inl NoFish)
                  else rbind (getRow ml ''SELECT id FROM users WHERE id=1 LIMIT 1'' m2) (\<lambda>(_, m3).
                    rbind (getItem ml ''SELECT id FROM users WHERE id=122 LIMIT 1'' m3) (\<lambda>(_, m4).
                      Inr (Inr \<lparr>world = server_start (conf_get_int c ''max_room'') st, db = m4, redis = r1\<rparr>)))))))"

text \<open>
  The whole of \<open>main\<close> up to the loop. \<open>line61\<close> is what the line that tries the splitter comes to: as
  \<open>main\<close> is written it is \<open>splitter_line\<close>, and its answer is not used by what follows.
\<close>

definition main_from ::
  "string option res \<Rightarrow> 'd mysql_lib \<Rightarrow> 'r redis_lib \<Rightarrow> ('d, 'r) links \<Rightarrow> string option \<Rightarrow> int \<Rightarrow> int \<Rightarrow> (stop + mem \<times> ('f, 'd, 'r) Server) res" where
  "main_from line61 ml rl out file pool bits =
     rbind (main_config file pool bits) (\<lambda>a. case a of Inl st \<Rightarrow> Inr (Inl st) | Inr (c, mem) \<Rightarrow>
       rbind line61 (\<lambda>_.
       rbind (main_connect ml rl out c) (\<lambda>b. case b of Inl st \<Rightarrow> Inr (Inl st) | Inr s \<Rightarrow> Inr (Inr (mem, s)))))"

definition main_start ::
  "'d mysql_lib \<Rightarrow> 'r redis_lib \<Rightarrow> ('d, 'r) links \<Rightarrow> string option \<Rightarrow> int \<Rightarrow> int \<Rightarrow> (stop + mem \<times> ('f, 'd, 'r) Server) res" where
  "main_start = main_from splitter_line"

section \<open>What a start establishes\<close>

lemma splitter_line_faults: "splitter_line = Inl OutOfBounds"
  by code_simp

lemma memory_size_positive: "get_memory_size c = Inr sz \<Longrightarrow> 0 < sz"
  by (auto simp: get_memory_size_def Let_def split: option.splits if_splits)

lemma main_config_pool:
  assumes "main_config file pool bits = Inr (Inr (c, mem))" "get_memory_size c = Inr sz"
    and "sz \<le> 1000000000" "0 < pool" "pool + sz < 2147480000"
  shows "conf_check c \<and> mem_inv mem \<and> live mem = {} \<and> sz \<le> mem_total mem + 2"
proof -
  have p: "0 < sz" using memory_size_positive assms(2) .
  then have u: "u32 sz = sz" using assms(3) by (simp add: u32_id)
  obtain b x where b: "conf_check b" "get_memory_size b = Inr x"
    and e: "(case memory_init (u32 x) pool bits mem0 of (ok, m') \<Rightarrow> if ok then Inr (Inr (b, m')) else Inr (Inl (NoPool x))) =
      (Inr (Inr (c, mem)) :: (stop + Conf \<times> mem) res)"
    using assms(1) by (auto simp: main_config_def rbind_eq_Inr split: if_splits)
  have m: "conf_check c" "memory_init sz pool bits mem0 = (True, mem)"
    using b e assms(2) u by (cases "memory_init (u32 x) pool bits mem0"; auto split: if_splits)+
  have "bits \<noteq> 0" using m(2) by (auto simp: memory_init_def Let_def split: prod.splits)
  from memory_init_spec [OF _ assms(3,4,5) this] p m show ?thesis by simp
qed

lemma main_connect_server:
  assumes "main_connect ml rl out c = Inr (Inr s)"
  obtains st where "world s = server_start (conf_get_int c ''max_room'') st" "0 < getFishQty st"
proof -
  from assms obtain st where "world s = server_start (conf_get_int c ''max_room'') st" "getFishQty st \<noteq> 0"
    by (auto simp: main_connect_def rbind_eq_Inr Let_def split: option.splits if_splits prod.splits)
  then show ?thesis using that by (simp add: getFishQty_def)
qed

text \<open>A configuration with every key, a database with one fish, and a Redis that answers nothing.\<close>

definition sample_conf :: Conf where
  "sample_conf = \<lparr>pairs = [(''mysql_host'', ''a''), (''mysql_user'', ''b''), (''mysql_pword'', ''c''), (''mysql_port'', ''3306''),
     (''mysql_dbase'', ''d''), (''redis_host'', ''e''), (''redis_port'', ''6379''), (''memory_size'', ''200000''), (''max_room'', ''3'')]\<rparr>"

definition sample_file :: string where
  "sample_file = concat (map conf_line (pairs sample_conf))"

definition one_fish_lib :: "unit mysql_lib" where
  "one_fish_lib = \<lparr>sql_exec = (\<lambda>sql d. (if sql = fish_sql then Rows [[Some ''7'', Some ''2'', Some ''3'']] else NoResult, d)), freed_row = Inr\<rparr>"

definition silent_redis :: "unit redis_lib" where
  "silent_redis = \<lparr>redis_exec = (\<lambda>_ r. (None, r))\<rparr>"

definition sample_links :: "(unit, unit) links" where
  "sample_links = \<lparr>redis_context = Some ((), None), mysql_conn = (), mysql_errno = 0\<rparr>"

lemma sample_values:
  "conf_check sample_conf" "get_memory_size sample_conf = Inr 200000" "conf_get_int sample_conf ''max_room'' = 3"
  "conf_get sample_conf ''mysql_char'' = None"
  by code_simp+

lemma sample_parsed: "conf_parse (Some sample_file) conf_new = Inr (True, sample_conf)"
  using parse_lines_written [of "pairs sample_conf" conf_new None]
  by (simp add: conf_parse_def sample_file_def conf_new_def conf_len_def) (simp add: sample_conf_def pair_ok_def key_char_def value_char_def)

lemma sample_config: "\<exists>mem. main_config (Some sample_file) 1000 1 = Inr (Inr (sample_conf, mem))"
  using memory_init_spec(1) [of 200000 1000 1]
  by (cases "memory_init 200000 1000 1 mem0") (simp add: main_config_def sample_parsed sample_values u32_id)

lemma sample_connect: "\<exists>s. main_connect one_fish_lib silent_redis sample_links sample_conf = Inr (Inr (s :: (int, unit, unit) Server))"
proof -
  have f: "fish_sql \<noteq> system_sql" "fish_sql \<noteq> ''SELECT id FROM users WHERE id=1 LIMIT 1'' \<and> fish_sql \<noteq> ''SELECT id FROM users WHERE id=122 LIMIT 1''"
    "fish_sql \<noteq> ''SET NAMES '' @ [CHR 0x27] @ ''utf8'' @ [CHR 0x27]"
    by (simp_all add: fish_sql_def system_sql_def)
  then show ?thesis
    by (simp add: main_connect_def sample_links_def mysql_new_def mysql_error_def sample_values setChar_def sprintf_buf_def
      new_Setting_def ask_def mysql_real_query_def mysql_store_result_def one_fish_lib_def setting_init_def loadFish_def loadSystem_def
      getFishQty_def getRow_def getItem_def Let_def eq_commute [of _ fish_sql])
qed

text \<open>
  C8: as it is written \<open>main\<close> never reaches the server's loop: with a complete configuration and a
  pool, line 61 tries the string splitter on a literal and reads behind its end. When that line
  comes through instead, whatever it answers, and the pool is of at most a thousand million bytes
  and lies below 2 GB of the 32-bit address space, reaching the loop means that the configuration has every key it
  needs, the pool is well-formed, holds the configured number of bytes and has no block in use,
  there is at least one kind of fish, and there are as many rooms as configured and a hundred when
  that number is not positive; and the invariant of the server holds in every state reached by
  orderly events (no administrator's order to kick or to stop is carried out, no connection puts
  itself off line by verifying its own account again).
\<close>

theorem startup_establishes:
  fixes s0 :: "('f, 'd, 'r) Server"
  assumes "main_from line61 ml rl out file pool bits = Inr (Inr (mem, s0))" "main_config file pool bits = Inr (Inr (c, mem))"
    and "get_memory_size c = Inr sz" "sz \<le> 1000000000" "0 < pool" "pool + sz < 2147480000"
  shows "(main_start ml rl out file pool bits :: (stop + mem \<times> ('f, 'd, 'r) Server) res) = Inl OutOfBounds \<and>
    conf_check c \<and> mem_inv mem \<and> live mem = {} \<and> sz \<le> mem_total mem + 2 \<and> 0 < getFishQty (w_setting (world s0)) \<and>
    n_rooms (world s0) = nat (if conf_get_int c ''max_room'' \<le> 0 then 100 else conf_get_int c ''max_room'') \<and>
    (\<forall>s. (calm_step ml rl)\<^sup>*\<^sup>* s0 s \<longrightarrow> world_ok (world s) \<and> n_rooms (world s) = n_rooms (world s0))"
proof -
  have c: "main_connect ml rl out c = Inr (Inr s0)"
    using assms(1,2) by (cases "main_connect ml rl out c :: (stop + ('f, 'd, 'r) Server) res"; cases "projr (main_connect ml rl out c :: (stop + ('f, 'd, 'r) Server) res)")
      (auto simp: main_from_def rbind_eq_Inr)
  obtain st where w: "world s0 = server_start (conf_get_int c ''max_room'') st" "0 < getFishQty st"
    by (rule main_connect_server [OF c])
  have start: "world_ok (world s0)" unfolding w(1) by (rule server_start_ok)
  have r: "world_ok (world s) \<and> n_rooms (world s) = n_rooms (world s0)" if "(calm_step ml rl)\<^sup>*\<^sup>* s0 s" for s
    using server.runs [OF start that] by simp
  have n: "n_rooms (world s0) = nat (if conf_get_int c ''max_room'' \<le> 0 then 100 else conf_get_int c ''max_room'')"
    "w_setting (world s0) = st"
    by (simp_all add: w(1) n_rooms_def server_start_def rooms_start_def setRooms_def)
  have o: "(main_start ml rl out file pool bits :: (stop + mem \<times> ('f, 'd, 'r) Server) res) = Inl OutOfBounds"
    using assms(2) by (simp add: main_start_def main_from_def splitter_line_faults)
  show ?thesis using o main_config_pool [OF assms(2-6)] n w(2) r by blast
qed

lemma startup_establishes_witness:
  "\<exists>mem (s :: (int, unit, unit) Server). main_from (Inr None) one_fish_lib silent_redis sample_links (Some sample_file) 1000 1 = Inr (Inr (mem, s)) \<and>
    mem_inv mem \<and> 200000 \<le> mem_total mem + 2 \<and> n_rooms (world s) = 3 \<and> world_ok (world s)"
proof -
  obtain mem where m: "main_config (Some sample_file) 1000 1 = Inr (Inr (sample_conf, mem))" using sample_config by blast
  obtain s :: "(int, unit, unit) Server" where s: "main_connect one_fish_lib silent_redis sample_links sample_conf = Inr (Inr s)"
    using sample_connect by blast
  have f: "main_from (Inr None) one_fish_lib silent_redis sample_links (Some sample_file) 1000 1 = Inr (Inr (mem, s))"
    by (simp add: main_from_def m s)
  have b: "(200000 :: int) \<le> 1000000000" "(0 :: int) < 1000" "(1000 :: int) + 200000 < 2147480000" by simp_all
  note e = startup_establishes [OF f m sample_values(2) b]
  have "mem_inv mem \<and> 200000 \<le> mem_total mem + 2" using e by simp
  moreover have "n_rooms (world s) = 3" using e by (simp add: sample_values(3))
  moreover have "world_ok (world s)" using e by simp
  ultimately show ?thesis using f by blast
qed

text \<open>
  The early returns before line 61 are taken as written; a start that gets past them faults.
\<close>

theorem main_start_overruns:
  assumes "main_config file pool bits = Inr (Inr (c, mem))"
  shows "main_start ml rl out file pool bits = Inl OutOfBounds"
  using assms by (simp add: main_start_def main_from_def splitter_line_faults)

lemma main_start_overruns_witness:
  "(main_start one_fish_lib silent_redis sample_links (Some sample_file) 1000 1 :: (stop + mem \<times> (int, unit, unit) Server) res) = Inl OutOfBounds"
  using sample_config by (elim exE) (rule main_start_overruns)

end
