(* ===== verification/Platform.thy ===== *)
theory Platform
  imports Keeping Format
begin

unbundle bit_operations_syntax

text \<open>
  What the program takes from its platform layer: the replacement of \<open>rand()\<close>
  (\<open>src/win32fixes.c\<close>), which every draw of a fish goes through, and the two conversions of
  IPv4 addresses (\<open>src/header/g.h\<close>).
\<close>

section \<open>Random numbers\<close>

text \<open>
  \<open>found\<close>: the system has \<open>SystemFunction036\<close>; \<open>x\<close> is the \<open>unsigned int\<close> it fills.
\<close>

definition replace_random :: "bool \<Rightarrow> 32 word \<Rightarrow> int" where
  "replace_random found x = (if \<not> found then 1 else sint (drop_bit 1 x))"

lemma replace_random_bounds: "0 \<le> replace_random found x \<and> replace_random found x \<le> 2147483647"
proof -
  have "unat (drop_bit 1 x) = drop_bit 1 (unat x)" by (rule unat_drop_bit_eq)
  then have "unat (drop_bit 1 x) = unat x div 2" by (simp only: drop_bit_eq_div power_one_right)
  moreover have "unat x < 2 ^ 32" using unsigned_less [of x, where 'a = nat] by simp
  ultimately have l: "unat (drop_bit 1 x) < 2147483648" by simp
  define k where "k = unat (drop_bit 1 x)"
  have "sint (drop_bit 1 x) = int k" "k < 2147483648" using sint_small [OF l] l by (simp_all only: k_def)
  then show ?thesis by (simp add: replace_random_def)
qed

text \<open>So the condition on \<open>rnd\<close> in \<open>good\<close> holds for the numbers the program really draws.\<close>

lemma replace_random_good:
  assumes "\<And>j. rnd e j = replace_random found (x j)" "fuel e < 2147483645" "w_users w (fresh e) = None"
    and "\<And>r. r < n_rooms w \<Longrightarrow> room_good (fuel e) (fresh e) (rooms (w_rooms w) ! r)"
  shows "good e w"
  using assms replace_random_bounds by (simp add: good_def)

section \<open>Addresses\<close>

text \<open>
  One field of \<open>"%hhu.%hhu.%hhu.%hhu"\<close>: blanks, a sign, digits. \<open>wide\<close> is what the library stores
  for a number that is no \<open>unsigned char\<close>, which the C standard leaves open.
\<close>

definition scan_hhu :: "(int \<Rightarrow> 8 word) \<Rightarrow> string \<Rightarrow> (8 word \<times> string) option" where
  "scan_hhu wide s =
     (let t = dropWhile is_space s; minus = (take 1 t = ''-'');
          u = (if minus \<or> take 1 t = ''+'' then drop 1 t else t); ds = takeWhile digit u;
          v = (if minus then - digits_val 0 ds else digits_val 0 ds)
      in if ds = [] then None else Some (if 0 \<le> v \<and> v \<le> 255 then of_int v else wide v, dropWhile digit u))"

text \<open>The fields that are missing keep the values the variables happen to have.\<close>

fun scan_fields :: "(int \<Rightarrow> 8 word) \<Rightarrow> nat \<Rightarrow> string \<Rightarrow> 8 word list" where
  "scan_fields wide 0 s = []"
| "scan_fields wide (Suc n) s = (case scan_hhu wide s of None \<Rightarrow> []
     | Some (b, c # t) \<Rightarrow> b # (if c = CHR ''.'' then scan_fields wide n t else [])
     | Some (b, []) \<Rightarrow> [b])"

definition ip2long :: "(int \<Rightarrow> 8 word) \<Rightarrow> string \<Rightarrow> 32 word res" where
  "ip2long wide ip = (case scan_fields wide 4 ip of
       [a, b, c, d] \<Rightarrow> Inr (push_bit 24 (ucast a) OR push_bit 16 (ucast b) OR push_bit 8 (ucast c) OR ucast d)
     | _ \<Rightarrow> Inl Uninit)"

primrec ip_bytes :: "nat \<Rightarrow> 32 word \<Rightarrow> 32 word list" where
  "ip_bytes 0 ip = []"
| "ip_bytes (Suc n) ip = (ip AND 255) # ip_bytes n (drop_bit 8 ip)"

definition long2ip :: "nat \<Rightarrow> 32 word \<Rightarrow> string res" where
  "long2ip cap ip = (let tmp = ip_bytes 4 ip in sprintf_buf cap
     (dec_nat (unat (tmp ! 3)) @ ''.'' @ dec_nat (unat (tmp ! 2)) @ ''.'' @ dec_nat (unat (tmp ! 1)) @ ''.'' @ dec_nat (unat (tmp ! 0))))"

lemma ip_byte: "unat (x AND 255 :: 32 word) \<le> 255" "ucast (of_nat (unat (x AND 255 :: 32 word)) :: 8 word) = x AND 255"
proof -
  have m: "(255 :: 32 word) = mask 8" by (simp add: mask_eq_exp_minus_1)
  have "x AND 255 \<le> 255" by (rule word_and_le1)
  then show "unat (x AND 255) \<le> 255" by (simp add: word_le_nat_alt)
  show "ucast (of_nat (unat (x AND 255)) :: 8 word) = x AND 255"
    unfolding m by (rule bit_word_eqI) (auto simp: bit_simps)
qed

lemma scan_hhu_dec:
  assumes "n \<le> 255" "t = [] \<or> \<not> digit (hd t)"
  shows "scan_hhu wide (dec_nat n @ t) = Some (of_nat n, t)"
proof -
  obtain c cs where d: "dec_nat n = c # cs" using dec_nat_ne [of n] by (cases "dec_nat n") auto
  have ds: "list_all digit (dec_nat n)" by (rule dec_nat_digits)
  then have c: "\<not> is_space c" "c \<noteq> CHR ''-''" "c \<noteq> CHR ''+''" using digit_not_special [of c] d by auto
  have t: "takeWhile digit t = []" "dropWhile digit t = t" using assms(2) by (cases t; simp)+
  have w: "takeWhile digit (dec_nat n @ t) = dec_nat n" "dropWhile digit (dec_nat n @ t) = t"
    using ds t by (simp_all add: list_all_iff takeWhile_append2 dropWhile_append2)
  have s: "dropWhile is_space (dec_nat n @ t) = dec_nat n @ t" "take 1 (dec_nat n @ t) = [c]" using d c by simp_all
  show ?thesis unfolding scan_hhu_def s Let_def using c assms(1) dec_nat_ne [of n] by (simp add: w digits_val_dec_nat)
qed

lemma byte_split:
  "push_bit 24 (drop_bit 24 x AND 255) OR push_bit 16 (drop_bit 16 x AND 255) OR push_bit 8 (drop_bit 8 x AND 255) OR (x AND 255) = (x :: 32 word)"
proof -
  have m: "(255 :: 32 word) = mask 8" by (simp add: mask_eq_exp_minus_1)
  show ?thesis unfolding m
  proof (rule bit_word_eqI)
    fix n assume "n < LENGTH(32)"
    then consider "n < 8" | "8 \<le> n" "n < 16" | "16 \<le> n" "n < 24" | "24 \<le> n" "n < 32" by fastforce
    then show "bit (push_bit 24 (drop_bit 24 x AND mask 8) OR push_bit 16 (drop_bit 16 x AND mask 8) OR push_bit 8 (drop_bit 8 x AND mask 8) OR (x AND mask 8)) n = bit x n"
      by cases (auto simp: bit_simps)
  qed
qed

lemma scan_fields_dec:
  assumes "a \<le> 255" "b \<le> 255" "c \<le> 255" "d \<le> 255"
  shows "scan_fields wide 4 (dec_nat a @ ''.'' @ dec_nat b @ ''.'' @ dec_nat c @ ''.'' @ dec_nat d) = [of_nat a, of_nat b, of_nat c, of_nat d]"
proof -
  have "\<not> digit (CHR ''.'')" by (simp add: digit_def)
  then show ?thesis using assms scan_hhu_dec [of d "[]" wide] by (simp add: numeral_eq_Suc scan_hhu_dec)
qed

text \<open>An address survives being printed and read, and its text fits sixteen characters.\<close>

theorem ip_roundtrip: "\<exists>s. long2ip 16 x = Inr s \<and> ip2long wide s = Inr x"
proof -
  let ?b = "\<lambda>k. unat (drop_bit k x AND 255)"
  let ?s = "dec_nat (?b 24) @ ''.'' @ dec_nat (?b 16) @ ''.'' @ dec_nat (?b 8) @ ''.'' @ dec_nat (unat (x AND 255))"
  have l: "length (dec_nat (unat (y AND 255 :: 32 word))) \<le> 3" for y
    using length_dec_nat [of 3 "unat (y AND 255)"] ip_byte(1) [of y] by simp
  have t: "ip_bytes 4 x = [x AND 255, drop_bit 8 x AND 255, drop_bit 16 x AND 255, drop_bit 24 x AND 255]"
    by (simp add: numeral_eq_Suc)
  have "long2ip 16 x = Inr ?s"
    using l [of x] l [of "drop_bit 8 x"] l [of "drop_bit 16 x"] l [of "drop_bit 24 x"]
    by (simp add: long2ip_def t sprintf_buf_def)
  moreover have "scan_fields wide 4 ?s = [of_nat (?b 24), of_nat (?b 16), of_nat (?b 8), of_nat (unat (x AND 255))]"
    by (intro scan_fields_dec ip_byte(1))
  ultimately show ?thesis
    by (intro exI [of _ ?s] conjI) (assumption, simp only: ip2long_def ip_byte(2) byte_split list.case)
qed

end
