(* ===== verification/Cpu.thy ===== *)
theory Cpu
  imports Prelude Complex_Main
begin

text \<open>
  \<open>get_cpu_rate\<close> (\<open>src/header/common.h\<close>), the load of the processor that the message \<open>server info\<close>
  shows. What Windows answers is an argument of each call; floating point numbers are given by
  the operations the code uses. The static variables of the function are the record.
\<close>

record Cpu =
  tick_old :: "32 word"
  time_old :: "64 word"
  core_num :: "32 word"

definition cpu_statics :: Cpu where
  "cpu_statics = \<lparr>tick_old = 0, time_old = 0, core_num = 0\<rparr>"

record 'd fp =
  of_i :: "int \<Rightarrow> 'd"
  over :: "'d \<Rightarrow> 'd \<Rightarrow> 'd"

text \<open>A \<open>FILETIME\<close> is its high and its low part, \<open>quad\<close> the \<open>QuadPart\<close> of the \<open>LARGE_INTEGER\<close> made of them.\<close>

type_synonym FILETIME = "32 word \<times> 32 word"

definition quad :: "FILETIME \<Rightarrow> 64 word" where
  "quad t = push_bit 32 (ucast (fst t)) + ucast (snd t)"

text \<open>
  \<open>cores\<close> is \<open>dwNumberOfProcessors\<close>, \<open>spent\<close> the kernel and the user time when \<open>GetProcessTimes\<close>
  succeeds, \<open>tick\<close> and \<open>tick'\<close> what \<open>GetTickCount\<close> answers at line 75 and at line 80.
\<close>

definition get_cpu_rate :: "'d fp \<Rightarrow> 32 word \<Rightarrow> (FILETIME \<times> FILETIME) option \<Rightarrow> 32 word \<Rightarrow> 32 word \<Rightarrow> Cpu \<Rightarrow> 'd \<times> Cpu" where
  "get_cpu_rate F cores spent tick tick' s =
     (let s1 = (if core_num s = 0 then s\<lparr>core_num := cores\<rparr> else s)
      in case spent of
           None \<Rightarrow> (of_i F 0, s1)
         | Some (ker, usr) \<Rightarrow>
             let cur = quad ker + quad usr;
                 elapsed = tick - tick_old s1;
                 percent = over F (over F (of_i F (sint ((cur - time_old s1) * 100))) (of_i F (uint elapsed))) (of_i F 10000)
             in (if time_old s1 \<noteq> 0 then over F percent (of_i F (uint (core_num s1))) else of_i F 0,
                 s1\<lparr>time_old := cur, tick_old := tick'\<rparr>))"

section \<open>What it shows\<close>

text \<open>A time as Windows hands it out, and the numbers as they are exactly.\<close>

definition filetime :: "int \<Rightarrow> FILETIME" where
  "filetime t = (word_of_int (t div 4294967296), word_of_int t)"

definition exact :: "rat fp" where
  "exact = \<lparr>of_i = of_int, over = (/)\<rparr>"

lemma quad_filetime: "quad (filetime t) = word_of_int t"
proof -
  have u: "(ucast (word_of_int x :: 32 word) :: 64 word) = word_of_int (x mod 4294967296)" for x
    by transfer (simp add: take_bit_eq_mod)
  have s: "t div 4294967296 mod 4294967296 * 4294967296 + t mod 4294967296 = t mod 18446744073709551616"
    using zmod_zmult2_eq [of 4294967296 t 4294967296] by simp
  then have "quad (filetime t) = word_of_int (t mod 18446744073709551616)"
    unfolding quad_def filetime_def fst_conv snd_conv u push_bit_eq_mult s [symmetric] of_int_add of_int_mult by simp
  also have "\<dots> = word_of_int t" by (rule word_of_int_eq_iff [THEN iffD2]) (simp add: take_bit_eq_mod)
  finally show ?thesis .
qed

lemma no_core_is_asked [simp]: "core_num (snd (get_cpu_rate F cores spent tick tick' s)) = (if core_num s = 0 then cores else core_num s)"
  by (simp add: get_cpu_rate_def Let_def split: option.split)

text \<open>A call that succeeds remembers its times for the next one.\<close>

lemma cpu_remembers:
  "get_cpu_rate F cores (Some (filetime k, filetime u)) tick tick' s = (r, s') \<Longrightarrow>
   time_old s' = word_of_int (k + u) \<and> tick_old s' = tick'"
  by (auto simp: get_cpu_rate_def Let_def quad_filetime)

lemma sint_back: "- (2 ^ 63) \<le> x \<Longrightarrow> x < 2 ^ 63 \<Longrightarrow> sint (word_of_int x :: 64 word) = x"
  by (simp add: sint_sbintrunc' signed_take_bit_int_eq_self)

text \<open>
  C37: two calls that succeed, at \<open>t1\<close> and \<open>t2\<close> milliseconds, less than 2^32 apart, with processor
  times \<open>c1\<close> and \<open>c2\<close> in units of 100 nanoseconds: the second answers the time spent between
  them in per cent of what all processors had, also when the tick count has wrapped around in
  between; it is between 0 and 100 when no more time was spent than there was.
\<close>

theorem cpu_rate_is_percent:
  assumes "snd (get_cpu_rate exact cores (Some (filetime k1, filetime u1)) tick (word_of_int t1) s0) = s1"
    and "0 < k1 + u1" "k1 + u1 < 2 ^ 64" "0 \<le> k2 + u2 - (k1 + u1)" "(k2 + u2 - (k1 + u1)) * 100 < 2 ^ 63"
    and "0 < t2 - t1" "t2 - t1 < 2 ^ 32" "n = uint (core_num s1)" "0 < n"
  shows "\<exists>r s2. get_cpu_rate exact cores' (Some (filetime k2, filetime u2)) (word_of_int t2) tick' s1 = (r, s2) \<and>
    r = 100 * (of_int (k2 + u2 - (k1 + u1)) / 10000) / (of_int (t2 - t1) * of_int n) \<and>
    (k2 + u2 - (k1 + u1) \<le> 10000 * (t2 - t1) * n \<longrightarrow> 0 \<le> r \<and> r \<le> 100)"
proof -
  let ?d = "k2 + u2 - (k1 + u1)"
  have m: "time_old s1 = word_of_int (k1 + u1)" "tick_old s1 = word_of_int t1"
    using cpu_remembers [of exact cores k1 u1 tick "word_of_int t1" s0] assms(1) by (metis prod.collapse)+
  have c: "core_num s1 \<noteq> 0" using assms(8,9) by auto
  have t0: "time_old s1 \<noteq> 0" 
  proof
    assume "time_old s1 = 0"
    then have "uint (word_of_int (k1 + u1) :: 64 word) = 0" using m(1) by simp
    then show False using assms(2,3) by (simp only: uint_word_of_int) simp
  qed
  have d: "sint ((word_of_int k2 + word_of_int u2 - word_of_int (k1 + u1)) * 100 :: 64 word) = ?d * 100"
    using sint_back [of "?d * 100"] assms(4,5) by simp
  have e: "uint (word_of_int t2 - word_of_int t1 :: 32 word) = t2 - t1"
    using assms(6,7) by (simp flip: of_int_diff add: uint_word_of_int)
  obtain r s2 where r: "get_cpu_rate exact cores' (Some (filetime k2, filetime u2)) (word_of_int t2) tick' s1 = (r, s2)" by fastforce
  have "r = of_int (sint ((word_of_int k2 + word_of_int u2 - time_old s1) * 100)) / of_int (uint (word_of_int t2 - tick_old s1)) / 10000 / of_int (uint (core_num s1))"
    using r c t0 by (auto simp: get_cpu_rate_def Let_def quad_filetime exact_def)
  then have r1: "r = of_int (?d * 100) / of_int (t2 - t1) / 10000 / of_int n" unfolding m d e assms(8) [symmetric] .
  have "0 \<le> r \<and> r \<le> 100" if "?d \<le> 10000 * (t2 - t1) * n"
  proof -
    have "(of_int ?d :: rat) \<le> of_int (10000 * (t2 - t1) * n)" using that by (simp only: of_int_le_iff)
    then show ?thesis using assms(4,6,9) by (simp add: r1 field_simps)
  qed
  then show ?thesis using r r1 by (intro exI [of _ r] exI [of _ s2]) (simp add: field_simps)
qed

text \<open>Four processors half in use for a second in which the tick count wraps around.\<close>

lemma cpu_rate_is_percent_witness:
  "\<exists>s2. get_cpu_rate exact 4 (Some (filetime 15000000, filetime 12000000)) 704 0
    (snd (get_cpu_rate exact 4 (Some (filetime 4000000, filetime 3000000)) 7 (word_of_int 4294967000) cpu_statics)) = (50, s2)"
proof -
  let ?s = "snd (get_cpu_rate exact 4 (Some (filetime 4000000, filetime 3000000)) 7 (word_of_int 4294967000) cpu_statics)"
  have c: "uint (core_num ?s) = 4" by (simp add: cpu_statics_def)
  obtain r s2 where r: "get_cpu_rate exact 4 (Some (filetime 15000000, filetime 12000000)) (word_of_int 4294968000) 0 ?s = (r, s2)"
    "r = 100 * (of_int (15000000 + 12000000 - (4000000 + 3000000)) / 10000) / (of_int (4294968000 - 4294967000) * of_int 4)"
    using cpu_rate_is_percent [OF refl, where cores = 4 and ?k1.0 = 4000000 and ?u1.0 = 3000000 and tick = 7 and ?t1.0 = 4294967000 and ?s0.0 = cpu_statics
        and ?k2.0 = 15000000 and ?u2.0 = 12000000 and ?t2.0 = 4294968000 and n = 4 and cores' = 4 and tick' = 0] c
    by auto
  have w: "(704 :: 32 word) = word_of_int 4294968000" by code_simp
  show ?thesis unfolding w using r by auto
qed

text \<open>A second call within the same tick divides by zero.\<close>

lemma cpu_same_tick:
  "time_old s \<noteq> 0 \<Longrightarrow> core_num s \<noteq> 0 \<Longrightarrow> fst (get_cpu_rate F cores (Some (k, u)) (tick_old s) tick' s) =
     over F (over F (over F (of_i F (sint ((quad k + quad u - time_old s) * 100))) (of_i F 0)) (of_i F 10000)) (of_i F (uint (core_num s)))"
  by (simp add: get_cpu_rate_def)

end
