(* ===== verification/Clock.thy ===== *)
theory Clock
  imports Cpu Format
begin

unbundle bit_operations_syntax

text \<open>
  The clock of the program: \<open>gettimeofday\<close> is not in the library of Windows and comes from
  \<open>src/win32fixes.c\<close>, which \<open>main.cpp\<close> includes. Every time the server works with, \<open>getmtime\<close> and
  \<open>gettime\<close> of \<open>src/header/g.h\<close>, is made from it. With it are \<open>gettimeofdaysecs\<close> and
  \<open>getrusage\<close> of the same file. What Windows answers is an argument.
\<close>

definition DELTA_EPOCH_IN_MICROSECS :: int where
  "DELTA_EPOCH_IN_MICROSECS = 11644473600000000"

text \<open>\<open>tmpres |= high; tmpres <<= 32; tmpres |= low\<close>.\<close>

definition joined_time :: "FILETIME \<Rightarrow> 64 word" where
  "joined_time ft = push_bit 32 (ucast (fst ft)) OR ucast (snd ft)"

definition epoch_us :: "FILETIME \<Rightarrow> 64 word" where
  "epoch_us ft = joined_time ft div 10 - word_of_int DELTA_EPOCH_IN_MICROSECS"

text \<open>\<open>(long)\<close> keeps 32 bits.\<close>

definition long_of :: "64 word \<Rightarrow> int" where
  "long_of x = sint (ucast x :: 32 word)"

definition timeval :: "FILETIME \<Rightarrow> int \<times> int" where
  "timeval ft = (long_of (epoch_us ft div 1000000), long_of (epoch_us ft mod 1000000))"

text \<open>
  \<open>want\<close> and \<open>want_zone\<close>: \<open>tv\<close> and \<open>tz\<close> are not NULL. \<open>zone\<close> and \<open>daylight\<close> are what \<open>_tzset\<close>
  makes of the environment; it is called once, when \<open>tzflag\<close> is still 0.
\<close>

definition gettimeofday :: "bool \<Rightarrow> bool \<Rightarrow> FILETIME \<Rightarrow> int \<Rightarrow> int \<Rightarrow> int \<Rightarrow> int \<times> (int \<times> int) option \<times> (int \<times> int) option \<times> int" where
  "gettimeofday want want_zone ft zone daylight tzflag =
     (0, if want then Some (timeval ft) else None, if want_zone then Some (c_div zone 60, daylight) else None,
      if want_zone \<and> tzflag = 0 then 1 else tzflag)"

text \<open>Here the number is signed; the difference is taken unsigned and read back.\<close>

definition gettimeofdaysecs :: "FILETIME \<Rightarrow> int \<times> int" where
  "gettimeofdaysecs ft =
     (let us = sint (word_of_int (c_div (sint (joined_time ft)) 10) - word_of_int DELTA_EPOCH_IN_MICROSECS :: 64 word)
      in (c_div us 1000000, u32 (c_mod us 1000000)))"

definition EFAULT :: int where "EFAULT = 14"

record rusage =
  ru_utime :: "int \<times> int"
  ru_stime :: "int \<times> int"

text \<open>A duration of the system in seconds and microseconds.\<close>

definition duration :: "FILETIME \<Rightarrow> int \<times> int" where
  "duration ft = (let us = joined_time ft div 10 in (long_of (us div 1000000), long_of (us mod 1000000)))"

text \<open>
  \<open>room\<close>: \<open>r\<close> is not NULL; \<open>spent\<close>: what \<open>GetProcessTimes\<close> stores. The result is the answer, \<open>errno\<close>
  when it is set, and the structure. For a \<open>who\<close> that is neither constant the times are not set.
\<close>

definition getrusage :: "int \<Rightarrow> bool \<Rightarrow> (FILETIME \<times> FILETIME) option \<Rightarrow> (int \<times> int option \<times> rusage option) res" where
  "getrusage who room spent =
     (if \<not> room then Inr (-1, Some EFAULT, None)
      else if who = 0 then (case spent of
          None \<Rightarrow> Inr (-1, Some EFAULT, Some \<lparr>ru_utime = (0, 0), ru_stime = (0, 0)\<rparr>)
        | Some (ker, usr) \<Rightarrow> Inr (0, None, Some \<lparr>ru_utime = duration usr, ru_stime = duration ker\<rparr>))
      else if who = -1 then Inr (0, None, Some \<lparr>ru_utime = duration (0, 0), ru_stime = duration (0, 0)\<rparr>)
      else Inl Uninit)"

section \<open>What it tells\<close>

lemma joined_is_quad: "joined_time ft = quad ft"
proof -
  have "\<not> bit (push_bit 32 (ucast (fst ft)) :: 64 word) n \<or> \<not> bit (ucast (snd ft) :: 64 word) n" for n
    by (auto simp: bit_simps dest: bit_imp_le_length)
  then show ?thesis unfolding joined_time_def quad_def by (intro disjunctive_add_eq_or [symmetric]) (auto intro!: bit_eqI simp: bit_simps)
qed

text \<open>Arithmetic on words that stay in range.\<close>

lemma uint_small: "0 \<le> x \<Longrightarrow> x < 2 ^ 64 \<Longrightarrow> uint (word_of_int x :: 64 word) = x"
  by (simp add: uint_word_of_int)

lemma word_div_small: "0 \<le> x \<Longrightarrow> x < 2 ^ 64 \<Longrightarrow> 0 < k \<Longrightarrow> k < 2 ^ 64 \<Longrightarrow>
    (word_of_int x :: 64 word) div word_of_int k = word_of_int (x div k) \<and> (word_of_int x :: 64 word) mod word_of_int k = word_of_int (x mod k)"
  by (simp add: word_div_def word_mod_def uint_small)

lemma long_of_small: "long_of (word_of_int x) = i32 x"
proof -
  have "(ucast (word_of_int x :: 64 word) :: 32 word) = word_of_int x" by transfer (simp add: take_bit_take_bit)
  moreover have "sint (word_of_int x :: 32 word) = i32 x"
    by (simp add: sint_sbintrunc' signed_take_bit_eq_take_bit_shift i32_def take_bit_eq_mod)
  ultimately show ?thesis by (simp add: long_of_def)
qed

text \<open>The number Windows counts at \<open>t\<close> microseconds of Unix time: tenths of a microsecond since 1601.\<close>

definition windows_time :: "int \<Rightarrow> int \<Rightarrow> FILETIME" where
  "windows_time t r = filetime ((t + DELTA_EPOCH_IN_MICROSECS) * 10 + r)"

lemma epoch_us_small:
  assumes "0 \<le> t" "t < 1800000000000000000" "0 \<le> r" "r < 10"
  shows "epoch_us (windows_time t r) = word_of_int t"
proof -
  let ?x = "(t + 11644473600000000) * 10 + r"
  have "joined_time (windows_time t r) = word_of_int ?x" by (simp add: joined_is_quad windows_time_def DELTA_EPOCH_IN_MICROSECS_def quad_filetime)
  moreover have "(word_of_int ?x :: 64 word) div word_of_int 10 = word_of_int (?x div 10)"
    by (intro word_div_small [THEN conjunct1]) (use assms in auto)
  moreover have "?x div 10 = t + 11644473600000000" using assms(3,4) by simp
  ultimately show ?thesis by (simp add: epoch_us_def DELTA_EPOCH_IN_MICROSECS_def)
qed

lemma timeval_tells:
  assumes "0 \<le> t" "t < 1800000000000000000" "0 \<le> r" "r < 10"
  shows "timeval (windows_time t r) = (i32 (t div 1000000), t mod 1000000)"
proof -
  have "(word_of_int t :: 64 word) div word_of_int 1000000 = word_of_int (t div 1000000)" "(word_of_int t :: 64 word) mod word_of_int 1000000 = word_of_int (t mod 1000000)"
    using word_div_small [of t 1000000] assms(1,2) by simp_all
  moreover have "i32 (t mod 1000000) = t mod 1000000" using pos_mod_bound [of 1000000 t] by (intro i32_id) simp_all
  ultimately show ?thesis using epoch_us_small [OF assms] by (simp add: timeval_def long_of_small)
qed

text \<open>
  C36: until January 2038 \<open>getmtime\<close> is the time of Windows in microseconds since 1970, to the
  microsecond, and \<open>gettime\<close> its seconds; from then on the seconds are cut to 32 bits, and for 68
  years both are negative. \<open>gettimeofdaysecs\<close> stays right.
\<close>

theorem clock_tells_time:
  assumes "0 \<le> t" "t < 4294967296000000" "0 \<le> r" "r < 10" "gettimeofday True False (windows_time t r) zone daylight flag = (ret, Some tv, tz, flag')"
  shows "ret = 0 \<and> (t < 2147483648000000 \<longrightarrow> getmtime tv = t \<and> gettime tv = t div 1000000) \<and>
    (2147483648000000 \<le> t \<longrightarrow> getmtime tv = t - 4294967296000000 \<and> gettime tv = t div 1000000 - 4294967296 \<and> gettime tv < 0) \<and>
    gettimeofdaysecs (windows_time t r) = (t div 1000000, t mod 1000000)"
proof -
  have tv: "tv = (i32 (t div 1000000), t mod 1000000)" "ret = 0"
    using assms(5) timeval_tells [of t r] assms(1-4) by (simp_all add: gettimeofday_def)
  have d: "t div 1000000 * 1000000 + t mod 1000000 = t" by simp
  have e: "i32 (t div 1000000) = t div 1000000" if "t < 2147483648000000"
    using that assms(1) by (intro i32_id) auto
  have l: "i32 (t div 1000000) = t div 1000000 - 4294967296" if "2147483648000000 \<le> t"
  proof -
    have "(t div 1000000 + 2147483648) mod 4294967296 = t div 1000000 + 2147483648 - 4294967296"
      using that assms(2) by (subst mod_pos_geq) auto
    then show ?thesis by (simp add: i32_def)
  qed
  have n: "t div 1000000 < 4294967296" using assms(2) by auto
  let ?x = "(t + 11644473600000000) * 10 + r"
  have j: "joined_time (windows_time t r) = word_of_int ?x" by (simp add: joined_is_quad windows_time_def DELTA_EPOCH_IN_MICROSECS_def quad_filetime)
  have "sint (word_of_int ?x :: 64 word) = ?x" by (rule sint_back) (use assms in auto)
  then have "sint (joined_time (windows_time t r)) = ?x" unfolding j .
  moreover have "c_div ?x 10 = t + 11644473600000000" using assms(1,3,4) by (simp add: c_div_nonneg)
  moreover have "sint (word_of_int t :: 64 word) = t" by (rule sint_back) (use assms in auto)
  moreover have "u32 (t mod 1000000) = t mod 1000000" using pos_mod_bound [of 1000000 t] by (intro u32_id) auto
  ultimately have s: "gettimeofdaysecs (windows_time t r) = (t div 1000000, t mod 1000000)"
    using assms(1) by (simp add: gettimeofdaysecs_def Let_def DELTA_EPOCH_IN_MICROSECS_def c_div_nonneg c_mod_nonneg)
  show ?thesis using e l n tv s by (auto simp: getmtime_def gettime_def minus_mod_eq_mult_div [symmetric])
qed

lemma clock_tells_time_witness:
  "\<exists>tv tv' tz flag. gettimeofday True False (windows_time 1700000000123456 7) 0 0 0 = (0, Some tv, tz, flag) \<and> getmtime tv = 1700000000123456 \<and>
    gettimeofday True False (windows_time 2147483648000000 0) 0 0 0 = (0, Some tv', tz, flag) \<and> gettime tv' = - 2147483648"
proof -
  have a: "gettimeofday True False (windows_time 1700000000123456 7) 0 0 0 = (0, Some (timeval (windows_time 1700000000123456 7)), None, 0)"
    and b: "gettimeofday True False (windows_time 2147483648000000 0) 0 0 0 = (0, Some (timeval (windows_time 2147483648000000 0)), None, 0)"
    by (simp_all add: gettimeofday_def)
  have "getmtime (timeval (windows_time 1700000000123456 7)) = 1700000000123456" using clock_tells_time [OF _ _ _ _ a] by simp
  moreover have "gettime (timeval (windows_time 2147483648000000 0)) = - 2147483648" using clock_tells_time [OF _ _ _ _ b] by simp
  ultimately show ?thesis using a b by blast
qed

text \<open>The resources of the process; for a \<open>who\<close> the code does not know it reads what was never set.\<close>

lemma getrusage_self: "0 \<le> t \<Longrightarrow> t < 2147483648000000 \<Longrightarrow> duration (filetime (t * 10)) = (t div 1000000, t mod 1000000)"
proof -
  assume t: "0 \<le> t" "t < 2147483648000000"
  have "(word_of_int (t * 10) :: 64 word) div word_of_int 10 = word_of_int (t * 10 div 10)"
    by (intro word_div_small [THEN conjunct1]) (use t in auto)
  then have j: "joined_time (filetime (t * 10)) div 10 = word_of_int t" by (simp add: joined_is_quad quad_filetime)
  have "(word_of_int t :: 64 word) div word_of_int 1000000 = word_of_int (t div 1000000)" "(word_of_int t :: 64 word) mod word_of_int 1000000 = word_of_int (t mod 1000000)"
    using word_div_small [of t 1000000] t by simp_all
  moreover have "i32 (t mod 1000000) = t mod 1000000" "i32 (t div 1000000) = t div 1000000"
    using pos_mod_bound [of 1000000 t] t by (auto intro!: i32_id)
  ultimately show ?thesis by (simp add: duration_def Let_def j long_of_small)
qed

lemma getrusage_other: "who \<noteq> 0 \<Longrightarrow> who \<noteq> -1 \<Longrightarrow> getrusage who True spent = Inl Uninit"
  by (simp add: getrusage_def)

end
