(* ===== verification/Win32.thy ===== *)
theory Win32
  imports CText
begin

unbundle bit_operations_syntax

text \<open>
  The layer over Windows in \<open>src/win32fixes.c\<close>, which \<open>main.cpp\<close> includes: processes, files, threads,
  signals, numbers and messages of the system. Of it the server itself calls \<open>rand\<close> (theory
  \<open>Platform\<close>) and \<open>gettimeofday\<close> (theory \<open>Clock\<close>). A call of the system is recorded; \<open>os\<close> says what
  it answers after the calls made before.
\<close>

datatype syscall =
    OpenProcess int | TerminateProcess int int | CloseHandle int | GetLastError
  | GetOsfHandle int | FlushFileBuffers int | SetFilePointerEx int int | SetEndOfFile int
  | Cwait int int | SetSockOpt int int int int | Malloc | Free int | Invoke int int | EndThread
  | BeginThread int int | ThreadErrno | GetCurrentThreadId | OpenThread int | WaitForSingleObject int

record w32 =
  errno :: int
  trace :: "syscall list"

type_synonym os = "syscall list \<Rightarrow> syscall \<Rightarrow> int"

definition sys :: "os \<Rightarrow> syscall \<Rightarrow> w32 \<Rightarrow> int \<times> w32" where
  "sys os c s = (os (trace s) c, s\<lparr>trace := trace s @ [c]\<rparr>)"

definition EBADF :: int where "EBADF = 9"
definition EINVAL :: int where "EINVAL = 22"
definition EIO :: int where "EIO = 5"
definition ENOSYS :: int where "ENOSYS = 40"
definition ERANGE :: int where "ERANGE = 34"

text \<open>\<open>INVALID_HANDLE_VALUE\<close>, and the error of the system for a bad handle.\<close>

definition INVALID_HANDLE_VALUE :: int where "INVALID_HANDLE_VALUE = -1"
definition ERROR_INVALID_HANDLE :: int where "ERROR_INVALID_HANDLE = 6"

section \<open>Sockets and signals\<close>

text \<open>\<open>err\<close> and \<open>version\<close> are what \<open>WSAStartup\<close> answers and stores.\<close>

definition w32initWinSock :: "int \<Rightarrow> 16 word \<Rightarrow> int" where
  "w32initWinSock err version =
     (if err \<noteq> 0 \<or> version AND 255 \<noteq> 2 \<or> drop_bit 8 version AND 255 \<noteq> 2 then 0 else 1)"

record sigact =
  sa_flags :: "32 word"
  sa_handler :: int
  sa_sigaction :: int

definition SA_SIGINFO :: "32 word" where "SA_SIGINFO = 4"

definition sigaction :: "int \<Rightarrow> sigact \<Rightarrow> (int \<Rightarrow> int) \<Rightarrow> int \<times> (int \<Rightarrow> int)" where
  "sigaction sig act handlers =
     (0, handlers(sig := (if sa_flags act AND SA_SIGINFO \<noteq> 0 then sa_sigaction act else sa_handler act)))"

definition replace_setsockopt :: "os \<Rightarrow> int \<Rightarrow> int \<Rightarrow> int \<Rightarrow> int \<Rightarrow> w32 \<Rightarrow> int \<times> w32" where
  "replace_setsockopt os sk level optname optlen s = sys os (SetSockOpt sk level optname optlen) s"

section \<open>Processes and files\<close>

definition SIGKILL :: int where "SIGKILL = 9"

definition kill :: "os \<Rightarrow> int \<Rightarrow> int \<Rightarrow> w32 \<Rightarrow> int \<times> w32" where
  "kill os pid sig s =
     (if sig = SIGKILL then
        let (h, s1) = sys os (OpenProcess pid) s; (ok, s2) = sys os (TerminateProcess h 127) s1
        in if ok = 0 then (-1, snd (sys os (CloseHandle h) (s2\<lparr>errno := EINVAL\<rparr>)))
           else (0, snd (sys os (CloseHandle h) s2))
      else (-1, s\<lparr>errno := EINVAL\<rparr>))"

definition fsync :: "os \<Rightarrow> int \<Rightarrow> w32 \<Rightarrow> int \<times> w32" where
  "fsync os fd s =
     (let (h, s1) = sys os (GetOsfHandle fd) s
      in if h = INVALID_HANDLE_VALUE then (-1, s1\<lparr>errno := EBADF\<rparr>)
         else let (ok, s2) = sys os (FlushFileBuffers h) s1
           in if ok = 0 then
                let (err, s3) = sys os GetLastError s2
                in (-1, s3\<lparr>errno := (if err = ERROR_INVALID_HANDLE then EINVAL else EIO)\<rparr>)
              else (0, s2))"

text \<open>\<open>waitpid\<close> is a macro for \<open>_cwait\<close>; the options are not looked at.\<close>

definition wait3 :: "os \<Rightarrow> w32 \<Rightarrow> int \<times> w32" where
  "wait3 os s = sys os (Cwait 0 (-1)) s"

definition replace_ftruncate :: "os \<Rightarrow> int \<Rightarrow> int \<Rightarrow> w32 \<Rightarrow> int \<times> w32" where
  "replace_ftruncate os fd len s =
     (let (h, s1) = sys os (GetOsfHandle fd) s
      in if h = INVALID_HANDLE_VALUE then (-1, s1\<lparr>errno := EBADF\<rparr>)
         else let (ok, s2) = sys os (SetFilePointerEx h len) s1
           in if ok = 0 then (-1, s2)
              else let (ok', s3) = sys os (SetEndOfFile h) s2 in (if ok' = 0 then -1 else 0, s3))"

text \<open>\<open>att k\<close> is the error of the \<open>k\<close>-th \<open>MoveFileEx\<close>, 0 when it succeeds. The answer, \<open>errno\<close>, the
  number of attempts and of the pauses of ten milliseconds; None when the loop never ends.\<close>

partial_function (option) rename_loop :: "(nat \<Rightarrow> int) \<Rightarrow> nat \<Rightarrow> nat \<Rightarrow> nat \<Rightarrow> int \<Rightarrow> (int \<times> int \<times> nat \<times> nat) option" where
  "rename_loop att k retries sleeps err =
     (if att k = 0 then Some (0, err, Suc k, sleeps)
      else if att k \<noteq> 5 then Some (-1, att k, Suc k, sleeps)
      else if retries - 1 = 0 then rename_loop att (Suc k) 50 (Suc sleeps) 5
      else rename_loop att (Suc k) (retries - 1) sleeps 5)"

definition replace_rename :: "(nat \<Rightarrow> int) \<Rightarrow> int \<Rightarrow> (int \<times> int \<times> nat \<times> nat) option" where
  "replace_rename att err = rename_loop att 0 50 0 err"

definition fork :: int where "fork = -1"

section \<open>Threads\<close>

text \<open>A pointer to the two parameters: the function and its argument.\<close>

record thread_params =
  tp_func :: int
  tp_arg :: int

definition win32_proxy_threadproc :: "os \<Rightarrow> int \<Rightarrow> thread_params \<Rightarrow> w32 \<Rightarrow> int \<times> w32" where
  "win32_proxy_threadproc os ptr p s =
     (let (_, s1) = sys os (Invoke (tp_func p) (tp_arg p)) s; (_, s2) = sys os (Free ptr) s1; (_, s3) = sys os EndThread s2 in (0, s3))"

definition REDIS_THREAD_STACK_SIZE :: int where "REDIS_THREAD_STACK_SIZE = 4194304"

text \<open>The parameters for the new thread, and where they are; \<open>malloc\<close> is taken to succeed.\<close>

definition pthread_create :: "os \<Rightarrow> int \<Rightarrow> int \<Rightarrow> w32 \<Rightarrow> (int \<times> int \<times> thread_params) \<times> w32" where
  "pthread_create os start arg s =
     (let (ptr, s1) = sys os Malloc s; (h, s2) = sys os (BeginThread REDIS_THREAD_STACK_SIZE ptr) s1;
          p = \<lparr>tp_func = start, tp_arg = arg\<rparr>
      in if h = 0 then (let (err, s3) = sys os ThreadErrno s2 in ((err, ptr, p), s3\<lparr>errno := err\<rparr>))
         else ((0, ptr, p), snd (sys os (CloseHandle h) s2)))"

definition pthread_detach :: int where "pthread_detach = 0"

definition pthread_self :: "os \<Rightarrow> w32 \<Rightarrow> int \<times> w32" where
  "pthread_self os s = sys os GetCurrentThreadId s"

definition pthread_sigmask :: "int \<Rightarrow> w32 \<Rightarrow> int \<times> w32" where
  "pthread_sigmask how s = (if how \<in> {0, 1, 2} then (0, s\<lparr>errno := ENOSYS\<rparr>) else (-1, s\<lparr>errno := EINVAL\<rparr>))"

text \<open>
  Every case falls through to the next one: the answers for a thread that has ended (0) and for an
  abandoned one (\<open>EINVAL\<close>) are overwritten by the last assignment in all cases.
\<close>

definition win32_pthread_join :: "os \<Rightarrow> int \<Rightarrow> w32 \<Rightarrow> int \<times> w32" where
  "win32_pthread_join os thread s =
     (let (h, s1) = sys os (OpenThread thread) s; (_, s2) = sys os (WaitForSingleObject h) s1;
          (r, s3) = sys os GetLastError s2
      in (r, snd (sys os (CloseHandle h) s3)))"

section \<open>Numbers and messages\<close>

definition lower :: "char \<Rightarrow> char" where
  "lower c = (let n = of_char c :: nat in if 65 \<le> n \<and> n \<le> 90 then char_of (n + 32) else c)"

text \<open>\<open>_strnicmp(a, b, n) == 0\<close>; both texts end with a NUL.\<close>

fun strnicmp_eq :: "nat \<Rightarrow> string \<Rightarrow> string \<Rightarrow> bool" where
  "strnicmp_eq 0 a b = True"
| "strnicmp_eq (Suc n) [] [] = True"
| "strnicmp_eq (Suc n) (x # a) (y # b) = (lower x = lower y \<and> strnicmp_eq n a b)"
| "strnicmp_eq (Suc n) a b = False"

datatype 'd number = Finite 'd | Infinity | MinusInfinity | NotANumber

text \<open>
  \<open>strtod_l\<close> is the conversion of the C library in the locale "C": the number, and how many
  characters of the text it takes. The answer is the number and how many are taken here; the
  test \<open>d == 0\<close> holds when none is.
\<close>

definition wstrtod :: "(string \<Rightarrow> 'd \<times> nat) \<Rightarrow> string \<Rightarrow> 'd number \<times> nat" where
  "wstrtod strtod_l s =
     (let (d, used) = strtod_l s
      in if used \<noteq> 0 then (Finite d, used)
         else let t = dropWhile is_space s; n = length s - length t;
           neg = (take 1 t = ''-'');
           m = (if neg \<or> take 1 t = ''+'' then Suc n else n); u = drop m s
         in if strnicmp_eq 3 ''INF'' u then
              (if neg then MinusInfinity else Infinity, m + (if strnicmp_eq 8 ''INFINITE'' u then 8 else 3))
            else if strnicmp_eq 3 ''NAN'' u then (NotANumber, m + 3)
            else (Finite d, 0))"

text \<open>
  A message of the system in a buffer: \<open>found\<close> is what \<open>FormatMessage\<close> puts there when it has one;
  the line end is cut off.
\<close>

definition cut_line_end :: "string \<Rightarrow> string" where
  "cut_line_end b = (let n = length b in if 2 < n \<and> b ! (n - 2) = CHR 0x0D then take (n - 2) b else b)"

text \<open>\<open>buf\<close> is the text the buffer holds at first, \<open>strerr\<close> the message of the C library.\<close>

definition strerror_r :: "string option \<Rightarrow> string \<Rightarrow> nat \<Rightarrow> string \<Rightarrow> w32 \<Rightarrow> (int \<times> string) \<times> w32" where
  "strerror_r found strerr buflen buf s =
     (case found of
        Some b \<Rightarrow> ((0, cut_line_end b), s)
      | None \<Rightarrow> if length strerr \<ge> buflen then ((-1, buf), s\<lparr>errno := ERANGE\<rparr>) else ((0, strerr), s))"

definition wsa_strerror :: "string option \<Rightarrow> string \<Rightarrow> string" where
  "wsa_strerror found strerr = (case found of None \<Rightarrow> strerr | Some b \<Rightarrow> cut_line_end b)"

section \<open>What the functions do\<close>

text \<open>Every handle that is opened is closed, on every path; \<open>errno\<close> is set exactly when -1 is the answer.\<close>

lemma kill_closes:
  "kill os pid SIGKILL s = (r, s') \<Longrightarrow> \<exists>h. trace s' = trace s @ [OpenProcess pid, TerminateProcess h 127, CloseHandle h] \<and>
     (r = 0 \<and> errno s' = errno s \<or> r = -1 \<and> errno s' = EINVAL)"
  by (auto simp: kill_def sys_def Let_def split: if_splits)

lemma kill_other: "sig \<noteq> SIGKILL \<Longrightarrow> kill os pid sig s = (-1, s\<lparr>errno := EINVAL\<rparr>)"
  by (simp add: kill_def)

lemma fsync_errors:
  "fsync os fd s = (r, s') \<Longrightarrow> r = 0 \<and> errno s' = errno s \<or> r = -1 \<and> errno s' \<in> {EBADF, EINVAL, EIO}"
  by (auto simp: fsync_def sys_def Let_def split: if_splits)

lemma ftruncate_errors:
  "replace_ftruncate os fd len s = (r, s') \<Longrightarrow> r \<in> {0, -1} \<and>
     (errno s' = errno s \<or> r = -1 \<and> errno s' = EBADF) \<and> (r = 0 \<longrightarrow> (\<exists>h. trace s' = trace s @ [GetOsfHandle fd, SetFilePointerEx h len, SetEndOfFile h]))"
  by (auto simp: replace_ftruncate_def sys_def Let_def split: if_splits)

text \<open>A thread frees its parameters once its function has returned; they leak when it cannot be started.\<close>

lemma pthread_create_runs:
  assumes "pthread_create os start arg s = ((r, ptr, p), s')"
  shows "(os (trace s @ [Malloc]) (BeginThread REDIS_THREAD_STACK_SIZE ptr) \<noteq> 0 \<longrightarrow> r = 0 \<and> (\<exists>h. trace s' = trace s @ [Malloc, BeginThread REDIS_THREAD_STACK_SIZE ptr, CloseHandle h]) \<and>
      trace (snd (win32_proxy_threadproc os ptr p s'')) = trace s'' @ [Invoke start arg, Free ptr, EndThread]) \<and>
    (os (trace s @ [Malloc]) (BeginThread REDIS_THREAD_STACK_SIZE ptr) = 0 \<longrightarrow> Free ptr \<notin> set (drop (length (trace s)) (trace s')))"
  using assms by (auto simp: pthread_create_def win32_proxy_threadproc_def sys_def Let_def split: if_splits)

lemma join_answers_last_error:
  "win32_pthread_join os th s = (r, s') \<Longrightarrow> \<exists>h. trace s' = trace s @ [OpenThread th, WaitForSingleObject h, GetLastError, CloseHandle h] \<and>
     r = os (trace s @ [OpenThread th, WaitForSingleObject h]) GetLastError"
  by (auto simp: win32_pthread_join_def sys_def Let_def)

section \<open>Renaming\<close>

lemma rename_ends: "rename_loop att k retries sleeps err = Some r \<Longrightarrow> \<exists>n. att n \<noteq> 5"
  by (erule rename_loop.raw_induct [where P = "\<lambda>att k retries sleeps err r. \<exists>n. att n \<noteq> 5", rotated]) (force split: if_splits)

lemma rename_goes_on:
  "(\<And>j. j < n \<Longrightarrow> att j = 5) \<Longrightarrow> rename_loop att 0 50 0 err = rename_loop att n (50 - n mod 50) (n div 50) (if n = 0 then err else 5)"
proof (induction n)
  case (Suc n)
  let ?e = "if n = 0 then err else 5"
  have s: "rename_loop att n (50 - n mod 50) (n div 50) ?e = (if 50 - n mod 50 - 1 = 0 then rename_loop att (Suc n) 50 (Suc (n div 50)) 5
      else rename_loop att (Suc n) (50 - n mod 50 - 1) (n div 50) 5)"
    using Suc.prems [of n] by (subst rename_loop.simps) simp
  have m: "n mod 50 < 50" by simp
  show ?case
  proof (cases "n mod 50 = 49")
    case True
    then have "Suc n mod 50 = 0" "Suc n div 50 = Suc (n div 50)" by (simp_all add: mod_Suc div_Suc)
    then show ?thesis using Suc.IH Suc.prems s True by simp
  next
    case False
    then have "Suc n mod 50 = Suc (n mod 50)" "Suc n div 50 = n div 50" by (simp_all add: mod_Suc div_Suc)
    then show ?thesis using Suc.IH Suc.prems s False m by simp
  qed
qed simp

text \<open>
  C38: \<open>replace_rename\<close> ends exactly when some attempt does not fail with error 5, access denied: a
  file that stays locked keeps the caller for ever. It then answers 0 when the first such attempt
  succeeds and -1 with the error of that attempt otherwise, after a pause for every fifty
  attempts before it; a rename that succeeds late leaves 5 in \<open>errno\<close>.
\<close>

theorem rename_ends_iff:
  "(replace_rename att err = None \<longleftrightarrow> (\<forall>n. att n = 5)) \<and>
   (att n \<noteq> 5 \<and> (\<forall>j < n. att j = 5) \<longrightarrow> replace_rename att err =
      Some (if att n = 0 then (0, if n = 0 then err else 5, Suc n, n div 50) else (-1, att n, Suc n, n div 50)))"
proof -
  have first: "replace_rename att err = Some (if att n = 0 then (0, if n = 0 then err else 5, Suc n, n div 50) else (-1, att n, Suc n, n div 50))"
    if "att n \<noteq> 5" "\<forall>j < n. att j = 5" for n
  proof -
    have "rename_loop att 0 50 0 err = rename_loop att n (50 - n mod 50) (n div 50) (if n = 0 then err else 5)" using that(2) by (intro rename_goes_on) simp
    also have "\<dots> = Some (if att n = 0 then (0, if n = 0 then err else 5, Suc n, n div 50) else (-1, att n, Suc n, n div 50))"
      using that(1) by (subst rename_loop.simps) simp
    finally show ?thesis unfolding replace_rename_def .
  qed
  have "replace_rename att err \<noteq> None" if "att m \<noteq> 5" for m
  proof -
    have "att (LEAST m. att m \<noteq> 5) \<noteq> 5" "\<forall>j < (LEAST m. att m \<noteq> 5). att j = 5"
      using that LeastI [of "\<lambda>m. att m \<noteq> 5"] not_less_Least [of _ "\<lambda>m. att m \<noteq> 5"] by blast+
    from first [OF this] show ?thesis by simp
  qed
  then have "replace_rename att err = None \<longleftrightarrow> (\<forall>n. att n = 5)" using rename_ends unfolding replace_rename_def by (metis not_Some_eq)
  then show ?thesis using first by blast
qed

lemma rename_ends_iff_witness:
  "replace_rename (\<lambda>k. if k < 120 then 5 else 0) 7 = Some (0, 5, 121, 2) \<and> replace_rename (\<lambda>k. 5) 7 = None"
  using rename_ends_iff [of "\<lambda>k. if k < 120 then 5 else 0" 7 120] rename_ends_iff [of "\<lambda>k. 5" 7 0] by simp

section \<open>Reading numbers\<close>

lemma dropWhile_prefix: "list_all is_space sp \<Longrightarrow> \<not> is_space c \<Longrightarrow> dropWhile is_space (sp @ c # t) = c # t"
  by (induction sp) auto

text \<open>
  A text without a number for the C library that spells infinity, in letters of any size, behind
  blanks and a sign. \<open>INFINITE\<close> is taken whole; of \<open>INFINITY\<close>, the word of the C standard, the
  last five letters are left.
\<close>

lemma letters: "lower (CHR ''I'') = CHR ''i''" "lower (CHR ''i'') = CHR ''i''" "lower (CHR ''N'') = CHR ''n''" "lower (CHR ''n'') = CHR ''n''"
    "lower (CHR ''F'') = CHR ''f''" "lower (CHR ''f'') = CHR ''f''"
  by code_simp+

lemma wstrtod_infinity:
  assumes "strtod_l (sp @ sign @ [a, b, c] @ rest) = (d, 0)" "list_all is_space sp" "sign \<in> {[], ''+'', ''-''}"
    and "a \<in> {CHR ''I'', CHR ''i''}" "b \<in> {CHR ''N'', CHR ''n''}" "c \<in> {CHR ''F'', CHR ''f''}"
  shows "wstrtod strtod_l (sp @ sign @ [a, b, c] @ rest) =
    (if sign = ''-'' then MinusInfinity else Infinity, length sp + length sign + (if strnicmp_eq 5 ''INITE'' rest then 8 else 3))"
proof -
  let ?s = "sp @ sign @ [a, b, c] @ rest"
  have ns: "\<not> is_space a" "\<not> is_space (CHR ''+'')" "\<not> is_space (CHR ''-'')" using assms(4) by (auto simp: is_space_def)
  have t: "dropWhile is_space ?s = sign @ [a, b, c] @ rest"
    using assms(3) ns dropWhile_prefix [OF assms(2)] by auto
  have i: "strnicmp_eq 3 ''INF'' (a # b # c # rest)" using assms(4-6) by (auto simp: eval_nat_numeral letters)
  have e: "strnicmp_eq 8 ''INFINITE'' (a # b # c # rest) = strnicmp_eq 5 ''INITE'' rest" using assms(4-6) by (auto simp: eval_nat_numeral letters)
  have na: "a \<noteq> CHR ''-''" "a \<noteq> CHR ''+''" using assms(4) by auto
  show ?thesis using assms(1,3) t i e na by (auto simp: wstrtod_def Let_def)
qed

lemma wstrtod_infinity_word: "wstrtod (\<lambda>_. (0 :: int, 0)) ''  -infinity'' = (MinusInfinity, 6)" "wstrtod (\<lambda>_. (0 :: int, 0)) ''Infinite'' = (Infinity, 8)"
  by code_simp+

end
