(* ===== verification/Conds.thy ===== *)
theory Conds
  imports Prelude
begin

text \<open>
  The condition variables of \<open>src/win32fixes.c\<close>, lines 259 to 363, made of a counter of waiters
  with a critical section, and a semaphore. A statement at a time, threads in any order. Shown: the
  counter counts, the branch for a broadcast is never taken, and a signal given under the mutex
  while a thread sleeps leaves a unit it can go on with; which thread takes the unit is open.
\<close>

section \<open>Critical sections\<close>

text \<open>The owner of a critical section and how often it has entered.\<close>

type_synonym critical = "(nat \<times> nat) option"

definition enter_cs :: "nat \<Rightarrow> critical \<Rightarrow> critical option" where
  "enter_cs i c = (case c of None \<Rightarrow> Some (Some (i, 1)) | Some (j, d) \<Rightarrow> if j = i then Some (Some (i, Suc d)) else None)"

definition leave_cs :: "critical \<Rightarrow> critical" where
  "leave_cs c = (case c of Some (j, Suc (Suc d)) \<Rightarrow> Some (j, Suc d) | _ \<Rightarrow> None)"

abbreviation owns :: "nat \<Rightarrow> critical \<Rightarrow> bool" where
  "owns i c \<equiv> (\<exists>d. c = Some (i, d))"

section \<open>The statements\<close>

text \<open>A handle that could not be made is \<open>None\<close>; else the count of the semaphore, the state of the event.\<close>

record pthread_cond =
  waiters_lock :: critical
  waiters :: int
  was_broadcast :: int
  sema :: "nat option"
  continue_broadcast :: "bool option"

definition LONG_MAX :: nat where "LONG_MAX = 2147483647"

text \<open>What \<open>CreateSemaphore\<close> and \<open>CreateEvent\<close> did, and \<open>GetLastError\<close>; the answer and \<open>errno\<close>.\<close>

definition pthread_cond_init :: "bool \<Rightarrow> bool \<Rightarrow> int \<Rightarrow> 'a pthread_cond_scheme \<Rightarrow> int \<Rightarrow> int \<times> 'a pthread_cond_scheme \<times> int" where
  "pthread_cond_init sema_made event_made last_error c errno =
    (let c = c\<lparr>waiters := 0, was_broadcast := 0, waiters_lock := None, sema := (if sema_made then Some 0 else None)\<rparr>
     in if \<not> sema_made then (-1, c, last_error)
        else let c = c\<lparr>continue_broadcast := (if event_made then Some False else None)\<rparr>
             in if \<not> event_made then (-1, c, last_error) else (0, c, errno))"

definition pthread_cond_destroy :: "'a pthread_cond_scheme \<Rightarrow> int \<times> 'a pthread_cond_scheme" where
  "pthread_cond_destroy c = (0, c\<lparr>sema := None, continue_broadcast := None, waiters_lock := None\<rparr>)"

text \<open>Where a thread is, by the statement that comes next.\<close>

datatype place = Outside
  | WaitEnter | WaitCount | WaitLeave | WaitUnlock | Sleeping | WakeEnter | WakeCount | WakeLeave bool | Telling bool | Relock
  | SigEnter | SigRead | SigLeave bool | SigTest bool

record conds = pthread_cond +
  mutex :: critical
  place :: "nat \<Rightarrow> place"
  answer :: "nat \<Rightarrow> int"

definition goto :: "nat \<Rightarrow> place \<Rightarrow> conds \<Rightarrow> conds" where
  "goto i p s = s\<lparr>place := (place s)(i := p)\<rparr>"

definition return :: "nat \<Rightarrow> int \<Rightarrow> conds \<Rightarrow> conds" where
  "return i r s = goto i Outside (s\<lparr>answer := (answer s)(i := r)\<rparr>)"

text \<open>\<open>WaitForSingleObject\<close> on the semaphore; a wait on no handle fails at once, which is not looked at.\<close>

definition take_unit :: "conds \<Rightarrow> conds option" where
  "take_unit s = (case sema s of None \<Rightarrow> Some s | Some 0 \<Rightarrow> None | Some (Suc k) \<Rightarrow> Some (s\<lparr>sema := Some k\<rparr>))"

definition pthread_cond_wait :: "nat \<Rightarrow> conds \<Rightarrow> conds option" where
  "pthread_cond_wait i s = (case place s i of
       WaitEnter \<Rightarrow> map_option (\<lambda>c. goto i WaitCount (s\<lparr>waiters_lock := c\<rparr>)) (enter_cs i (waiters_lock s))
     | WaitCount \<Rightarrow> Some (goto i WaitLeave (s\<lparr>waiters := i32 (waiters s + 1)\<rparr>))
     | WaitLeave \<Rightarrow> Some (goto i WaitUnlock (s\<lparr>waiters_lock := leave_cs (waiters_lock s)\<rparr>))
     | WaitUnlock \<Rightarrow> Some (goto i Sleeping (s\<lparr>mutex := leave_cs (mutex s)\<rparr>))
     | Sleeping \<Rightarrow> map_option (goto i WakeEnter) (take_unit s)
     | WakeEnter \<Rightarrow> map_option (\<lambda>c. goto i WakeCount (s\<lparr>waiters_lock := c\<rparr>)) (enter_cs i (waiters_lock s))
     | WakeCount \<Rightarrow> let w = i32 (waiters s - 1)
         in Some (goto i (WakeLeave (was_broadcast s \<noteq> 0 \<and> w = 0)) (s\<lparr>waiters := w\<rparr>))
     | WakeLeave l \<Rightarrow> Some (goto i (Telling l) (s\<lparr>waiters_lock := leave_cs (waiters_lock s)\<rparr>))
     | Telling l \<Rightarrow> Some (goto i Relock (s\<lparr>continue_broadcast := (if l then map_option (\<lambda>_. True) (continue_broadcast s) else continue_broadcast s)\<rparr>))
     | Relock \<Rightarrow> map_option (\<lambda>c. return i 0 (s\<lparr>mutex := c\<rparr>)) (enter_cs i (mutex s))
     | _ \<Rightarrow> None)"

text \<open>\<open>ReleaseSemaphore\<close> adds a unit, or fails when the semaphore is full or there is none.\<close>

definition pthread_cond_signal :: "int \<Rightarrow> nat \<Rightarrow> conds \<Rightarrow> conds option" where
  "pthread_cond_signal last_error i s = (case place s i of
       SigEnter \<Rightarrow> map_option (\<lambda>c. goto i SigRead (s\<lparr>waiters_lock := c\<rparr>)) (enter_cs i (waiters_lock s))
     | SigRead \<Rightarrow> Some (goto i (SigLeave (0 < waiters s)) s)
     | SigLeave h \<Rightarrow> Some (goto i (SigTest h) (s\<lparr>waiters_lock := leave_cs (waiters_lock s)\<rparr>))
     | SigTest h \<Rightarrow> Some (if h
         then case sema s of
                Some k \<Rightarrow> if k < LONG_MAX then return i 0 (s\<lparr>sema := Some (Suc k)\<rparr>) else return i last_error s
              | None \<Rightarrow> return i last_error s
         else return i 0 s)
     | _ \<Rightarrow> None)"

text \<open>
  What a thread does: take or release the mutex, call one of the two functions, or go on in it.
  The mutex is released, and the functions are called, by the thread that holds it, as the comment
  above \<open>pthread_cond_signal\<close> demands.
\<close>

datatype act = LockMutex | UnlockMutex | CallWait | CallSignal | GoOn

definition cond_step :: "int \<Rightarrow> act \<Rightarrow> nat \<Rightarrow> conds \<Rightarrow> conds option" where
  "cond_step last_error a i s = (if a = GoOn
     then case pthread_cond_wait i s of None \<Rightarrow> pthread_cond_signal last_error i s | Some s' \<Rightarrow> Some s'
     else if place s i \<noteq> Outside then None
     else if a = LockMutex then map_option (\<lambda>c. s\<lparr>mutex := c\<rparr>) (enter_cs i (mutex s))
     else case mutex s of
            None \<Rightarrow> None
          | Some (j, d) \<Rightarrow> if j \<noteq> i then None
              else Some (case a of UnlockMutex \<Rightarrow> s\<lparr>mutex := leave_cs (mutex s)\<rparr> | CallWait \<Rightarrow> goto i WaitEnter s | _ \<Rightarrow> goto i SigEnter s))"

fun cond_run :: "int \<Rightarrow> (act \<times> nat) list \<Rightarrow> conds \<Rightarrow> conds option" where
  "cond_run e [] s = Some s"
| "cond_run e ((a, i) # as) s = (case cond_step e a i s of None \<Rightarrow> None | Some s' \<Rightarrow> cond_run e as s')"

inductive cond_reached :: "nat \<Rightarrow> conds \<Rightarrow> bool" for n :: nat where
  fresh: "mutex s = None \<Longrightarrow> (\<And>i. place s i = Outside) \<Longrightarrow> pthread_cond_init True True e s e' = (0, s', e'') \<Longrightarrow> cond_reached n s'"
| acts: "cond_reached n s \<Longrightarrow> i < n \<Longrightarrow> cond_step e a i s = Some s' \<Longrightarrow> cond_reached n s'"

section \<open>What always holds\<close>

fun counted :: "place \<Rightarrow> bool" where
  "counted WaitLeave = True" | "counted WaitUnlock = True" | "counted Sleeping = True" | "counted WakeEnter = True"
| "counted WakeCount = True" | "counted _ = False"

fun guarded :: "place \<Rightarrow> bool" where
  "guarded WaitCount = True" | "guarded WaitLeave = True" | "guarded WakeCount = True" | "guarded (WakeLeave l) = True"
| "guarded SigRead = True" | "guarded (SigLeave h) = True" | "guarded _ = False"

fun with_mutex :: "place \<Rightarrow> bool" where
  "with_mutex WaitEnter = True" | "with_mutex WaitCount = True" | "with_mutex WaitLeave = True" | "with_mutex WaitUnlock = True"
| "with_mutex SigEnter = True" | "with_mutex SigRead = True" | "with_mutex (SigLeave h) = True" | "with_mutex (SigTest h) = True"
| "with_mutex _ = False"

definition waiting :: "nat \<Rightarrow> conds \<Rightarrow> int" where
  "waiting n s = int (card {j. j < n \<and> counted (place s j)})"

text \<open>\<open>silent\<close>: a signaler that has seen no waiter. \<open>telling\<close>: a waiter that tells a broadcaster.\<close>

fun silent :: "place \<Rightarrow> bool" where
  "silent (SigLeave h) = (\<not> h)" | "silent (SigTest h) = (\<not> h)" | "silent _ = False"

fun telling :: "place \<Rightarrow> bool" where
  "telling (WakeLeave l) = l" | "telling (Telling l) = l" | "telling _ = False"

definition locks_ok :: "conds \<Rightarrow> bool" where
  "locks_ok s \<longleftrightarrow> (\<forall>j. guarded (place s j) \<longleftrightarrow> waiters_lock s = Some (j, 1)) \<and> (\<forall>j d. waiters_lock s = Some (j, d) \<longrightarrow> d = 1) \<and>
     (\<forall>j. with_mutex (place s j) \<longrightarrow> owns j (mutex s))"

definition cond_ok :: "nat \<Rightarrow> conds \<Rightarrow> bool" where
  "cond_ok n s \<longleftrightarrow> waiters s = i32 (waiting n s) \<and> was_broadcast s = 0 \<and> continue_broadcast s = Some False \<and> sema s \<noteq> None \<and>
     (\<forall>j. \<not> telling (place s j)) \<and> (\<forall>j. n \<le> j \<longrightarrow> place s j = Outside) \<and> locks_ok s"

lemma waiting_goto:
  assumes "i < n"
  shows "waiting n (goto i p s) = waiting n s + (if counted p then 1 else 0) - (if counted (place s i) then 1 else 0)"
proof -
  let ?A = "{j. j < n \<and> j \<noteq> i \<and> counted (place s j)}"
  have "{j. j < n \<and> counted (place s j)} = (if counted (place s i) then insert i ?A else ?A)"
    "{j. j < n \<and> counted (place (goto i p s) j)} = (if counted p then insert i ?A else ?A)"
    using assms by (auto simp: goto_def)
  then show ?thesis by (simp add: waiting_def)
qed

lemma goto_simps [simp]:
  "place (goto i p s) = (place s)(i := p)" "mutex (goto i p s) = mutex s" "waiters_lock (goto i p s) = waiters_lock s"
  "waiters (goto i p s) = waiters s" "was_broadcast (goto i p s) = was_broadcast s" "sema (goto i p s) = sema s"
  "continue_broadcast (goto i p s) = continue_broadcast s" "answer (goto i p s) = answer s"
  by (simp_all add: goto_def)

lemma enter_cs_Some: "enter_cs i c = Some c' \<longleftrightarrow> c = None \<and> c' = Some (i, 1) \<or> (\<exists>d. c = Some (i, d) \<and> c' = Some (i, Suc d))"
  by (auto simp: enter_cs_def split: option.splits)

lemma leave_cs_once [simp]: "leave_cs (Some (i, Suc 0)) = None"
  by (simp add: leave_cs_def)

lemma owns_leave: "owns j (leave_cs c) \<Longrightarrow> owns j c"
  by (auto simp: leave_cs_def split: option.splits nat.splits)

lemma take_unit_Some: "take_unit s = Some s' \<longleftrightarrow> sema s = None \<and> s' = s \<or> (\<exists>k. sema s = Some (Suc k) \<and> s' = s\<lparr>sema := Some k\<rparr>)"
  by (auto simp: take_unit_def split: option.splits nat.splits)

lemma go_on_cases:
  assumes "cond_step e GoOn i s = Some s'"
  obtains "pthread_cond_wait i s = Some s'" | "pthread_cond_signal e i s = Some s'"
  using assms unfolding cond_step_def by (auto split: option.splits)

lemmas wait_defs = pthread_cond_wait_def Let_def enter_cs_Some take_unit_Some return_def

text \<open>What a step does to the place of the thread, the critical section and the mutex.\<close>

definition step_shape :: "nat \<Rightarrow> conds \<Rightarrow> conds \<Rightarrow> bool" where
  "step_shape i s s' \<longleftrightarrow> place s' = (place s)(i := place s' i) \<and>
     (waiters_lock s' = waiters_lock s \<and> guarded (place s' i) = guarded (place s i) \<or>
      enter_cs i (waiters_lock s) = Some (waiters_lock s') \<and> \<not> guarded (place s i) \<and> guarded (place s' i) \<or>
      waiters_lock s' = leave_cs (waiters_lock s) \<and> guarded (place s i) \<and> \<not> guarded (place s' i)) \<and>
     (mutex s' = mutex s \<and> (with_mutex (place s' i) \<longrightarrow> with_mutex (place s i) \<or> owns i (mutex s)) \<or>
      enter_cs i (mutex s) = Some (mutex s') \<and> \<not> with_mutex (place s' i) \<or>
      mutex s' = leave_cs (mutex s) \<and> \<not> with_mutex (place s' i) \<and> (with_mutex (place s i) \<or> owns i (mutex s)))"

lemma wait_shape: "pthread_cond_wait i s = Some s' \<Longrightarrow> step_shape i s s'"
  by (cases "place s i") (auto simp: wait_defs step_shape_def)

lemma signal_shape: "pthread_cond_signal e i s = Some s' \<Longrightarrow> step_shape i s s'"
  by (cases "place s i") (auto simp: pthread_cond_signal_def enter_cs_Some return_def step_shape_def split: option.splits if_splits)

lemma call_shape: "cond_step e a i s = Some s' \<Longrightarrow> a \<noteq> GoOn \<Longrightarrow> step_shape i s s'"
  by (cases a) (auto simp: cond_step_def enter_cs_Some step_shape_def fun_upd_idem split: option.splits if_splits)

lemma cond_step_shape: "cond_step e a i s = Some s' \<Longrightarrow> step_shape i s s'"
  by (metis call_shape go_on_cases signal_shape wait_shape)

lemma enter_or_leave:
  assumes "c' = c \<and> gi' = gi \<or> enter_cs i c = Some c' \<and> \<not> gi \<and> gi' \<or> c' = leave_cs c \<and> gi \<and> \<not> gi'"
    and "gi \<longleftrightarrow> c = Some (i, 1)" "\<forall>k d. c = Some (k, d) \<longrightarrow> d = 1"
  shows "gi' \<longleftrightarrow> c' = Some (i, 1)" "j \<noteq> i \<Longrightarrow> c' = Some (j, 1) \<longleftrightarrow> c = Some (j, 1)" "\<forall>k d. c' = Some (k, d) \<longrightarrow> d = 1"
  using assms by (cases c; auto simp: enter_cs_Some)+

lemma enter_or_leave_mutex:
  assumes "c' = c \<or> enter_cs i c = Some c' \<or> c' = leave_cs c \<and> owns i c" "j \<noteq> i"
  shows "owns j c' \<longleftrightarrow> owns j c"
  using assms by (cases c) (auto simp: enter_cs_Some leave_cs_def split: nat.splits)

lemma step_keeps_locks:
  assumes l: "locks_ok s" and sh: "step_shape i s s'"
  shows "locks_ok s'"
proof -
  obtain p where p: "place s' = (place s)(i := p)"
    and w: "waiters_lock s' = waiters_lock s \<and> guarded p = guarded (place s i) \<or>
      enter_cs i (waiters_lock s) = Some (waiters_lock s') \<and> \<not> guarded (place s i) \<and> guarded p \<or>
      waiters_lock s' = leave_cs (waiters_lock s) \<and> guarded (place s i) \<and> \<not> guarded p"
    and m: "mutex s' = mutex s \<and> (with_mutex p \<longrightarrow> with_mutex (place s i) \<or> owns i (mutex s)) \<or>
      enter_cs i (mutex s) = Some (mutex s') \<and> \<not> with_mutex p \<or>
      mutex s' = leave_cs (mutex s) \<and> \<not> with_mutex p \<and> (with_mutex (place s i) \<or> owns i (mutex s))"
    using sh unfolding step_shape_def by blast
  have g: "guarded (place s j) \<longleftrightarrow> waiters_lock s = Some (j, 1)" "with_mutex (place s j) \<Longrightarrow> owns j (mutex s)"
    and o: "\<forall>k d. waiters_lock s = Some (k, d) \<longrightarrow> d = 1" for j using l unfolding locks_ok_def by blast+
  note e = enter_or_leave [OF w g(1) o]
  have "guarded (place s' j) \<longleftrightarrow> waiters_lock s' = Some (j, 1)" for j
    by (cases "j = i") (use p e(1,2) g(1) in simp_all)
  moreover have "with_mutex (place s' j) \<longrightarrow> owns j (mutex s')" for j
  proof (cases "j = i")
    case True
    then show ?thesis using m g(2) [of i] p by fastforce
  next
    case False
    moreover have "mutex s' = mutex s \<or> enter_cs i (mutex s) = Some (mutex s') \<or> mutex s' = leave_cs (mutex s) \<and> owns i (mutex s)"
      using m g(2) [of i] by blast
    ultimately show ?thesis using enter_or_leave_mutex g(2) [of j] p by (metis fun_upd_other)
  qed
  moreover note e(3)
  ultimately show ?thesis unfolding locks_ok_def by blast
qed

text \<open>The count: only the two statements between which a thread counts change it.\<close>

definition count_shape :: "nat \<Rightarrow> nat \<Rightarrow> conds \<Rightarrow> conds \<Rightarrow> bool" where
  "count_shape n i s s' \<longleftrightarrow> was_broadcast s' = was_broadcast s \<and> (sema s' = None \<longleftrightarrow> sema s = None) \<and>
     waiters s' = i32 (waiters s + (if counted (place s' i) then 1 else 0) - (if counted (place s i) then 1 else 0)) \<and>
     (telling (place s' i) \<longrightarrow> telling (place s i) \<or> was_broadcast s \<noteq> 0) \<and>
     (continue_broadcast s' = continue_broadcast s \<or> telling (place s i))"

lemma cond_step_count:
  assumes "waiters s = i32 (waiters s)" "cond_step e a i s = Some s'"
  shows "count_shape n i s s'"
proof (cases "a = GoOn")
  case True
  then consider "pthread_cond_wait i s = Some s'" | "pthread_cond_signal e i s = Some s'" using assms(2) by (metis go_on_cases)
  then show ?thesis using assms(1)
    by cases ((cases "place s i"; auto simp: wait_defs count_shape_def split: if_splits),
      (cases "place s i"; auto simp: pthread_cond_signal_def enter_cs_Some return_def count_shape_def split: option.splits if_splits))
next
  case False
  then show ?thesis using assms
    by (cases a) (auto simp: cond_step_def enter_cs_Some count_shape_def split: option.splits if_splits)
qed

lemma step_keeps_ok:
  assumes ok: "cond_ok n s" and i: "i < n" and st: "cond_step e a i s = Some s'"
  shows "cond_ok n s'"
proof -
  have c: "count_shape n i s s'" by (rule cond_step_count [OF _ st]) (use ok in \<open>simp add: cond_ok_def\<close>)
  have sh: "step_shape i s s'" by (rule cond_step_shape [OF st])
  obtain q where q: "place s' i = q" and p: "place s' = (place s)(i := q)" using sh unfolding step_shape_def by blast
  note c = c [unfolded count_shape_def q]
  have "waiting n s' = waiting n (goto i q s)" using p by (simp add: waiting_def)
  then have "waiters s' = i32 (waiting n s')" using c ok
    unfolding cond_ok_def waiting_goto [OF i] by (simp add: i32_amid)
  moreover have "\<not> telling (place s' j)" for j using c ok unfolding p cond_ok_def by (cases "j = i") auto
  moreover have "n \<le> j \<longrightarrow> place s' j = Outside" for j using ok i unfolding p cond_ok_def by auto
  ultimately show ?thesis using c ok step_keeps_locks [OF _ sh] unfolding cond_ok_def by auto
qed

lemma reached_ok: "cond_reached n s \<Longrightarrow> cond_ok n s"
proof (induction rule: cond_reached.induct)
  case (fresh s e e' s' e'')
  then show ?case by (auto simp: pthread_cond_init_def Let_def cond_ok_def locks_ok_def waiting_def i32_def)
next
  case (acts s i e a s')
  then show ?case using step_keeps_ok by blast
qed

text \<open>A signaler that has seen no waiter stays right: nobody can start to wait while it has the mutex.\<close>

definition quiet :: "conds \<Rightarrow> bool" where
  "quiet s \<longleftrightarrow> (\<forall>j k. silent (place s j) \<longrightarrow> \<not> counted (place s k))"

lemma silent_with_mutex: "silent p \<Longrightarrow> with_mutex p"
  by (cases p) auto

lemma silent_uncounted: "silent p \<Longrightarrow> \<not> counted p"
  by (cases p) auto

lemma cond_step_silent:
  assumes "cond_step e a i s = Some s'"
  shows "counted (place s' i) \<longrightarrow> counted (place s i) \<or> with_mutex (place s i) \<and> \<not> silent (place s i)"
    "silent (place s' i) \<longrightarrow> silent (place s i) \<or> waiters s \<le> 0"
proof -
  have "(counted (place s' i) \<longrightarrow> counted (place s i) \<or> with_mutex (place s i) \<and> \<not> silent (place s i)) \<and>
    (silent (place s' i) \<longrightarrow> silent (place s i) \<or> waiters s \<le> 0)"
  proof (cases "a = GoOn")
    case True
    then consider "pthread_cond_wait i s = Some s'" | "pthread_cond_signal e i s = Some s'" using assms by (metis go_on_cases)
    then show ?thesis
      by cases ((cases "place s i"; auto simp: wait_defs split: if_splits),
        (cases "place s i"; auto simp: pthread_cond_signal_def enter_cs_Some return_def split: option.splits if_splits))
  next
    case False
    then show ?thesis using assms
      by (cases a) (auto simp: cond_step_def enter_cs_Some split: option.splits if_splits)
  qed
  then show "counted (place s' i) \<longrightarrow> counted (place s i) \<or> with_mutex (place s i) \<and> \<not> silent (place s i)"
    "silent (place s' i) \<longrightarrow> silent (place s i) \<or> waiters s \<le> 0" by blast+
qed

lemma reached_quiet: "cond_reached n s \<Longrightarrow> n < 2147483648 \<Longrightarrow> quiet s"
proof (induction rule: cond_reached.induct)
  case (fresh s e e' s' e'')
  then show ?case by (auto simp: pthread_cond_init_def Let_def quiet_def)
next
  case (acts s i e a s')
  then have q: "quiet s" by simp
  have ok: "cond_ok n s" by (rule reached_ok [OF acts.hyps(1)])
  obtain p where p: "place s' = (place s)(i := p)" and pi: "place s' i = p"
    using cond_step_shape [OF acts.hyps(3)] unfolding step_shape_def by blast
  note si = cond_step_silent [OF acts.hyps(3), unfolded pi]
  have own: "with_mutex (place s j) \<Longrightarrow> with_mutex (place s k) \<Longrightarrow> j = k" for j k
    using ok unfolding cond_ok_def locks_ok_def by (metis option.inject prod.inject)
  have z: "\<not> counted (place s k)" if "waiters s \<le> 0" for k
  proof -
    have b: "card {j. j < n \<and> counted (place s j)} \<le> n" using card_mono [of "{..<n}" "{j. j < n \<and> counted (place s j)}"] by auto
    then have "waiters s = waiting n s" using ok acts.prems unfolding cond_ok_def waiting_def by (simp add: i32_id)
    then have "{j. j < n \<and> counted (place s j)} = {}" using that by (simp add: waiting_def)
    moreover have "k < n" if "counted (place s k)" using ok that unfolding cond_ok_def by (metis counted.simps(6) not_le)
    ultimately show ?thesis by blast
  qed
  have "\<not> counted (place s' k)" if "silent (place s' j)" for j k
  proof (cases "j = i")
    case True
    then have "silent p" using that pi by simp
    moreover from this have "silent (place s i) \<or> waiters s \<le> 0" using si(2) by blast
    ultimately show ?thesis using q z silent_uncounted unfolding p quiet_def by (cases "k = i") auto
  next
    case False
    then have j: "silent (place s j)" using that p by simp
    then have "\<not> with_mutex (place s i)" using own [OF silent_with_mutex [OF j]] False by metis
    then show ?thesis using q j si(1) unfolding p quiet_def by (cases "k = i") auto
  qed
  then show ?case unfolding quiet_def by blast
qed

section \<open>Waiting and signalling\<close>

lemma run_reached:
  "cond_run e as s = Some s' \<Longrightarrow> list_all (\<lambda>(a, i). i < n) as \<Longrightarrow> cond_reached n s \<Longrightarrow> cond_reached n s'"
  by (induction e as s rule: cond_run.induct) (auto split: option.splits intro: cond_reached.acts)

text \<open>A new condition variable, four threads, and the steps of a call.\<close>

definition no_cond :: conds where
  "no_cond = \<lparr>waiters_lock = None, waiters = 7, was_broadcast = 1, sema = None, continue_broadcast = None, mutex = None,
     place = (\<lambda>i. Outside), answer = (\<lambda>i. 0)\<rparr>"

definition new_cond :: conds where
  "new_cond = fst (snd (pthread_cond_init True True 0 no_cond 0))"

definition to_sleep :: "nat \<Rightarrow> (act \<times> nat) list" where
  "to_sleep i = map (\<lambda>a. (a, i)) [LockMutex, CallWait, GoOn, GoOn, GoOn, GoOn]"

definition signal_once :: "nat \<Rightarrow> (act \<times> nat) list" where
  "signal_once i = map (\<lambda>a. (a, i)) [LockMutex, CallSignal, GoOn, GoOn, GoOn, GoOn, UnlockMutex]"

lemma new_cond_reached: "cond_reached n new_cond"
  by (rule cond_reached.fresh [where s = no_cond and e = 0 and e' = 0 and e'' = 0])
    (simp_all add: new_cond_def no_cond_def pthread_cond_init_def)

lemmas cond_eval = new_cond_def no_cond_def pthread_cond_init_def to_sleep_def signal_once_def cond_step_def pthread_cond_wait_def
  pthread_cond_signal_def enter_cs_def leave_cs_def take_unit_def return_def goto_def LONG_MAX_def i32_id

text \<open>
  C39: Whatever the threads do, the counter of waiters is the number of threads between the two
  statements that change it, up to 32 bits; no two threads are where \<open>waiters_lock\<close> guards; the flag
  of a broadcast stays 0 and its event unset, since \<open>pthread_cond_broadcast\<close> is missing, and a thread
  in the guarded calls under the mutex has the mutex.
\<close>

theorem waiters_counted:
  "cond_reached n s \<Longrightarrow> waiters s = i32 (waiting n s) \<and> was_broadcast s = 0 \<and> continue_broadcast s = Some False \<and>
     (\<forall>j k. guarded (place s j) \<and> guarded (place s k) \<longrightarrow> j = k) \<and> (\<forall>j. with_mutex (place s j) \<longrightarrow> owns j (mutex s))"
proof -
  assume "cond_reached n s"
  then have ok: "cond_ok n s" by (rule reached_ok)
  then have "\<forall>j k. guarded (place s j) \<and> guarded (place s k) \<longrightarrow> j = k"
    unfolding cond_ok_def locks_ok_def by (metis option.inject prod.inject)
  with ok show ?thesis unfolding cond_ok_def locks_ok_def by blast
qed

lemma waiters_counted_witness:
  "\<exists>s. cond_run 0 (to_sleep 1 @ to_sleep 2) new_cond = Some s \<and> waiters s = 2 \<and> waiting 3 s = 2 \<and> was_broadcast s = 0"
proof -
  obtain s where s: "cond_run 0 (to_sleep 1 @ to_sleep 2) new_cond = Some s" "\<forall>j. counted (place s j) = (j = 1 \<or> j = 2)"
    by (auto simp: cond_eval)
  have "cond_reached 3 s" by (rule run_reached [OF s(1) _ new_cond_reached]) (simp add: to_sleep_def)
  note w = waiters_counted [OF this]
  have "{j. j < 3 \<and> counted (place s j)} = {1, 2}" using s(2) by auto
  then have c: "waiting 3 s = 2" by (simp add: waiting_def)
  then have "waiters s = 2" using w by (simp add: i32_id)
  then show ?thesis using s(1) c w by blast
qed

text \<open>
  C40: No signal is lost: when a thread sleeps in \<open>pthread_cond_wait\<close> and another has read the
  counter in \<open>pthread_cond_signal\<close>, holding the mutex, it has seen a waiter; its last statement
  leaves a unit on the semaphore, and the sleeping thread can go on. It answers 0 unless
  \<open>LONG_MAX\<close> units were there already. There are fewer than \<open>2 ^ 31\<close> threads.
\<close>

theorem signal_wakes_sleeper:
  assumes "cond_reached n s" "n < 2147483648" "place s j = SigTest h" "place s i = Sleeping"
  shows "h \<and> (\<exists>s' s'' k. cond_step e GoOn j s = Some s' \<and> sema s' = Some (Suc k) \<and> place s' j = Outside \<and>
      answer s' j = (if sema s = Some (Suc k) then e else 0) \<and> cond_step e GoOn i s' = Some s'' \<and> place s'' i = WakeEnter)"
proof -
  have h: h using reached_quiet [OF assms(1,2)] assms(3,4) unfolding quiet_def by (metis counted.simps(3) silent.simps(2))
  obtain k where k: "sema s = Some k" using reached_ok [OF assms(1)] unfolding cond_ok_def by blast
  have "j \<noteq> i" using assms(3,4) by auto
  then show ?thesis using h k assms(3,4)
    by (cases k) (auto simp: cond_step_def pthread_cond_wait_def pthread_cond_signal_def take_unit_def return_def LONG_MAX_def)
qed

lemma signal_wakes_sleeper_witness:
  "\<exists>s s' s'' k. cond_run 0 (to_sleep 1 @ butlast (butlast (signal_once 2))) new_cond = Some s \<and> cond_step 9 GoOn 2 s = Some s' \<and>
     sema s' = Some (Suc k) \<and> cond_step 9 GoOn 1 s' = Some s'' \<and> place s'' 1 = WakeEnter"
proof -
  obtain s where s: "cond_run 0 (to_sleep 1 @ butlast (butlast (signal_once 2))) new_cond = Some s" "place s 2 = SigTest True" "place s 1 = Sleeping"
    by (simp add: cond_eval)
  have "cond_reached 3 s" by (rule run_reached [OF s(1) _ new_cond_reached]) (simp add: to_sleep_def signal_once_def)
  then show ?thesis using signal_wakes_sleeper [of 3 s 2 True 1 9] s by auto
qed

text \<open>
  The unit is for whoever comes: a thread that waits after the signal may take it, and the one that
  slept when it was given sleeps on; two signals for one waiter leave a unit on which a later
  thread returns though nobody has signalled it. The code does not hand a unit to a waiter.
\<close>

lemma units_wander:
  "map_option (\<lambda>s. (place s 1, place s 3, sema s, cond_step 0 GoOn 1 s = None))
     (cond_run 0 (to_sleep 1 @ signal_once 2 @ to_sleep 3 @ [(GoOn, 3)]) new_cond) = Some (Sleeping, WakeEnter, Some 0, True)"
  "map_option (\<lambda>s. (place s 1, place s 3, sema s))
     (cond_run 0 (to_sleep 1 @ signal_once 2 @ signal_once 2 @ map (\<lambda>a. (a, 1)) [GoOn, GoOn, GoOn, GoOn, GoOn, GoOn, UnlockMutex] @ to_sleep 3 @ [(GoOn, 3)]) new_cond)
     = Some (Outside, WakeEnter, Some 0)"
  by (simp_all add: cond_eval)

end
