(* ===== verification/Game.thy ===== *)
theory Game
  imports Shooting
begin

text \<open>
  The properties of the game's handlers, each with an example on a small world: one connected
  player, one room, one user.
\<close>

section \<open>A small world\<close>

text \<open>Floating point numbers are integers here, a clock that ticks once per call.\<close>

definition sample_env :: "int env" where
  "sample_env = \<lparr>clk = (\<lambda>k. (1600000000, int k mod 1000000)), rnd = (\<lambda>k. int k), fresh = 40, fuel = 10, atof = atoi, show2 = dec_int\<rparr>"

definition sample_setting :: Setting where
  "sample_setting = \<lparr>vals = \<lparr>no_verify_account_timout = Some 60, no_game_timeout = Some 600, no_op_timeout = Some 900\<rparr>,
     systems = [], level_list = [], vip_level_list = [], fish = [\<lparr>fish_id = 1, fish_no = 4, fish_coin = 5\<rparr>], closeing = False\<rparr>"

text \<open>Player 0 with socket 5 and the user at address 9; \<open>r\<close> is the only room.\<close>

definition sample_player :: "int \<Rightarrow> int \<Rightarrow> Player" where
  "sample_player room seat = no_player\<lparr>p_socket := 5, p_uid := 7, p_room := room, p_seat := seat, p_hack := 1, p_user := Some 9\<rparr>"

definition sample_world :: "int \<Rightarrow> int \<Rightarrow> int Room \<Rightarrow> int World" where
  "sample_world room seat r = \<lparr>w_players = \<lparr>len = 1, players = sample_player room seat # replicate 1023 no_player\<rparr>,
     w_rooms = \<lparr>rooms = [r], max_room = 1, curr = 0\<rparr>, w_users = [9 \<mapsto> sample_user], w_setting = sample_setting,
     w_out = [], w_acts = [], w_exited = False\<rparr>"

lemma sample_player_at: "i < max_len \<Longrightarrow> player i (sample_world room seat r) = (if i = 0 then sample_player room seat else no_player)"
  by (cases i) (simp_all add: player_def sample_world_def)

lemma sample_views:
  "i < max_len \<Longrightarrow> room_no (sample_world room seat r) i = (if i = 0 then room else 0)"
  "i < max_len \<Longrightarrow> seat_no (sample_world room seat r) i = (if i = 0 then seat else 0)"
  "i < max_len \<Longrightarrow> joined (sample_world room seat r) i \<longleftrightarrow> i = 0"
  "i < max_len \<Longrightarrow> user_of (sample_world room seat r) i = (if i = 0 then Some 9 else None)"
  "there (sample_world room seat r) a \<longleftrightarrow> a = 9" "leaving (sample_world room seat r) = []"
  "n_rooms (sample_world room seat r) = 1" "seat_of (sample_world room seat r) 0 s = r_players r ! s"
  by (simp_all add: room_no_def seat_no_def joined_def user_of_def sample_player_at)
    (simp_all add: sample_player_def there_def leaving_def n_rooms_def seat_of_def sample_world_def)

lemma sample_players_ok: "players_ok (w_players (sample_world room seat r))"
proof -
  have u: "used (sample_player room seat # replicate 1023 no_player) = 1"
    by (simp add: used_def sample_player_def filter_empty_conv)
  have "player_ok i ((sample_player room seat # replicate 1023 no_player) ! i)" if "i < max_len" for i
    using that by (cases i) (simp_all add: player_ok_def sample_player_def, simp add: no_player_def)
  then show ?thesis by (simp add: players_ok_def sample_world_def u)
qed

text \<open>The player outside every room, and on the first seat of the room.\<close>

definition lobby :: "int World" where
  "lobby = sample_world 0 0 empty_room"

lemma lobby_ok: "world_ok lobby"
  unfolding lobby_def
proof (rule world_okI)
  show "rooms_ok (w_rooms (sample_world 0 0 empty_room))" by (simp add: rooms_ok_def sample_world_def)
  show "agree (room_no (sample_world 0 0 empty_room)) (seat_no (sample_world 0 0 empty_room)) (joined (sample_world 0 0 empty_room))
      (seat_of (sample_world 0 0 empty_room)) (n_rooms (sample_world 0 0 empty_room))"
    by (rule agreeI) (auto simp: sample_views less4)
  show "owned (user_of (sample_world 0 0 empty_room)) (there (sample_world 0 0 empty_room)) (leaving (sample_world 0 0 empty_room))"
    by (simp add: owned_def sample_views split: if_splits)
qed (rule sample_players_ok)

definition at_table :: "Fishs \<Rightarrow> int Bullets \<Rightarrow> int World" where
  "at_table fl bl = sample_world 1 1 \<lparr>r_fishs = Some fl, r_bullets = Some bl, r_players = [Some 0, None, None, None], r_create_time = 0\<rparr>"

lemma at_table_ok:
  assumes "fishs_ok fl" "bullets_ok bl"
  shows "world_ok (at_table fl bl)"
  unfolding at_table_def
proof (rule world_okI)
  let ?r = "\<lparr>r_fishs = Some fl, r_bullets = Some bl, r_players = [Some 0, None, None, None], r_create_time = 0\<rparr>"
  show "rooms_ok (w_rooms (sample_world 1 1 ?r))" using assms by (simp add: rooms_ok_def sample_world_def room_ok_def room_empty_def)
  show "agree (room_no (sample_world 1 1 ?r)) (seat_no (sample_world 1 1 ?r)) (joined (sample_world 1 1 ?r))
      (seat_of (sample_world 1 1 ?r)) (n_rooms (sample_world 1 1 ?r))"
    by (rule agreeI) (auto simp: sample_views less4 split: if_splits)
  show "owned (user_of (sample_world 1 1 ?r)) (there (sample_world 1 1 ?r)) (leaving (sample_world 1 1 ?r))"
    by (simp add: owned_def sample_views split: if_splits)
qed (rule sample_players_ok)

section \<open>Messages\<close>

text \<open>A message of keys and values.\<close>

definition msg :: "(string \<times> string) list \<Rightarrow> phead" where
  "msg kvs = Some (map (\<lambda>(k, v). JsonValue (Some k) (Some v) []) kvs)"

lemma entry_game:
  assumes "json_value js ''op'' = Inr (Some op)" "p_user (player i w) \<noteq> None"
  shows "op = ''in room'' \<Longrightarrow> entry e m cpu i js w = inRoom e i w"
    and "op = ''leave room'' \<Longrightarrow> p_room (player i w) > 0 \<Longrightarrow> entry e m cpu i js w = leaveRoom e i w"
    and "op = ''to shot'' \<Longrightarrow> p_room (player i w) > 0 \<Longrightarrow> entry e m cpu i js w = toShot e i js w"
    and "op = ''hit fish'' \<Longrightarrow> p_room (player i w) > 0 \<Longrightarrow> entry e m cpu i js w = hitFish e i js w"
  using assms by (auto simp: entry_def dispatch_def strcmp_eq_def in_room_only_def)

lemma sample_eval: "json_value (msg kvs) k = Inr (map_of kvs k)"
  by (induction kvs) (auto simp: msg_def json_value_def getJsonValue_def strcmp_eq_def rbind_def split: option.splits sum.splits)

section \<open>Properties\<close>

text \<open>
  C5: a connected player with a user who is in no room and asks for one gets the first free
  seat of the room the search stands on, while that room exists: every seat before it is taken,
  and room and seat are recorded on both sides. A room without fish gets its first fish and an
  empty list of bullets, a room that has them keeps them; the other rooms, the other players,
  the users, the threads to start and the settings stay as they are, the search goes on in the
  next room when the fourth seat was taken, and the invariant holds again. The names must leave
  room for the numbers in a buffer of 100 characters.
\<close>

theorem inRoom_seats:
  assumes "json_value js ''op'' = Inr (Some ''in room'')" "world_ok w" "env_ok e w" "i < max_len" "p_room (player i w) = 0" "joined w i"
    and "curr (w_rooms w) < max_room (w_rooms w)" "\<And>j. j < max_len \<Longrightarrow> name_fits (curr (w_rooms w) + 1) w j"
  shows "\<exists>w' seat. entry e m cpu i js w = Inr w' \<and> world_ok w' \<and> 1 \<le> seat \<and> seat \<le> 4 \<and>
    seat_of w (nat (curr (w_rooms w))) (nat (seat - 1)) = None \<and>
    (\<forall>k. 1 \<le> k \<and> k < seat \<longrightarrow> seat_of w (nat (curr (w_rooms w))) (nat (k - 1)) \<noteq> None) \<and> seat_given e i seat w (w_rooms w') \<and>
    player i w' = (player i w)\<lparr>p_room := curr (w_rooms w) + 1, p_seat := seat, p_game_time := now e\<rparr> \<and>
    (\<forall>j. j \<noteq> i \<longrightarrow> player j w' = player j w) \<and> w_users w' = w_users w \<and> w_acts w' = w_acts w \<and> w_setting w' = w_setting w"
proof -
  have "entry e m cpu i js w = inRoom e i w" by (rule entry_game(1) [OF assms(1)]) (use assms(6) in \<open>simp_all add: joined_def\<close>)
  then show ?thesis using inRoom_ok [OF assms(2-8)] by auto
qed

lemma inRoom_seats_witness:
  "\<exists>w' seat. entry sample_env mem0 ''0.00'' 0 (msg [(''op'', ''in room'')]) lobby = Inr w' \<and> world_ok w' \<and> p_room (player 0 w') = 1 \<and>
     1 \<le> p_seat (player 0 w')"
proof -
  have pl: "player 0 lobby = sample_player 0 0" by (simp add: lobby_def sample_player_at)
  have rm: "curr (w_rooms lobby) = 0" "max_room (w_rooms lobby) = 1" by (simp_all add: lobby_def sample_world_def)
  have "\<exists>w' seat. entry sample_env mem0 ''0.00'' 0 (msg [(''op'', ''in room'')]) lobby = Inr w' \<and> world_ok w' \<and> 1 \<le> seat \<and> seat \<le> 4 \<and>
    seat_of lobby (nat (curr (w_rooms lobby))) (nat (seat - 1)) = None \<and>
    (\<forall>k. 1 \<le> k \<and> k < seat \<longrightarrow> seat_of lobby (nat (curr (w_rooms lobby))) (nat (k - 1)) \<noteq> None) \<and>
    seat_given sample_env 0 seat lobby (w_rooms w') \<and>
    player 0 w' = (player 0 lobby)\<lparr>p_room := curr (w_rooms lobby) + 1, p_seat := seat, p_game_time := now sample_env\<rparr> \<and>
    (\<forall>j. j \<noteq> 0 \<longrightarrow> player j w' = player j lobby) \<and> w_users w' = w_users lobby \<and> w_acts w' = w_acts lobby \<and> w_setting w' = w_setting lobby"
  proof (rule inRoom_seats)
    show "env_ok sample_env lobby" by (simp add: env_ok_def sample_env_def mtime_def getmtime_def lobby_def sample_world_def sample_setting_def
        order.strict_trans2 [OF pos_mod_bound])
    show "name_fits (curr (w_rooms lobby) + 1) lobby j" if "j < max_len" for j
      using that by (simp add: name_fits_def user_at_def lobby_def sample_player_at sample_player_def)
        (simp add: sample_world_def sample_user_def show_str_def dec_int_def dec_nat.simps)
  qed (simp_all add: sample_eval lobby_ok pl rm joined_def sample_player_def)
  then show ?thesis by (elim exE conjE) (intro exI conjI, assumption+, simp_all add: rm)
qed

text \<open>
  C3: a shot in a room costs its player exactly one coin and appends one bullet of the player,
  with a number no other bullet of the room has, at the place and angle the message names;
  every player on a seat of the room is told, once, in the order of the seats. Nothing else
  changes hands and the invariant holds again.
\<close>

theorem toShot_costs_one:
  assumes "json_value js ''op'' = Inr (Some ''to shot'')" "world_ok w" "i < max_len" "p_room (player i w) \<noteq> 0"
    and "p_user (player i w) = Some a" "w_users w a = Some u" "0 < u_coin u"
    and "valueToInt js ''x'' = Inr x" "valueToInt js ''y'' = Inr y" "valueToFloat (atof e) js ''angle'' = Inr angle"
    and "r_bullets (room_of w i) = Some bl" "length (nl_items bl) \<le> fuel e" "length (nl_items bl) < 2147483645"
    and "fresh e \<notin> fst ` set (nl_items bl)" "in_i32 (p_uid (player i w))" "in_i32 (u_coin u)" "length (show2 e angle) \<le> 43"
  shows "\<exists>w' b bl'. entry e m cpu i js w = Inr w' \<and> world_ok w' \<and> w_users w' = (w_users w)(a \<mapsto> u\<lparr>u_coin := u_coin u - 1\<rparr>) \<and>
    r_bullets (room_of w' i) = Some bl' \<and> nl_items bl' = nl_items bl @ [(fresh e, b)] \<and>
    b_uid b = p_uid (player i w) \<and> b_x b = x \<and> b_y b = y \<and> b_angle b = angle \<and> b_lock b = 0 \<and> b_isdel b = 0 \<and>
    b_id b \<notin> (b_id \<circ> snd) ` set (nl_items bl) \<and>
    w_out w' = w_out w @ map (\<lambda>j. (p_socket (player j w), emsg 1 1 (bytes_of
      (to_shot_text (p_uid (player i w)) (p_seat (player i w)) (u_coin u - 1) x y (show2 e angle) (b_id b))))) (seated (r_players (room_of w i)) w)"
proof -
  have "p_room (player i w) > 0" using world_seat(2) [OF assms(2-4)] by simp
  then have "entry e m cpu i js w = toShot e i js w" using entry_game(3) [OF assms(1), of i w e m cpu] assms(5) by simp
  then show ?thesis using toShot_ok [OF assms(2-17)] by simp
qed

lemma toShot_costs_one_witness:
  "\<exists>w' (b :: int Bullet). entry sample_env mem0 ''0.00'' 0 (msg [(''op'', ''to shot''), (''x'', ''12''), (''y'', ''-7''), (''angle'', ''90'')]) (at_table one_fish bullets_init) =
      Inr w' \<and> world_ok w' \<and> w_users w' 9 = Some (sample_user\<lparr>u_coin := 29\<rparr>) \<and> b_uid b = 7 \<and> b_y b = - 7 \<and>
      w_out w' = [(5, emsg 1 1 (bytes_of (to_shot_text 7 1 29 12 (- 7) ''90'' (b_id b))))]"
proof -
  let ?w = "at_table one_fish bullets_init" and ?js = "msg [(''op'', ''to shot''), (''x'', ''12''), (''y'', ''-7''), (''angle'', ''90'')]"
  have pl: "player 0 ?w = sample_player 1 1" by (simp add: at_table_def sample_player_at)
  have sp: "p_room (sample_player 1 1) = 1" "p_user (sample_player 1 1) = Some 9" "p_uid (sample_player 1 1) = 7"
    "p_seat (sample_player 1 1) = 1" "p_socket (sample_player 1 1) = 5"
    by (simp_all add: sample_player_def)
  have ro: "r_bullets (room_of ?w 0) = Some bullets_init" "r_players (room_of ?w 0) = [Some 0, None, None, None]"
    unfolding room_of_def pl sp by (simp_all add: at_table_def sample_world_def)
  have us: "w_users ?w 9 = Some sample_user" "w_out ?w = []" by (simp_all add: at_table_def sample_world_def)
  have co: "u_coin sample_user = 30" by (simp add: sample_user_def)
  have js: "valueToInt ?js ''x'' = Inr 12" "valueToInt ?js ''y'' = Inr (- 7)" "valueToFloat (atof sample_env) ?js ''angle'' = Inr 90"
    by (simp_all add: valueToInt_def valueToFloat_def sample_eval sample_env_def atoi_def is_space_def digit_def digit_val_def saturate_def)
  have bi: "bullets_ok (bullets_init :: int Bullets)" "nl_items (bullets_init :: int Bullets) = []" using bullets_init_ok [where 'f = int] by simp_all
  have ok: "world_ok ?w" using at_table_ok [of one_fish bullets_init] one_fish_ok bi(1) by simp
  have sh: "show2 sample_env 90 = ''90''" by code_simp
  have "\<exists>w' b bl'. entry sample_env mem0 ''0.00'' 0 ?js ?w = Inr w' \<and> world_ok w' \<and>
    w_users w' = (w_users ?w)(9 \<mapsto> sample_user\<lparr>u_coin := u_coin sample_user - 1\<rparr>) \<and>
    r_bullets (room_of w' 0) = Some bl' \<and> nl_items bl' = nl_items (bullets_init :: int Bullets) @ [(fresh sample_env, b)] \<and>
    b_uid b = p_uid (player 0 ?w) \<and> b_x b = 12 \<and> b_y b = - 7 \<and> b_angle b = 90 \<and> b_lock b = 0 \<and> b_isdel b = 0 \<and>
    b_id b \<notin> (b_id \<circ> snd) ` set (nl_items (bullets_init :: int Bullets)) \<and>
    w_out w' = w_out ?w @ map (\<lambda>j. (p_socket (player j ?w), emsg 1 1 (bytes_of
      (to_shot_text (p_uid (player 0 ?w)) (p_seat (player 0 ?w)) (u_coin sample_user - 1) 12 (- 7) (show2 sample_env 90) (b_id b)))))
      (seated (r_players (room_of ?w 0)) ?w)"
    by (rule toShot_costs_one [OF _ ok _ _ _ us(1) _ js ro(1)]) (simp_all add: sample_eval pl sp co bi sh in_i32_def)
  then obtain w' and b :: "int Bullet" where r: "entry sample_env mem0 ''0.00'' 0 ?js ?w = Inr w'" "world_ok w'"
    "w_users w' = (w_users ?w)(9 \<mapsto> sample_user\<lparr>u_coin := u_coin sample_user - 1\<rparr>)"
    "b_uid b = p_uid (player 0 ?w)" "b_y b = - 7"
    "w_out w' = w_out ?w @ map (\<lambda>j. (p_socket (player j ?w), emsg 1 1 (bytes_of
      (to_shot_text (p_uid (player 0 ?w)) (p_seat (player 0 ?w)) (u_coin sample_user - 1) 12 (- 7) (show2 sample_env 90) (b_id b)))))
      (seated (r_players (room_of ?w 0)) ?w)" by (elim exE conjE) (rule that, assumption+)
  show ?thesis by (rule exI [of _ w'], rule exI [of _ b]) (simp add: r us pl sp co ro seated_def sh)
qed

text \<open>
  C4: a hit with a free bullet of the sender on a free fish of the room pays the fish's coins
  and counts the kill once: fish and bullet are marked as deleted, the sender alone is told,
  the invariant holds again, and the same message sent a second time is refused and changes
  nothing.
\<close>

theorem hitFish_pays_once:
  assumes "json_value js ''op'' = Inr (Some ''hit fish'')"
    and "world_ok w" "i < max_len" "p_room (player i w) \<noteq> 0" "p_user (player i w) = Some a" "w_users w a = Some u"
    and fl: "r_fishs (room_of w i) = Some fl" "nl_items fl = xs @ (fa, f) # ys" "f_lock f = 0" "f_isdel f = 0" "length (nl_items fl) \<le> fuel e"
    and bl: "r_bullets (room_of w i) = Some bl" "nl_items bl = us @ (ba, b) # vs" "b_uid b = p_uid (player i w)" "b_lock b = 0" "b_isdel b = 0"
      "length (nl_items bl) \<le> fuel e"
    and js: "valueToInt js ''bullet_id'' = Inr (b_id b)" "valueToInt js ''fish_id'' = Inr (f_id f)" "valueToInt js ''bx'' = Inr bx" "valueToInt js ''by'' = Inr by'"
      "valueToInt js ''fx'' = Inr fx" "valueToInt js ''fy'' = Inr fy" "valueToFloat (atof e) js ''fag'' = Inr fag"
    and t: "t = hit_fish_text (p_uid (player i w)) (u_coin (hit_user f u)) (b_id b) bx by' (f_id f) fx fy (show2 e fag) (f_type f)" "length t < 200"
  shows "\<exists>w' fl' bl'. entry e m cpu i js w = Inr w' \<and> world_ok w' \<and> w_users w' = (w_users w)(a \<mapsto> hit_user f u) \<and>
    r_fishs (room_of w' i) = Some fl' \<and> nl_items fl' = xs @ (fa, hit_mark f) # ys \<and>
    r_bullets (room_of w' i) = Some bl' \<and> nl_items bl' = us @ (ba, b\<lparr>b_isdel := 1\<rparr>) # vs \<and>
    w_out w' = w_out w @ [(p_socket (player i w), emsg 1 1 (bytes_of t))] \<and>
    hitFish e i js w' = Inr (sendmsg i ''{op:'hit fish', status:0, msg:'no valid!'}'' w')"
proof -
  have "p_room (player i w) > 0" using world_seat(2) [OF assms(2-4)] by simp
  then have "entry e m cpu i js w = hitFish e i js w" using entry_game(4) [OF assms(1), of i w e m cpu] assms(5) by simp
  then show ?thesis using hitFish_ok [OF assms(2-6) fl bl js t] by simp
qed

text \<open>A list of one bullet of player 7.\<close>

definition one_bullet :: "int Bullets" where
  "one_bullet = bullets_init\<lparr>heap := [21 \<mapsto> \<lparr>body = \<lparr>b_id = 3, b_uid = 7, b_x = 0, b_y = 0, b_angle = 45, b_create_time = 0, b_lock = 0, b_isdel = 0\<rparr>,
      prev = None, nxt = None\<rparr>], lhead := Some 21, lcurr := Some 21, llen := 1\<rparr>"

lemma one_bullet_ok:
  "bullets_ok one_bullet \<and>
   nl_items one_bullet = [(21, \<lparr>b_id = 3, b_uid = 7, b_x = 0, b_y = 0, b_angle = 45, b_create_time = 0, b_lock = 0, b_isdel = 0\<rparr>)]"
proof -
  have "nl_rep one_bullet [21]" by (simp add: nl_rep_def one_bullet_def bullets_init_def)
  from rep_ok [OF this] rep_items [OF this] show ?thesis by (simp add: bullets_ok_def one_bullet_def bullets_init_def)
qed

lemma hitFish_pays_once_witness:
  "\<exists>w'. entry sample_env mem0 ''0.00'' 0 (msg [(''op'', ''hit fish''), (''bullet_id'', ''3''), (''fish_id'', ''1''), (''bx'', ''5''), (''by'', ''6''),
      (''fx'', ''7''), (''fy'', ''8''), (''fag'', ''9'')]) (at_table one_fish one_bullet) = Inr w' \<and> world_ok w' \<and>
    (\<exists>u. w_users w' 9 = Some u \<and> u_coin u = 33)"
proof -
  let ?w = "at_table one_fish one_bullet"
  let ?js = "msg [(''op'', ''hit fish''), (''bullet_id'', ''3''), (''fish_id'', ''1''), (''bx'', ''5''), (''by'', ''6''), (''fx'', ''7''), (''fy'', ''8''), (''fag'', ''9'')]"
  let ?f = "new_fish (\<lambda>_. 7) 1 0 \<lparr>fish_id = 1, fish_no = 2, fish_coin = 3\<rparr>"
  let ?b = "\<lparr>b_id = 3, b_uid = 7, b_x = 0, b_y = 0, b_angle = 45, b_create_time = 0, b_lock = 0, b_isdel = 0\<rparr> :: int Bullet"
  let ?t = "hit_fish_text 7 33 3 5 6 1 7 8 ''9'' 7"
  have f: "f_id ?f = 1" "f_lock ?f = 0" "f_isdel ?f = 0" "f_type ?f = 7" "f_fish ?f = \<lparr>fish_id = 1, fish_no = 2, fish_coin = 3\<rparr>"
    by (simp_all add: new_fish_def Let_def my_random_def c_mod_nonneg)
  have co: "u_coin (hit_user ?f sample_user) = 33" by (simp add: hit_user_def f sample_user_def i32_id)
  have pl: "player 0 ?w = sample_player 1 1" by (simp add: at_table_def sample_player_at)
  have sp: "p_room (sample_player 1 1) = 1" "p_user (sample_player 1 1) = Some 9" "p_uid (sample_player 1 1) = 7"
    by (simp_all add: sample_player_def)
  have ro: "r_fishs (room_of ?w 0) = Some one_fish" "r_bullets (room_of ?w 0) = Some one_bullet"
    unfolding room_of_def pl sp by (simp_all add: at_table_def sample_world_def)
  have us: "w_users ?w 9 = Some sample_user" by (simp add: at_table_def sample_world_def)
  have js: "valueToInt ?js ''bullet_id'' = Inr 3" "valueToInt ?js ''fish_id'' = Inr 1" "valueToInt ?js ''bx'' = Inr 5" "valueToInt ?js ''by'' = Inr 6"
    "valueToInt ?js ''fx'' = Inr 7" "valueToInt ?js ''fy'' = Inr 8" "valueToFloat (atof sample_env) ?js ''fag'' = Inr 9"
    by (simp_all add: valueToInt_def valueToFloat_def sample_eval sample_env_def atoi_def is_space_def digit_def digit_val_def saturate_def)
  have sh: "show2 sample_env 9 = ''9''" by code_simp
  have ok: "world_ok ?w" using at_table_ok one_fish_ok one_bullet_ok by blast
  have len: "length ?t < 200" by code_simp
  have "\<exists>w' fl' bl'. entry sample_env mem0 ''0.00'' 0 ?js ?w = Inr w' \<and> world_ok w' \<and> w_users w' = (w_users ?w)(9 \<mapsto> hit_user ?f sample_user) \<and>
    r_fishs (room_of w' 0) = Some fl' \<and> nl_items fl' = [] @ (11, hit_mark ?f) # [] \<and>
    r_bullets (room_of w' 0) = Some bl' \<and> nl_items bl' = [] @ (21, ?b\<lparr>b_isdel := 1\<rparr>) # [] \<and>
    w_out w' = w_out ?w @ [(p_socket (player 0 ?w), emsg 1 1 (bytes_of ?t))] \<and>
    hitFish sample_env 0 ?js w' = Inr (sendmsg 0 ''{op:'hit fish', status:0, msg:'no valid!'}'' w')"
    by (rule hitFish_pays_once [where bx = 5 and by' = 6 and fx = 7 and fy = 8 and fag = 9, OF _ ok _ _ _ us ro(1) _ _ _ _ ro(2)])
      (simp_all add: sample_eval js pl sp f co sh len one_fish_ok one_bullet_ok, simp_all add: sample_env_def)
  then show ?thesis using co by (elim exE conjE) (intro exI conjI, assumption+, simp_all)
qed

end
