(* ===== verification/Claims.thy ===== *)
theory Claims
  imports Steps Game "HOL-Library.Sublist"
begin

text \<open>
  The properties of the running server: its invariant and its contract of seats, the loop over
  the connections, the handshake, the sweep of the bullets, and where the invariant ends.
\<close>

section \<open>The server runs\<close>

text \<open>A Redis server that knows nothing and a MySQL server that has no rows.\<close>

definition empty_redis :: "unit redis_lib" where
  "empty_redis = \<lparr>redis_exec = (\<lambda>_ r. (None, r))\<rparr>"

definition sample_server :: "int World \<Rightarrow> (int, unit, unit) Server" where
  "sample_server w = \<lparr>world = w, db = mysql_new () 0, redis = ()\<rparr>"

lemma sample_accept:
  "\<exists>s. calm_step (hundred_lib Inr) empty_redis (sample_server (server_start 4 sample_setting)) s \<and> (\<exists>i < max_len. p_socket (player i (world s)) = 5)"
proof -
  let ?w = "server_start 4 sample_setting :: int World" and ?s = "sample_server (server_start 4 sample_setting)"
  have u: "used (players players_start) \<noteq> max_len"
    by (simp add: players_start_def players_init_def used_def)
  have l: "length (players players_start) = max_len" by (simp add: players_start_def players_init_def)
  obtain i ps where a: "players_add 5 77 1600000000 players_start = Inr (True, ps)" "i < max_len"
    "players ps = (players players_start)[i := no_player\<lparr>p_index := int i, p_socket := 5, p_ip := 77, p_in_time := 1600000000\<rparr>]"
    using players_add_spec [OF players_start_ok, of 5 77 1600000000] u by auto
  have k: "length (ip_key 77) < 32" "length (ip_record 1600000000 1600000000 1) < 128"
    using len11 [of 77] len11 [of 1600000000] len11 [of 1] by (simp_all add: ip_key_def ip_record_def in_i32_def i32_id)
  have p: "w_players ?w = players_start" by (simp add: server_start_def)
  have "onconnect empty_redis NUL 1600000000 5 77 (world ?s, redis ?s) = Inr (?w\<lparr>w_players := ps\<rparr>, ())"
    using k a(1) by (simp add: onconnect_def sprintf_buf_def redis_get_def empty_redis_def ip_counted_def sample_server_def p)
  then have "step (hundred_lib Inr) empty_redis Accept ?s (?s\<lparr>world := ?w\<lparr>w_players := ps\<rparr>, redis := ()\<rparr>)" by (intro step.accept) simp_all
  then have "calm_step (hundred_lib Inr) empty_redis ?s (?s\<lparr>world := ?w\<lparr>w_players := ps\<rparr>, redis := ()\<rparr>)"
    unfolding calm_step_def by (intro exI [of _ Accept]) simp
  moreover have "p_socket (player i (?w\<lparr>w_players := ps\<rparr>)) = 5" using a(2) l by (simp add: player_def a(3))
  ultimately show ?thesis using a(2) by fastforce
qed

lemma calm_any: "(calm_step ml rl)\<^sup>*\<^sup>* s s' \<Longrightarrow> (any_step ml rl)\<^sup>*\<^sup>* s s'"
  by (erule rtranclp_mono [THEN predicate2D, rotated]) (auto simp: calm_step_def any_step_def)

text \<open>
  C1: a server started with any settings keeps its invariant, whatever messages arrive, whatever
  the databases answer and however the threads take turns, while its operations return (one that
  faults ends the run) and as long as two things do not happen:
  that an administrator's order to kick somebody or to stop the server is carried out, and that a
  connection verifies again the account it is logged in with and has itself put off line. The
  invariant says that the table of players counts the connections, rooms and players agree on who
  sits where, a room has fish and bullets exactly while it is occupied, and a connected player's
  user is there and no thread is about to free it. In a run that ends outside of the invariant one
  of the two has happened, and up to then the invariant held; nothing else can break it.
\<close>

theorem server_invariant:
  assumes "world s0 = server_start n st" "(any_step ml rl)\<^sup>*\<^sup>* s0 s"
  shows "((calm_step ml rl)\<^sup>*\<^sup>* s0 s \<longrightarrow> world_ok (world s) \<and> (\<forall>i < max_len. \<forall>a. p_user (player i (world s)) = Some a \<longrightarrow>
      w_users (world s) a \<noteq> None \<and> StartUserLeave a \<notin> set (w_acts (world s)))) \<and>
    (\<not> world_ok (world s) \<longrightarrow> (\<exists>s1 ev s2. (calm_step ml rl)\<^sup>*\<^sup>* s0 s1 \<and> world_ok (world s1) \<and>
      step ml rl ev s1 s2 \<and> \<not> orderly ml ev s1 \<and> (any_step ml rl)\<^sup>*\<^sup>* s2 s))"
proof -
  have start: "world_ok (world s0)" unfolding assms(1) by (rule server_start_ok)
  have ok: "world_ok (world t)" if "(calm_step ml rl)\<^sup>*\<^sup>* s0 t" for t using server.runs [OF start that] by blast
  have "w_users (world s) a \<noteq> None \<and> StartUserLeave a \<notin> set (w_acts (world s))"
    if "(calm_step ml rl)\<^sup>*\<^sup>* s0 s" "i < max_len" "p_user (player i (world s)) = Some a" for i a
  proof -
    have "there (world s) a \<and> a \<notin> set (leaving (world s))"
      using owned_user [OF world_parts(4) [OF ok [OF that(1)]] that(2)] that(3) by (simp add: user_of_def)
    then show ?thesis using users_leaving_mem [of a "w_acts (world s)"] by (auto simp: there_def leaving_eq)
  qed
  then show ?thesis using ok runs_calm_or_not [OF assms(2)] by blast
qed

lemma server_invariant_witness:
  "\<exists>s. (calm_step (hundred_lib Inr) empty_redis)\<^sup>*\<^sup>* (sample_server (server_start 4 sample_setting)) s \<and>
    (\<exists>i < max_len. p_socket (player i (world s)) = 5) \<and> world_ok (world s)"
proof -
  let ?s = "sample_server (server_start 4 sample_setting)"
  obtain s where s: "(calm_step (hundred_lib Inr) empty_redis)\<^sup>*\<^sup>* ?s s" "\<exists>i < max_len. p_socket (player i (world s)) = 5"
    using sample_accept by blast
  have "world ?s = server_start 4 sample_setting" by (simp add: sample_server_def)
  from server_invariant [OF this calm_any [OF s(1)]] s show ?thesis by blast
qed

text \<open>
  C2: seen as who sits where, every run of the server without these two kinds of event (no order
  of an administrator to kick or to stop is carried out, no connection puts itself off line by
  verifying its own account again) is a run of the seating machine from the empty seating: a player
  only ever takes a seat that nobody has, or gives the own seat up. So no two players share a
  seat, and every seat taken is one of the four of an existing room.
\<close>

theorem server_refines_seating:
  assumes "(calm_step ml rl)\<^sup>*\<^sup>* s0 s" "world s0 = server_start n st"
  shows "(seat_step (n_rooms (world s0)))\<^sup>*\<^sup>* (\<lambda>_. None) (seating_of (world s)) \<and> seating_ok (n_rooms (world s0)) (seating_of (world s))"
proof -
  have ok: "world_ok (world s0)" unfolding assms(2) by (rule server_start_ok)
  have "seating_of (world s0) = (\<lambda>_. None)"
    by (simp add: fun_eq_iff seating_of_def assms(2) player_def server_start_def players_start_def players_init_def)
  then show ?thesis using server.runs [OF ok assms(1)] by simp
qed

lemma server_refines_seating_witness:
  "\<exists>s. calm_step (hundred_lib Inr) empty_redis (sample_server (server_start 4 sample_setting)) s \<and> (seat_step 4)\<^sup>*\<^sup>* (\<lambda>_. None) (seating_of (world s))"
proof -
  let ?s = "sample_server (server_start 4 sample_setting)"
  obtain s where s: "calm_step (hundred_lib Inr) empty_redis ?s s" using sample_accept by blast
  have "n_rooms (world ?s) = 4" by (simp add: n_rooms_def sample_server_def server_start_def rooms_start_def setRooms_def)
  then show ?thesis using server_refines_seating [of "hundred_lib Inr" empty_redis ?s s 4 sample_setting] s
    by (auto simp: sample_server_def)
qed

section \<open>Seats run out\<close>

text \<open>
  C29: a search answers the first free seat of the room it stands on, which is where the search
  goes on next time unless the fourth seat was taken; it never comes back to a room it has
  left, and once it has left the last room it reads behind the array of rooms, even when every
  room is empty.
\<close>

theorem findRoom_runs_out:
  assumes "rooms_ok w"
  shows "(findRoom w = Inl OutOfBounds \<longleftrightarrow> curr w = max_room w) \<and>
    (\<forall>room seat w'. findRoom w = Inr (room, seat, w') \<longrightarrow> room = curr w + 1 \<and> 1 \<le> seat \<and> seat \<le> 4 \<and>
      r_players (rooms w ! nat (curr w)) ! nat (seat - 1) = None \<and> (\<forall>k. 1 \<le> k \<and> k < seat \<longrightarrow> r_players (rooms w ! nat (curr w)) ! nat (k - 1) \<noteq> None) \<and>
      curr w' = (if seat = 4 then curr w + 1 else curr w))"
proof (cases "curr w = max_room w")
  case True
  then show ?thesis using findRoom_past_end [OF assms] by simp
next
  case False
  then have lt: "curr w < max_room w" using assms by (simp add: rooms_ok_def)
  obtain j where j: "findRoom w = Inr (curr w + 1, int j + 1, w\<lparr>curr := (if j = 3 then curr w + 1 else curr w)\<rparr>)" "j < 4"
    "r_players (rooms w ! nat (curr w)) ! j = None" "\<forall>k < j. r_players (rooms w ! nat (curr w)) ! k \<noteq> None"
    using findRoom_seat [OF assms lt] by blast
  have "r_players (rooms w ! nat (curr w)) ! nat (k - 1) \<noteq> None" if "1 \<le> k" "k < int j + 1" for k
    using j(4) that by simp
  then show ?thesis using j lt by auto
qed

text \<open>One room, left by all four players who have been in it.\<close>

definition used_up :: "int Rooms" where
  "used_up = \<lparr>rooms = [empty_room], max_room = 1, curr = 1\<rparr>"

lemma findRoom_runs_out_witness: "findRoom used_up = Inl OutOfBounds \<and> room_empty (rooms used_up ! 0)"
  using findRoom_runs_out [of used_up] by (simp add: used_up_def rooms_ok_def)

section \<open>The bullets' thread\<close>

lemma survivors_mem: "(a, b) \<in> set (survivors dead k ys) \<Longrightarrow> \<exists>i. \<not> dead i b"
  by (induction ys arbitrary: k) (auto split: if_splits)

lemma survivors_keep: "(a, b) \<in> set ys \<Longrightarrow> (\<And>i. \<not> dead i b) \<Longrightarrow> (a, b) \<in> set (survivors dead k ys)"
  by (induction ys arbitrary: k) (auto split: if_splits)

lemma survivors_sub: "subseq (survivors dead k ys) ys"
  by (induction dead k ys rule: survivors.induct) auto

text \<open>
  C26: a turn of the bullets' thread for a room ends and leaves every bullet that is locked or
  young and not deleted; every unlocked bullet marked as deleted, and every unlocked bullet
  older than ten seconds, is gone after it, and the others keep their order.
\<close>

theorem bullet_expires:
  assumes "world_ok w" "good e w" "k < n_rooms w" "r_bullets (rooms (w_rooms w) ! k) = Some l"
  shows "\<exists>w' l'. bullet_room e k w = Inr w' \<and> world_ok w' \<and> r_bullets (rooms (w_rooms w') ! k) = Some l' \<and> subseq (nl_items l') (nl_items l) \<and>
    (\<forall>(a, b) \<in> set (nl_items l). b_lock b = 0 \<and> (b_isdel b \<noteq> 0 \<or> (\<forall>j. mtime j e - b_create_time b > 10000000)) \<longrightarrow> (a, b) \<notin> set (nl_items l')) \<and>
    (\<forall>(a, b) \<in> set (nl_items l). b_lock b \<noteq> 0 \<or> b_isdel b = 0 \<and> (\<forall>j. mtime j e - b_create_time b \<le> 10000000) \<longrightarrow> (a, b) \<in> set (nl_items l'))"
proof -
  let ?r = "rooms (w_rooms w) ! k"
  have "bullets_ok l" using world_room(1) [OF assms(1,3)] assms(4) by (auto simp: room_ok_def)
  then obtain l' where l': "sweep_bullets e l = Inr l'" "bullets_ok l'" "nl_items l' = survivors (bullet_dead e) 0 (nl_items l)"
    using sweep_bullets_ok good_room(2) [OF assms(2-4)] by blast
  let ?w = "set_room (int k) (?r\<lparr>r_bullets := Some l'\<rparr>) w"
  have e: "bullet_room e k w = Inr ?w" using assms(4) l'(1) by (simp add: bullet_room_def room_at_nth [OF assms(3)])
  have ok: "world_ok ?w" using bullet_room_keeps [OF assms(1-3) e] by (rule keeps_ok)
  have b: "r_bullets (rooms (w_rooms ?w) ! k) = Some l'" using assms(3) by (simp add: put_room_nth n_rooms_def)
  have gone: "(a, b) \<notin> set (nl_items l')" if "b_lock b = 0" "b_isdel b \<noteq> 0 \<or> (\<forall>j. mtime j e - b_create_time b > 10000000)" for a b
    using survivors_mem [of a b "bullet_dead e" 0 "nl_items l"] that unfolding l'(3) by (auto simp: bullet_dead_def)
  have stay: "(a, b) \<in> set (nl_items l')" if "(a, b) \<in> set (nl_items l)" "b_lock b \<noteq> 0 \<or> b_isdel b = 0 \<and> (\<forall>j. mtime j e - b_create_time b \<le> 10000000)" for a b
    unfolding l'(3) by (rule survivors_keep [OF that(1)]) (use that(2) in \<open>auto simp: bullet_dead_def not_less\<close>)
  have "subseq (nl_items l') (nl_items l)" unfolding l'(3) by (rule survivors_sub)
  then show ?thesis using e ok b gone stay by (intro exI [of _ ?w] exI [of _ l']) auto
qed

text \<open>A bullet of long ago expires.\<close>

lemma sample_good: "good sample_env (at_table one_fish one_bullet)"
  by (auto simp: good_def room_good_def list_good_def n_rooms_def at_table_def sample_world_def sample_env_def one_fish_ok one_bullet_ok)

lemma bullet_expires_witness:
  "\<exists>w' l'. bullet_room sample_env 0 (at_table one_fish one_bullet) = Inr w' \<and> r_bullets (rooms (w_rooms w') ! 0) = Some l' \<and> nl_items l' = []"
proof -
  let ?w = "at_table one_fish one_bullet"
  have ok: "world_ok ?w" using at_table_ok one_fish_ok one_bullet_ok by blast
  have r: "0 < n_rooms ?w" "r_bullets (rooms (w_rooms ?w) ! 0) = Some one_bullet"
    by (simp_all add: n_rooms_def at_table_def sample_world_def)
  obtain w' l' where e: "bullet_room sample_env 0 ?w = Inr w'" "r_bullets (rooms (w_rooms w') ! 0) = Some l'"
    and s: "subseq (nl_items l') (nl_items one_bullet)"
    and g: "\<forall>(a, b) \<in> set (nl_items one_bullet). b_lock b = 0 \<and> (b_isdel b \<noteq> 0 \<or> (\<forall>j. mtime j sample_env - b_create_time b > 10000000)) \<longrightarrow>
      (a, b) \<notin> set (nl_items l')"
    using bullet_expires [OF ok sample_good r] by blast
  have late: "mtime j sample_env > 10000000" for j
    using pos_mod_sign [of 1000000 "int j"] by (simp add: mtime_def getmtime_def sample_env_def)
  let ?b = "\<lparr>b_id = 3, b_uid = 7, b_x = 0, b_y = 0, b_angle = 45, b_create_time = 0, b_lock = 0, b_isdel = 0\<rparr> :: int Bullet"
  have it: "nl_items one_bullet = [(21, ?b)]" using one_bullet_ok by blast
  have "(21, ?b) \<notin> set (nl_items l')" using g late unfolding it by simp
  moreover have "x = (21, ?b)" if "x \<in> set (nl_items l')" for x
    using list_emb_set [OF s that] unfolding it by auto
  ultimately have "x \<notin> set (nl_items l')" for x by blast
  then have "set (nl_items l') = {}" by (intro equals0I) simp
  then show ?thesis using e by simp
qed

section \<open>Where the invariant ends\<close>

lemma kick_first_found:
  assumes "i < length ps" "p_socket (ps ! i) = sk" "\<forall>k < i. p_socket (ps ! k) \<noteq> sk"
  shows "kick_first e j sk ps w = rbind (world_leave_copy e (ps ! i) w) (\<lambda>(p', w1).
        Inr (sendmsg j ''{'op':'kick user', 'status':1, 'msg':'ok!'}'' (world_remove_copy p' w1)))"
  using assms
proof (induction ps arbitrary: i)
  case (Cons p ps)
  show ?case
  proof (cases i)
    case (Suc k)
    have "\<forall>n < k. p_socket (ps ! n) \<noteq> sk" using Cons.prems(3) Suc by auto
    moreover have "p_socket p \<noteq> sk" using Cons.prems(3) Suc by auto
    ultimately show ?thesis using Cons Suc by simp
  qed (use Cons in simp)
qed simp

text \<open>
  C27: an administrator who kicks a logged-in player closes the socket and starts the thread
  that saves and frees the user, but the record stays in the table with the same user: the
  invariant no longer holds, and when the server notices the closed socket it starts a second
  thread for the same user, which then uses it after it has been freed.
\<close>

theorem kickUser_frees_twice:
  assumes "world_ok w" "fits e w" "i < max_len" "j < max_len" "valueToInt js ''socket_id'' = Inr (p_socket (player j w))"
    and "0 < p_socket (player j w)" "p_socket (player i w) \<noteq> p_socket (player j w)" "\<forall>k < j. p_socket (player k w) \<noteq> p_socket (player j w)"
    and "p_user (player j w) = Some a"
  shows "\<exists>w'. kickUser e i js w = Inr w' \<and> player j w' = player j w \<and> \<not> world_ok w' \<and>
    w_acts (world_remove j w') = w_acts w @ concat (replicate 2 [CloseSocket (p_socket (player j w)), StartUserLeave a]) \<and>
    (\<forall>lib t m w1 m1. userLeave lib t a (world_remove j w') m = Inr (w1, m1) \<longrightarrow> userLeave lib t a w1 m1 = Inl UseAfterFree)"
proof -
  note p = world_parts [OF assms(1)]
  let ?p = "player j w" and ?sk = "p_socket (player j w)"
  have ok: "player_ok j ?p" using players_ok_at [OF p(1) assms(4)] by (simp add: player_def)
  then have cl: "p_closeing ?p = 0" by (simp add: player_ok_def)
  obtain w1 where wl: "world_leave e j w = Inr w1" using world_leave_ok [OF assms(1,2,4)] by blast
  then obtain q rs where rl: "rooms_leave (fuel e) ?p (w_rooms w) = Inr (q, rs)" by (auto simp: world_leave_def rbind_eq_Inr)
  have q: "p_socket q = ?sk" "p_user q = Some a" "p_closeing q = 0" "p_uid q = p_uid ?p"
    using rl assms(9) cl by (auto simp: rooms_leave_def rbind_eq_Inr Let_def split: if_splits)
  define w2 where "w2 = world_remove_copy q (w\<lparr>w_rooms := rs\<rparr>)"
  have a2: "w_acts w2 = w_acts w @ [CloseSocket ?sk, StartUserLeave a]" "players (w_players w2) = players (w_players w)"
    using q assms(6) by (simp_all add: w2_def world_remove_copy_def players_remove_copy_def remove_player_def)
  define w' where "w' = sendmsg i ''{'op':'kick user', 'status':1, 'msg':'ok!'}'' w2"
  have "kick_first e i ?sk (players (w_players w)) w = Inr w'"
    using kick_first_found [of j "players (w_players w)" ?sk e i w] assms(4,8) p(5) rl
    by (simp add: player_def world_leave_copy_def w'_def w2_def)
  then have e: "kickUser e i js w = Inr w'"
    using assms(5-7) by (simp add: kickUser_def)
  have pl: "player j w' = ?p" by (simp add: w'_def player_def a2(2))
  have ac: "w_acts w' = w_acts w @ [CloseSocket ?sk, StartUserLeave a]" by (simp add: w'_def a2(1))
  have "\<not> world_ok w'"
  proof
    assume "world_ok w'"
    then have "a \<notin> set (leaving w')" using owned_user [OF world_parts(4) assms(4), of w' a] pl assms(9) by (simp add: user_of_def)
    then show False by (simp add: leaving_eq users_leaving_def ac)
  qed
  moreover have "w_acts (world_remove j w') = w_acts w @ concat (replicate 2 [CloseSocket ?sk, StartUserLeave a])"
    using pl cl assms(6,9) by (simp add: world_remove_def players_remove_def remove_player_def player_def ac numeral_2_eq_2)
  moreover have "userLeave lib t a w1 m1 = Inl UseAfterFree" if "userLeave lib t a (world_remove j w') m = Inr (w1, m1)"
    for lib :: "'b mysql_lib" and t m w1 m1
    using that by (auto simp: userLeave_def user_at_def rbind_eq_Inr)
  ultimately show ?thesis using e pl by blast
qed

text \<open>
  The other kind of event that is not orderly: a verification that finds its own record clears it
  and then stores the new user into the record without a socket. The invariant never survives it.
\<close>

lemma self_kick_breaks:
  assumes "world_ok w" "i < max_len" "self_kick lib u0 i w m" "thread_verify lib e u0 i w m = Inr (w', m')"
  shows "p_socket (player i w') = 0 \<and> p_user (player i w') = Some (fresh e) \<and> \<not> world_ok w'"
proof -
  note p = world_parts [OF assms(1)]
  obtain key uid u m1 where k: "p_tmp (player i w) = Some key" "CHR 0x22 \<notin> set key" "APOS \<notin> set key" "checkSignKey lib key u0 m = Inr (uid, u, m1)"
    "0 < uid" "find_uid uid 0 (players (w_players w)) = Some i" "p_kick (player i w) \<noteq> 0"
    using assms(3) by (auto simp: self_kick_def split: option.splits sum.splits)
  have "p_save_uid (players (w_players w) ! j) = 0" if "j < max_len" for j
    using players_ok_at [OF p(1) that] by (simp add: player_ok_def)
  then have "p_save_uid q \<noteq> uid" if "q \<in> set (players (w_players w))" for q
    using that k(5) p(5) by (auto simp: in_set_conv_nth)
  then have sv: "\<not> list_ex (\<lambda>q. p_save_uid q = uid) (players (w_players w))" by (auto simp: list_ex_iff)
  obtain b w1 where o: "kick_other e uid w = Inr (b, w1)"
    "(if b then log_in lib e i uid u w1 m1 else Inr (sendmsg i ''{'op':'verify account', 'status':-2}'' w1, m1)) = Inr (w', m')"
    using assms(4) k(1-5) sv by (auto simp: thread_verify_def rbind_eq_Inr simp del: if_split split: if_split_asm)
  note ko = kick_other_keeps [OF assms(1) o(1)]
  have b: b and pl: "player i w1 = no_player" and k1: "world_ok w1" using ko k(6,7) keeps_ok by auto
  obtain u1 s where w': "w' = sendmsg i s ((set_player i (\<lambda>p. p\<lparr>p_uid := uid, p_user := Some (fresh e)\<rparr>) w1)\<lparr>w_users := (w_users w1)(fresh e \<mapsto> u1)\<rparr>)"
    using o(2) b by (auto simp: log_in_def rbind_eq_Inr)
  have q: "player i w' = no_player\<lparr>p_uid := uid, p_user := Some (fresh e)\<rparr>"
    using pl assms(2) world_parts(5) [OF k1] by (simp add: w' player_def set_player_def)
  have "\<not> world_ok w'"
  proof
    assume "world_ok w'"
    then have "player_ok i (player i w')" using players_ok_at [OF world_parts(1) assms(2)] by (simp add: player_def)
    then show False using q by (simp add: player_ok_def no_player_def)
  qed
  then show ?thesis using q by simp
qed

text \<open>The player at the table, and an administrator connected at position 1.\<close>

definition two_players :: "int World" where
  "two_players = (at_table one_fish one_bullet)\<lparr>w_players := \<lparr>len = 2,
     players = (sample_player 1 1 # replicate 1023 no_player)[1 := no_player\<lparr>p_index := 1, p_socket := 6, p_ip := 78, p_in_time := 5\<rparr>]\<rparr>\<rparr>"

lemma two_players_ok:
  "world_ok two_players" "player 0 two_players = sample_player 1 1" "p_socket (player 1 two_players) = 6" "fits sample_env two_players"
proof -
  let ?w = "at_table one_fish one_bullet"
  have w: "w_players ?w = \<lparr>len = 1, players = sample_player 1 1 # replicate 1023 no_player\<rparr>" by (simp add: at_table_def sample_world_def)
  have s: "p_socket (sample_player 1 1) = 5" by (simp add: sample_player_def)
  have "find_socket (sample_player 1 1 # replicate 1023 no_player) 0 0 1024 = Inr (Some 1)"
    by (subst find_socket.simps, simp add: s, subst find_socket.simps, simp)
  then have "players_add 6 78 5 (w_players ?w) = Inr (True, w_players two_players)"
    by (simp add: players_add_def w two_players_def put_player_def u32_id)
  from players_add_keeps [OF _ _ this] have "keeps ?w (?w\<lparr>w_players := w_players two_players\<rparr>)"
    using at_table_ok one_fish_ok one_bullet_ok by simp
  then show "world_ok two_players" using keeps_ok by (simp add: two_players_def)
  show "player 0 two_players = sample_player 1 1" "p_socket (player 1 two_players) = 6"
    by (simp_all add: player_def two_players_def)
  show "fits sample_env two_players"
    by (simp add: fits_def n_rooms_def two_players_def at_table_def sample_world_def room_fits_def one_fish_ok one_bullet_ok sample_env_def)
qed

lemma kickUser_frees_twice_witness:
  "\<exists>w'. kickUser sample_env 1 (msg [(''socket_id'', ''5'')]) two_players = Inr w' \<and> player 0 w' = sample_player 1 1 \<and> \<not> world_ok w'"
proof -
  have "valueToInt (msg [(''socket_id'', ''5'')]) ''socket_id'' = Inr (p_socket (player 0 two_players))"
    by (simp add: two_players_ok(2) sample_player_def valueToInt_def sample_eval atoi_def is_space_def digit_def digit_val_def saturate_def)
  then show ?thesis
    using kickUser_frees_twice [OF two_players_ok(1,4), of 1 0 "msg [(''socket_id'', ''5'')]" 9] two_players_ok(2,3)
    by (auto simp: sample_player_def)
qed

section \<open>The loop over the connections\<close>

lemma good_fits: "good e w \<Longrightarrow> fits e w"
  using good_room [of e w] by (auto simp: fits_def room_fits_def split: option.splits)

lemma onclose_ends:
  assumes "world_ok w" "good e w" "i < max_len"
  shows "\<exists>w'. onclose e i w = Inr w' \<and> world_ok w' \<and> good e w' \<and> player i w' = no_player \<and> (\<forall>j. j \<noteq> i \<longrightarrow> player j w' = player j w)"
proof -
  obtain w1 where l: "world_leave e i w = Inr w1" "world_ok w1" "p_room (player i w1) = 0" "\<forall>j. j \<noteq> i \<longrightarrow> player j w1 = player j w"
    using world_leave_ok [OF assms(1) good_fits [OF assms(2)] assms(3)] by blast
  have e: "onclose e i w = Inr (world_remove i w1)" using l(1) by (simp add: onclose_def)
  show ?thesis using e l(4) world_remove_ok [OF l(2) assms(3) l(3)] onclose_good [OF assms(2) e] by simp
qed

lemma serve_bad_closes:
  "world_ok w \<Longrightarrow> good e w \<Longrightarrow> set is \<subseteq> {..<max_len} \<Longrightarrow>
   \<exists>w'. serve e handler recv fds True is w = Inr w' \<and> world_ok w' \<and>
     (\<forall>j. player j w' = (if j \<in> set is \<and> p_socket (player j w) \<noteq> 0 \<and> p_socket (player j w) \<in> set fds then no_player else player j w))"
proof (induction "is" arbitrary: w)
  case (Cons i "is")
  have i: "i < max_len" "set is \<subseteq> {..<max_len}" using Cons.prems(3) by auto
  show ?case
  proof (cases "p_socket (player i w) = 0 \<or> p_socket (player i w) \<notin> set fds")
    case True
    then show ?thesis using Cons.IH [OF Cons.prems(1,2) i(2)] by (auto simp: Let_def)
  next
    case False
    obtain w1 where c: "onclose e i w = Inr w1" "world_ok w1" "good e w1" "player i w1 = no_player" "\<forall>j. j \<noteq> i \<longrightarrow> player j w1 = player j w"
      using onclose_ends [OF Cons.prems(1,2) i(1)] by blast
    have pl: "player j w1 = (if j = i then no_player else player j w)" for j using c(4,5) by simp
    show ?thesis using Cons.IH [OF c(2,3) i(2)] c(1) False by (auto simp: Let_def pl)
  qed
qed simp

text \<open>
  C28: when a player's socket has been closed by the other side, \<open>recv\<close> answers 0, and the same
  variable makes the loop take every later player of the pass that is ready to be read for
  closed as well: their messages are not read, they are thrown out of their rooms and
  disconnected, whatever the handler of messages would have done.
\<close>

theorem closed_peer_drops_ready:
  assumes "world_ok w" "good e w" "set (i # is) \<subseteq> {..<max_len}" "i \<notin> set is"
    and "p_socket (player i w) \<noteq> 0" "p_socket (player i w) \<in> set fds" "rx_ret (recv (p_socket (player i w))) = 0"
  shows "\<exists>w'. serve e handler recv fds False (i # is) w = Inr w' \<and> world_ok w' \<and>
    (\<forall>j. player j w' = (if j = i \<or> j \<in> set is \<and> p_socket (player j w) \<noteq> 0 \<and> p_socket (player j w) \<in> set fds then no_player else player j w))"
proof -
  have i: "i < max_len" "set is \<subseteq> {..<max_len}" using assms(3) by auto
  obtain w1 where c: "onclose e i w = Inr w1" "world_ok w1" "good e w1" "player i w1 = no_player" "\<forall>j. j \<noteq> i \<longrightarrow> player j w1 = player j w"
    using onclose_ends [OF assms(1,2) i(1)] by blast
  have pl: "player j w1 = (if j = i then no_player else player j w)" for j using c(4,5) by simp
  show ?thesis using serve_bad_closes [OF c(2,3) i(2), of handler recv fds] assms(4-7) c(1) by (auto simp: Let_def bad_ret_def pl)
qed

lemma closed_peer_drops_ready_witness:
  "\<exists>w'. serve sample_env (\<lambda>w _ _. Inr w) (\<lambda>_. \<lparr>rx_ret = 0, rx_reset = False, rx_buf = [], rx_more = False\<rparr>) [5, 6] False [0, 1] two_players = Inr w' \<and>
     player 0 w' = no_player \<and> player 1 w' = no_player"
proof -
  have g: "good sample_env two_players" using sample_good by (simp add: good_def n_rooms_def two_players_def)
  have "set [0, 1] \<subseteq> {..<max_len}" by simp
  from closed_peer_drops_ready [OF two_players_ok(1) g this, of "[5, 6]" "\<lambda>_. \<lparr>rx_ret = 0, rx_reset = False, rx_buf = [], rx_more = False\<rparr>" "\<lambda>w _ _. Inr w"]
  show ?thesis using two_players_ok(2,3) by (auto simp: sample_player_def)
qed

section \<open>The handshake\<close>

lemma rd_arr_drop: "drop p buf = c # cs \<Longrightarrow> rd_arr buf p = Inr c \<and> drop (Suc p) buf = cs"
proof -
  assume d: "drop p buf = c # cs"
  have l: "p < length buf" using arg_cong [OF d, of length] by simp
  have "drop (Suc p) buf = cs" using d by (metis drop_Suc list.sel(3) tl_drop)
  moreover have "buf ! p = c" using d l by (metis hd_drop_conv_nth list.sel(1))
  ultimately show ?thesis using l by simp
qed

lemma sec_key_run:
  "drop p buf = us @ 13 # rest \<Longrightarrow> 13 \<notin> set us \<Longrightarrow> length sec \<le> 50 \<Longrightarrow>
   sec_key buf p sec = Inr (take 50 (sec @ filter (\<lambda>c. c \<noteq> 32) us))"
proof (induction us arbitrary: p sec)
  case Nil
  then show ?case using rd_arr_drop [of p buf 13 rest] by (subst sec_key.simps) simp
next
  case (Cons c us)
  have r: "rd_arr buf p = Inr c" "drop (Suc p) buf = us @ 13 # rest" using rd_arr_drop [of p buf c "us @ 13 # rest"] Cons.prems(1) by simp_all
  show ?case
  proof (cases "length sec < 50")
    case True
    then show ?thesis using Cons.IH [OF r(2), of "if c \<noteq> 32 then sec @ [c] else sec"] Cons.prems r(1)
      by (subst sec_key.simps) (simp add: take_Cons' split: if_splits)
  next
    case False
    then show ?thesis using Cons.prems r(1) by (subst sec_key.simps) simp
  qed
qed

text \<open>
  C18: a connection whose request names a key of fewer than 50 characters is answered with the
  upgrade whose accept value is the Base64 text of the SHA-1 digest of the key and the
  protocol's identifier, and counts as shaken hands from then on; a longer key makes the
  terminating NUL overwrite what lies behind the buffer of 50 characters.
\<close>

theorem hack_answers:
  assumes "strstr (text_of (c_prefix buf)) ''Sec-WebSocket-Key:'' = Some p" "drop (p + 18) buf = replicate n 32 @ key @ 13 # rest"
    and "0 \<notin> set key" "13 \<notin> set key" "32 \<notin> set key" "length block = 64"
  shows "hack block buf i w = (if length key < 50
    then Inr (set_player i (\<lambda>p. p\<lparr>p_hack := 1\<rparr>) (send (p_socket (player i w))
           (bytes_of (upgrade_text (base64_encode (fips_sha1 (key @ bytes_of guid))))) w))
    else Inl OutOfBounds)"
proof -
  have f: "filter (\<lambda>c. c \<noteq> 32) (replicate n 32 @ key) = key" using assms(5) by (auto simp: filter_id_conv)
  have "sec_key buf (p + 18) [] = Inr (take 50 ([] @ filter (\<lambda>c. c \<noteq> 32) (replicate n 32 @ key)))"
    by (rule sec_key_run [of _ _ _ rest]) (use assms(2,4) in auto)
  then have s: "sec_key buf (p + 18) [] = Inr (take 50 key)" unfolding f by simp
  show ?thesis
  proof (cases "length key < 50")
    case True
    have "c_prefix key = key" using assms(3) by (auto simp: c_prefix_def takeWhile_eq_all_conv)
    moreover have "8 * length (key @ bytes_of guid) < 4294967296" using True by (simp add: guid_def)
    ultimately show ?thesis using True assms(1) s sha1_hash_fips [OF assms(6), of "key @ bytes_of guid"]
      by (simp add: hack_def accept_text_def)
  next
    case False
    then show ?thesis using assms(1) s by (simp add: hack_def accept_text_def)
  qed
qed

text \<open>The key of the protocol's description.\<close>

definition sample_key :: bytes where
  "sample_key = bytes_of ''dGhlIHNhbXBsZSBub25jZQ==''"

definition sample_request :: bytes where
  "sample_request = bytes_of ''GET / HTTP/1.1'' @ [13, 10] @ bytes_of ''Sec-WebSocket-Key: '' @ sample_key @ [13, 10, 13, 10, 0]"

lemma hack_answers_witness:
  "\<exists>w'. hack (replicate 64 0) sample_request 0 two_players = Inr w' \<and>
     w_out w' = [(5, bytes_of (upgrade_text (base64_encode (fips_sha1 (sample_key @ bytes_of guid)))))] \<and> p_hack (player 0 w') = 1"
proof -
  have k: "strstr (text_of (c_prefix sample_request)) ''Sec-WebSocket-Key:'' = Some 16" "drop (16 + 18) sample_request = replicate 1 32 @ sample_key @ 13 # [10, 13, 10, 0]"
    "0 \<notin> set sample_key" "13 \<notin> set sample_key" "32 \<notin> set sample_key" "length sample_key < 50"
    by code_simp+
  have o: "w_out two_players = []" by (simp add: two_players_def at_table_def sample_world_def)
  have l: "0 < length (players (w_players two_players))" by (simp add: two_players_def)
  show ?thesis using hack_answers [OF k(1-5), of "replicate 64 0" 0 two_players] k(6) o l two_players_ok(2)
    by (simp add: sample_player_def)
qed

end
