(* ===== verification/Hunting.thy ===== *)
theory Hunting
  imports Steps Game
begin

text \<open>
  A hit between the sweeps. The main thread handles \<open>hitFish\<close> (\<open>src/source/entry.hpp\<close>) while the two
  sweeping threads (\<open>src/thread/thread.hpp\<close>) walk the fish and the bullets of the same room. The
  operations of the lists happen at once here, as theory \<open>ListRaces\<close> shows of a proper lock; what
  is done to a fish or a bullet outside of them is a statement of its own, and the threads take
  turns between statements. Shown: which statements are safe, and where a freed object is written.
\<close>

section \<open>The statements of a walk\<close>

datatype spos = Stand "nat option" | TestLock nat | TestDead nat | DropIt nat | PassBy nat

definition walk_stmt :: "('s \<Rightarrow> bool) \<Rightarrow> ('s \<Rightarrow> nat \<Rightarrow> ('e \<times> nat option) res) \<Rightarrow> (nat \<Rightarrow> 's \<Rightarrow> (nat option \<times> 's) res) \<Rightarrow>
    ('e \<Rightarrow> bool) \<Rightarrow> ('e \<Rightarrow> bool) \<Rightarrow> spos \<Rightarrow> 's \<Rightarrow> (spos \<times> 's) res" where
  "walk_stmt stopped look drop_node locked dead p s = (case p of
       Stand None \<Rightarrow> Inr (Stand None, s)
     | Stand (Some a) \<Rightarrow> Inr (if stopped s then Stand None else TestLock a, s)
     | TestLock a \<Rightarrow> rbind (look s a) (\<lambda>(e, _). Inr (if locked e then PassBy a else TestDead a, s))
     | TestDead a \<Rightarrow> rbind (look s a) (\<lambda>(e, _). Inr (if dead e then DropIt a else PassBy a, s))
     | DropIt a \<Rightarrow> rbind (drop_node a s) (\<lambda>(q, s'). Inr (Stand q, s'))
     | PassBy a \<Rightarrow> rbind (look s a) (\<lambda>(_, q). Inr (Stand q, s)))"

definition node_at :: "spos \<Rightarrow> nat option" where
  "node_at p = (case p of Stand q \<Rightarrow> q | TestLock a \<Rightarrow> Some a | TestDead a \<Rightarrow> Some a | DropIt a \<Rightarrow> Some a | PassBy a \<Rightarrow> Some a)"

lemma node_at_simps [simp]:
  "node_at (Stand q) = q" "node_at (TestLock a) = Some a" "node_at (TestDead a) = Some a" "node_at (DropIt a) = Some a" "node_at (PassBy a) = Some a"
  by (simp_all add: node_at_def)

definition stands :: "(nat \<times> 'e) list \<Rightarrow> spos \<Rightarrow> bool" where
  "stands xs p \<longleftrightarrow> (case node_at p of None \<Rightarrow> True | Some a \<Rightarrow> a \<in> fst ` set xs)"

text \<open>With nobody between its statements a walk is the one of the sweep.\<close>

fun walk_run :: "('s \<Rightarrow> bool) \<Rightarrow> ('s \<Rightarrow> nat \<Rightarrow> ('e \<times> nat option) res) \<Rightarrow> (nat \<Rightarrow> 's \<Rightarrow> (nat option \<times> 's) res) \<Rightarrow>
    ('e \<Rightarrow> bool) \<Rightarrow> ('e \<Rightarrow> bool) list \<Rightarrow> spos \<times> 's \<Rightarrow> (spos \<times> 's) res" where
  "walk_run stopped look drop_node locked [] c = Inr c"
| "walk_run stopped look drop_node locked (d # ds) c =
     rbind (walk_stmt stopped look drop_node locked d (fst c) (snd c)) (walk_run stopped look drop_node locked ds)"

lemma walk_run_sweep:
  "sweep n stopped look drop_node (\<lambda>k e. \<not> locked e \<and> dead k e) k p s = Inr s' \<Longrightarrow>
   \<exists>ds. set ds \<subseteq> range dead \<and> walk_run stopped look drop_node locked ds (Stand p, s) = Inr (Stand None, s')"
proof (induction n stopped look drop_node "\<lambda>k e. \<not> locked e \<and> dead k e" k p s rule: sweep.induct)
  case (1 n stopped look drop_node k s)
  then show ?case by (intro exI [of _ "[]"]) simp
next
  case (3 n stopped look drop_node k a s)
  show ?case
  proof (cases "stopped s")
    case True
    then show ?thesis using 3(3) by (intro exI [of _ "[dead k]"]) (simp add: walk_stmt_def)
  next
    case False
    obtain e nx where l: "look s a = Inr (e, nx)" using 3(3) False by (auto simp: rbind_eq_Inr)
    consider (gone) q s1 where "\<not> locked e" "dead k e" "drop_node a s = Inr (q, s1)"
        "sweep n stopped look drop_node (\<lambda>k e. \<not> locked e \<and> dead k e) (Suc k) q s1 = Inr s'"
      | (kept) "locked e \<or> \<not> dead k e" "sweep n stopped look drop_node (\<lambda>k e. \<not> locked e \<and> dead k e) (Suc k) nx s = Inr s'"
      using 3(3) False l by (auto simp: rbind_eq_Inr split: if_splits)
    then show ?thesis
    proof cases
      case gone
      obtain ds where "set ds \<subseteq> range dead" "walk_run stopped look drop_node locked ds (Stand q, s1) = Inr (Stand None, s')"
        using 3(1) [OF False l refl _ gone(3) refl gone(4)] gone(1,2) by auto
      then show ?thesis using False l gone by (intro exI [of _ "[dead k, dead k, dead k, dead k] @ ds"]) (simp add: walk_stmt_def)
    next
      case kept
      obtain ds where ds: "set ds \<subseteq> range dead" "walk_run stopped look drop_node locked ds (Stand nx, s) = Inr (Stand None, s')"
        using 3(2) [OF False l refl _ kept(2)] kept(1) by auto
      show ?thesis
      proof (cases "locked e")
        case True
        then show ?thesis using False l ds by (intro exI [of _ "[dead k, dead k, dead k] @ ds"]) (simp add: walk_stmt_def)
      next
        case not: False
        then show ?thesis using False l ds kept(1) by (intro exI [of _ "[dead k, dead k, dead k, dead k] @ ds"]) (simp add: walk_stmt_def)
      qed
    qed
  qed
qed simp

context node_list
begin

lemma walk_ok:
  assumes "ok s" "stands (items s) p"
  shows "\<exists>p' s'. walk_stmt stopped look drop_node locked dead p s = Inr (p', s') \<and> ok s' \<and> stands (items s') p' \<and>
    (\<forall>a. p' = DropIt a \<longrightarrow> (\<exists>e. (a, e) \<in> set (items s') \<and> dead e)) \<and>
    (s' = s \<or> (\<exists>a xs e ys. p = DropIt a \<and> items s = xs @ (a, e) # ys \<and> items s' = xs @ ys))"
proof (cases "node_at p")
  case None
  then show ?thesis using assms by (cases p) (simp_all add: walk_stmt_def)
next
  case (Some a)
  then obtain e xs ys where i: "items s = xs @ (a, e) # ys"
    using assms(2) by (auto simp: stands_def dest: split_list)
  have l: "look s a = Inr (e, first (map fst ys))" by (rule look_law [OF assms(1) i])
  have st: "stands (us @ ys) (Stand (first (map fst ys)))" for us by (cases ys) (auto simp: stands_def)
  have n: "stands (items s) (TestLock a)" "stands (items s) (TestDead a)" "stands (items s) (DropIt a)" "stands (items s) (PassBy a)"
    by (simp_all add: stands_def i)
  show ?thesis
  proof (cases p)
    case (DropIt b)
    then obtain s' where "drop_node a s = Inr (first (map fst ys), s')" "ok s'" "items s' = xs @ ys"
      using drop_law [OF assms(1) i] by blast
    then show ?thesis using DropIt Some i st [of xs] by (auto simp: walk_stmt_def)
  next
    case (Stand q)
    then show ?thesis using Some n stopped_law [OF assms(1)] assms(1) by (simp add: walk_stmt_def)
  next
    case (PassBy b)
    then show ?thesis using Some l st [of "xs @ [(a, e)]"] i assms(1) by (simp add: walk_stmt_def)
  next
    case (TestLock b)
    then show ?thesis using Some l n assms(1) by (simp add: walk_stmt_def)
  next
    case (TestDead b)
    then show ?thesis using Some l n assms(1) i by (auto simp: walk_stmt_def)
  qed
qed

end

text \<open>The tests of the two walks, and the walks as the sweeps of theory \<open>Threads\<close>.\<close>

definition bullet_locked :: "'f Bullet \<Rightarrow> bool" where
  "bullet_locked b \<longleftrightarrow> b_lock b \<noteq> 0"

definition bullet_stale :: "int \<Rightarrow> 'f Bullet \<Rightarrow> bool" where
  "bullet_stale t b \<longleftrightarrow> b_isdel b \<noteq> 0 \<or> t - b_create_time b > 10000000"

definition fish_locked :: "Fish \<Rightarrow> bool" where
  "fish_locked f \<longleftrightarrow> f_lock f \<noteq> 0"

definition fish_gone :: "Fish \<Rightarrow> bool" where
  "fish_gone f \<longleftrightarrow> f_isdel f \<noteq> 0"

definition bullet_walk :: "int \<Rightarrow> spos \<Rightarrow> 'f Bullets \<Rightarrow> (spos \<times> 'f Bullets) res" where
  "bullet_walk t = walk_stmt clearing nl_look bullets_destroy bullet_locked (bullet_stale t)"

definition fish_walk :: "spos \<Rightarrow> Fishs \<Rightarrow> (spos \<times> Fishs) res" where
  "fish_walk = walk_stmt clearing nl_look fishs_destroy fish_locked fish_gone"

lemma bullet_walk_sweeps:
  assumes "sweep_bullets e l = Inr l'"
  shows "\<exists>ds. set ds \<subseteq> range (\<lambda>k. bullet_stale (mtime k e)) \<and>
    walk_run clearing nl_look bullets_destroy bullet_locked ds (Stand (bullets_getHead l), l) = Inr (Stand None, l')"
proof -
  have "bullet_dead e = (\<lambda>k b. \<not> bullet_locked b \<and> bullet_stale (mtime k e) b)"
    by (intro ext) (simp add: bullet_dead_def bullet_locked_def bullet_stale_def)
  with assms show ?thesis unfolding sweep_bullets_def by (intro walk_run_sweep) simp
qed

lemma fish_walk_sweeps:
  assumes "sweep_fish e l = Inr l'"
  shows "\<exists>ds. set ds \<subseteq> {fish_gone} \<and> walk_run clearing nl_look fishs_destroy fish_locked ds (Stand (fishs_getHead l), l) = Inr (Stand None, l')"
proof -
  have "fish_dead = (\<lambda>k f. \<not> fish_locked f \<and> fish_gone f)"
    by (intro ext) (simp add: fish_dead_def fish_locked_def fish_gone_def)
  with assms have "sweep (fuel e) clearing nl_look fishs_destroy (\<lambda>k f. \<not> fish_locked f \<and> fish_gone f) 0 (fishs_getHead l) l = Inr l'"
    unfolding sweep_fish_def by simp
  from walk_run_sweep [OF this] show ?thesis by simp
qed

section \<open>The statements of a hit\<close>

datatype hpos = FindBullet | FindFish nat | HitFish nat nat | KillFish nat nat | FreeFish nat nat | KillBullet nat | FreeBullet nat | HitDone

record 'f hunt =
  h_bullets :: "'f Bullets"
  h_fishs :: Fishs
  h_user :: User
  h_msg :: phead
  h_said :: "string list"
  h_at :: hpos
  h_bwalk :: spos
  h_fwalk :: spos

text \<open>What the player who hit fish \<open>f\<close> is told; \<open>u\<close> is the user with the coins already paid.\<close>

definition hit_answer :: "'f env \<Rightarrow> int \<Rightarrow> phead \<Rightarrow> User \<Rightarrow> Fish \<Rightarrow> string res" where
  "hit_answer e uid js u f =
     rbind (valueToInt js ''bullet_id'') (\<lambda>bid. rbind (valueToInt js ''bx'') (\<lambda>bx. rbind (valueToInt js ''by'') (\<lambda>by'.
     rbind (valueToInt js ''fx'') (\<lambda>fx. rbind (valueToInt js ''fy'') (\<lambda>fy. rbind (valueToFloat (atof e) js ''fag'') (\<lambda>fag.
     sprintf_buf 200 (hit_fish_text uid (u_coin u) bid bx by' (f_id f) fx fy (show2 e fag) (f_type f))))))))"

definition hunter_stmt :: "'f env \<Rightarrow> int \<Rightarrow> 'f hunt \<Rightarrow> 'f hunt res" where
  "hunter_stmt e uid h = (case h_at h of
       FindBullet \<Rightarrow> rbind (valueToInt (h_msg h) ''bullet_id'') (\<lambda>bid. rbind (bullets_getBullet (fuel e) bid uid (h_bullets h)) (\<lambda>r.
         Inr (case r of None \<Rightarrow> h\<lparr>h_at := HitDone, h_said := h_said h @ [''{op:'hit fish', status:0, msg:'no valid!'}'']\<rparr>
           | Some b \<Rightarrow> h\<lparr>h_at := FindFish b\<rparr>)))
     | FindFish b \<Rightarrow> rbind (valueToInt (h_msg h) ''fish_id'') (\<lambda>fid. rbind (fishs_getFish (fuel e) fid (h_fishs h)) (\<lambda>(r, l).
         Inr (h\<lparr>h_fishs := l, h_at := (case r of None \<Rightarrow> KillBullet b | Some a \<Rightarrow> HitFish b a)\<rparr>)))
     | HitFish b a \<Rightarrow> rbind (nl_look (h_fishs h) a) (\<lambda>(f, _). rbind (nl_put a (\<lambda>f. f\<lparr>f_hit_coin := i32 (f_hit_coin f + 1)\<rparr>) (h_fishs h)) (\<lambda>l.
         let u = hit_user f (h_user h) in rbind (hit_answer e uid (h_msg h) u f) (\<lambda>s.
         Inr (h\<lparr>h_fishs := l, h_user := u, h_said := h_said h @ [s], h_at := KillFish b a\<rparr>))))
     | KillFish b a \<Rightarrow> rbind (nl_put a (\<lambda>f. f\<lparr>f_isdel := 1\<rparr>) (h_fishs h)) (\<lambda>l. Inr (h\<lparr>h_fishs := l, h_at := FreeFish b a\<rparr>))
     | FreeFish b a \<Rightarrow> rbind (nl_put a (\<lambda>f. f\<lparr>f_lock := 0\<rparr>) (h_fishs h)) (\<lambda>l. Inr (h\<lparr>h_fishs := l, h_at := KillBullet b\<rparr>))
     | KillBullet b \<Rightarrow> rbind (nl_put b (\<lambda>b. b\<lparr>b_isdel := 1\<rparr>) (h_bullets h)) (\<lambda>l. Inr (h\<lparr>h_bullets := l, h_at := FreeBullet b\<rparr>))
     | FreeBullet b \<Rightarrow> rbind (nl_put b (\<lambda>b. b\<lparr>b_lock := 0\<rparr>) (h_bullets h)) (\<lambda>l. Inr (h\<lparr>h_bullets := l, h_at := HitDone\<rparr>))
     | HitDone \<Rightarrow> Inr h)"

fun hunter_run :: "nat \<Rightarrow> 'f env \<Rightarrow> int \<Rightarrow> 'f hunt \<Rightarrow> 'f hunt res" where
  "hunter_run 0 e uid h = Inr h"
| "hunter_run (Suc n) e uid h = rbind (hunter_stmt e uid h) (hunter_run n e uid)"

text \<open>With nobody between its statements a hit is the one of theory \<open>Entry\<close>.\<close>

lemma put_put: "nl_put a (\<lambda>e. f (g e)) l = Inr l' \<Longrightarrow> \<exists>l1. nl_put a g l = Inr l1 \<and> nl_put a f l1 = Inr l'"
  by (auto simp: nl_put_def rbind_eq_Inr deref_def split: option.splits)

lemma hunter_alone:
  assumes "h_at h = FindFish ba" "valueToInt (h_msg h) ''bullet_id'' = Inr bid"
    and "hit_one e i (h_msg h) bid (h_fishs h) (h_user h) w = Inr (fl1, u1, w1)" "uid = p_uid (player i w)"
    and "nl_put ba (\<lambda>b. b\<lparr>b_isdel := 1, b_lock := 0\<rparr>) (h_bullets h) = Inr bl1"
  shows "\<exists>ss. hunter_run 6 e uid h = Inr (h\<lparr>h_bullets := bl1, h_fishs := fl1, h_user := u1, h_said := h_said h @ ss, h_at := HitDone\<rparr>) \<and>
    w1 = fold (sendmsg i) ss w"
proof -
  obtain b1 where b: "nl_put ba (\<lambda>b. b\<lparr>b_isdel := 1\<rparr>) (h_bullets h) = Inr b1" "nl_put ba (\<lambda>b. b\<lparr>b_lock := 0\<rparr>) b1 = Inr bl1"
    using put_put [of ba "\<lambda>b. b\<lparr>b_lock := 0\<rparr>" "\<lambda>b. b\<lparr>b_isdel := 1\<rparr>"] assms(5) by auto
  obtain fid f l where g: "valueToInt (h_msg h) ''fish_id'' = Inr fid" "fishs_getFish (fuel e) fid (h_fishs h) = Inr (f, l)"
    using assms(3) by (auto simp: hit_one_def rbind_eq_Inr)
  show ?thesis
  proof (cases f)
    case None
    then show ?thesis using assms(1,3) g b
      by (intro exI [of _ "[]"]) (simp add: hit_one_def hunter_stmt_def eval_nat_numeral)
  next
    case (Some a)
    obtain fi q where k: "nl_look l a = Inr (fi, q)" using assms(3) g Some by (auto simp: hit_one_def rbind_eq_Inr)
    let ?hit = "\<lambda>f. f\<lparr>f_hit_coin := i32 (f_hit_coin f + 1)\<rparr>" and ?kill = "\<lambda>f. f\<lparr>f_isdel := 1\<rparr>" and ?free = "\<lambda>f. f\<lparr>f_lock := 0\<rparr>"
    have "nl_put a (\<lambda>f. ?free (?kill (?hit f))) l = Inr fl1"
      using assms(3) g Some k by (auto simp: hit_one_def rbind_eq_Inr Let_def)
    then obtain l2 where l2: "nl_put a (\<lambda>f. ?kill (?hit f)) l = Inr l2" "nl_put a ?free l2 = Inr fl1"
      using put_put [of a ?free "\<lambda>f. ?kill (?hit f)"] by blast
    then obtain l1 where l1: "nl_put a ?hit l = Inr l1" "nl_put a ?kill l1 = Inr l2"
      using put_put [of a ?kill ?hit] by blast
    obtain s where s: "hit_answer e uid (h_msg h) (hit_user fi (h_user h)) fi = Inr s" "w1 = sendmsg i s w" "u1 = hit_user fi (h_user h)"
      using assms(2-4) g Some k by (auto simp: hit_one_def rbind_eq_Inr Let_def hit_answer_def hit_user_def)
    show ?thesis using assms(1) g Some k s l1 l2(2) b
      by (intro exI [of _ "[s]"]) (simp add: hunter_stmt_def eval_nat_numeral Let_def)
  qed
qed

section \<open>Turns\<close>

text \<open>
  The main thread goes on with its hit, takes the next message or shoots; a walk goes on or starts
  again; the fish thread makes a fish before it walks. Nobody leaves the room meanwhile.
\<close>

definition roomy :: "'f env \<Rightarrow> 'f hunt \<Rightarrow> bool" where
  "roomy e h \<longleftrightarrow> length (nl_items (h_bullets h)) \<le> fuel e \<and> length (nl_items (h_fishs h)) \<le> fuel e"

inductive hunt_step :: "int \<Rightarrow> 'f hunt \<Rightarrow> 'f hunt \<Rightarrow> bool" for uid where
  hit: "roomy e h \<Longrightarrow> hunter_stmt e uid h = Inr h' \<Longrightarrow> hunt_step uid h h'"
| message: "h_at h = HitDone \<Longrightarrow> hunt_step uid h (h\<lparr>h_at := FindBullet, h_msg := js\<rparr>)"
| shot: "h_at h = HitDone \<Longrightarrow> 0 < u_coin (h_user h) \<Longrightarrow> a \<notin> fst ` set (nl_items (h_bullets h)) \<Longrightarrow> length (nl_items (h_bullets h)) \<le> n \<Longrightarrow>
    n < 2147483645 \<Longrightarrow> bullets_create (Suc n) n a uid x y angle t (h_bullets h) = Inr (b, l) \<Longrightarrow>
    hunt_step uid h (h\<lparr>h_bullets := l, h_user := (h_user h)\<lparr>u_coin := u_coin (h_user h) - 1\<rparr>\<rparr>)"
| bullets: "bullet_walk t (h_bwalk h) (h_bullets h) = Inr (p, l) \<Longrightarrow> hunt_step uid h (h\<lparr>h_bwalk := p, h_bullets := l\<rparr>)"
| bullets_again: "h_bwalk h = Stand None \<Longrightarrow> hunt_step uid h (h\<lparr>h_bwalk := Stand (bullets_getHead (h_bullets h))\<rparr>)"
| fishes: "fish_walk (h_fwalk h) (h_fishs h) = Inr (p, l) \<Longrightarrow> hunt_step uid h (h\<lparr>h_fwalk := p, h_fishs := l\<rparr>)"
| fishes_again: "h_fwalk h = Stand None \<Longrightarrow> hunt_step uid h (h\<lparr>h_fwalk := Stand (fishs_getHead (h_fishs h))\<rparr>)"
| fish_made: "h_fwalk h = Stand None \<Longrightarrow> fishs_getLength (h_fishs h) < 10 \<Longrightarrow> a \<notin> fst ` set (nl_items (h_fishs h)) \<Longrightarrow>
    length (nl_items (h_fishs h)) \<le> n \<Longrightarrow> n < 2147483645 \<Longrightarrow> \<forall>j. 0 \<le> rs j \<Longrightarrow>
    fishs_create (Suc n) n rs a st t (h_fishs h) = Inr (r, l) \<Longrightarrow> hunt_step uid h (h\<lparr>h_fishs := l\<rparr>)"

definition held :: "(nat \<times> Fish) list \<Rightarrow> nat \<Rightarrow> bool" where
  "held xs a \<longleftrightarrow> (\<exists>f. (a, f) \<in> set xs \<and> f_lock f \<noteq> 0 \<and> f_isdel f = 0)"

definition hunt_ok :: "'f hunt \<Rightarrow> bool" where
  "hunt_ok h \<longleftrightarrow> bullets_ok (h_bullets h) \<and> fishs_ok (h_fishs h) \<and>
     stands (nl_items (h_bullets h)) (h_bwalk h) \<and> stands (nl_items (h_fishs h)) (h_fwalk h) \<and>
     (\<forall>a. h_fwalk h = DropIt a \<longrightarrow> (\<exists>f. (a, f) \<in> set (nl_items (h_fishs h)) \<and> fish_gone f)) \<and>
     (\<forall>b a. h_at h = HitFish b a \<or> h_at h = KillFish b a \<longrightarrow> held (nl_items (h_fishs h)) a)"

text \<open>Writing to a node: what happens to the list, whether the node is in it or not.\<close>

definition written :: "nat \<Rightarrow> ('a \<Rightarrow> 'a) \<Rightarrow> (nat \<times> 'a) list \<Rightarrow> (nat \<times> 'a) list" where
  "written a f xs = map (\<lambda>(b, e). (b, if b = a then f e else e)) xs"

lemma written_facts [simp]:
  "map fst (written a f xs) = map fst xs" "fst ` set (written a f xs) = fst ` set xs" "length (written a f xs) = length xs"
  "stands (written a f xs) p = stands xs p"
proof -
  show m: "map fst (written a f xs) = map fst xs" by (auto simp: written_def)
  then show s: "fst ` set (written a f xs) = fst ` set xs" by (metis list.set_map)
  show "length (written a f xs) = length xs" by (simp add: written_def)
  show "stands (written a f xs) p = stands xs p" unfolding stands_def s ..
qed

lemma written_ids: "(\<And>e. g (f e) = g e) \<Longrightarrow> map (g \<circ> snd) (written a f xs) = map (g \<circ> snd) xs"
  by (auto simp: written_def)

lemma in_written: "(b, e') \<in> set (written a f xs) \<longleftrightarrow> (\<exists>e. (b, e) \<in> set xs \<and> e' = (if b = a then f e else e))"
  by (induction xs) (auto simp: written_def)

lemma written_away: "a \<notin> fst ` set xs \<Longrightarrow> written a f xs = xs"
  by (induction xs) (auto simp: written_def)

lemma items_distinct: "nl_ok l \<Longrightarrow> distinct (map fst (nl_items l))"
  by (simp add: nl_items_def nl_ok_def nl_rep_def)

lemma nl_put_written:
  assumes "nl_ok l" "nl_put a f l = Inr l'"
  shows "nl_ok l' \<and> nl_items l' = written a f (nl_items l)"
proof (cases "a \<in> fst ` set (nl_items l)")
  case True
  then obtain xs e ys where i: "nl_items l = xs @ (a, e) # ys" by (auto dest: split_list)
  have "a \<notin> fst ` set xs" "a \<notin> fst ` set ys" using items_distinct [OF assms(1)] by (auto simp: i)
  then have "written a f (nl_items l) = xs @ (a, f e) # ys"
    using written_away [of a xs f] written_away [of a ys f] by (simp add: i written_def)
  then show ?thesis using nl_put_items [OF assms(1) i, of f] assms(2) by auto
next
  case False
  obtain n where l': "l' = l\<lparr>heap := (heap l)(a \<mapsto> n)\<rparr>" using assms(2) by (auto simp: nl_put_def rbind_eq_Inr)
  have r: "nl_rep l (nl_nodes l)" using assms(1) by (simp add: nl_ok_def)
  have a: "a \<notin> set (nl_nodes l)" using False by (simp add: nl_items_def items_of_def image_image)
  have r': "nl_rep l' (nl_nodes l)" using r a by (simp add: nl_rep_def l' seg_upd_other)
  have "items_of (heap l') (nl_nodes l) = items_of (heap l) (nl_nodes l)"
    using a by (intro items_of_cong) (auto simp: l')
  then show ?thesis using rep_ok [OF r'] rep_items [OF r'] rep_items [OF r] written_away [OF False] by simp
qed

lemma nl_put_there:
  assumes "nl_ok l" "a \<in> fst ` set (nl_items l)"
  shows "\<exists>l'. nl_put a f l = Inr l'"
proof -
  obtain xs e ys where "nl_items l = xs @ (a, e) # ys" using assms(2) by (auto dest: split_list)
  from nl_put_items [OF assms(1) this] show ?thesis by blast
qed

lemma nl_put_fault: "nl_put a f l = Inl x \<Longrightarrow> x = UseAfterFree"
  by (auto simp: nl_put_def rbind_eq_Inl deref_def split: option.splits)

lemma fish_written:
  assumes "fishs_ok l" "nl_put a f l = Inr l'" "\<And>e. f_id (f e) = f_id e"
  shows "fishs_ok l' \<and> nl_items l' = written a f (nl_items l)"
proof -
  have ok: "nl_ok l" using assms(1) by (simp add: fishs_ok_def)
  show ?thesis using nl_put_written [OF ok assms(2)] assms(1) nl_put_lid [OF assms(2)] written_ids [of f_id f, OF assms(3)]
    by (simp add: fishs_ok_def)
qed

lemma bullet_written:
  assumes "bullets_ok l" "nl_put a f l = Inr l'" "\<And>e. b_id (f e) = b_id e"
  shows "bullets_ok l' \<and> nl_items l' = written a f (nl_items l)"
proof -
  have ok: "nl_ok l" using assms(1) by (simp add: bullets_ok_def)
  show ?thesis using nl_put_written [OF ok assms(2)] assms(1) nl_put_lid [OF assms(2)] written_ids [of b_id f, OF assms(3)]
    by (simp add: bullets_ok_def)
qed

text \<open>Looking a fish up.\<close>

lemma getFish_takes:
  assumes "fishs_ok l" "length (nl_items l) \<le> n"
  shows "\<exists>r l'. fishs_getFish n i l = Inr (r, l') \<and> fishs_ok l' \<and> (case r of None \<Rightarrow> l' = l
    | Some a \<Rightarrow> nl_items l' = written a (\<lambda>f. f\<lparr>f_lock := 1\<rparr>) (nl_items l) \<and> (\<exists>f. (a, f) \<in> set (nl_items l) \<and> f_id f = i \<and> f_lock f = 0 \<and> f_isdel f = 0))"
proof -
  have ok: "nl_ok l" using assms(1) by (simp add: fishs_ok_def)
  note f = find_node_ok [OF ok assms(2), of "\<lambda>e. f_id e = i"]
  show ?thesis
  proof (cases "List.find (\<lambda>(a, e). f_id e = i) (nl_items l)")
    case None
    then show ?thesis using assms(1) f ok_unlocked [OF ok] by (simp add: fishs_getFish_def)
  next
    case (Some x)
    obtain a e where x: "x = (a, e)" by (cases x)
    obtain xs ys where i: "nl_items l = xs @ (a, e) # ys" "f_id e = i" using split_find [OF Some] x by auto
    obtain l' where l': "nl_put a (\<lambda>f. f\<lparr>f_lock := 1\<rparr>) l = Inr l'" using nl_put_there [OF ok, of a] i by auto
    have "f_lock_update (\<lambda>_. 1) = (\<lambda>f. f\<lparr>f_lock := 1\<rparr>)" by simp
    then show ?thesis using assms(1) f ok_unlocked [OF ok] Some x i l' nl.look_law [OF ok i(1)] fish_written [OF assms(1) l']
      by (auto simp: fishs_getFish_def)
  qed
qed

section \<open>What every turn keeps\<close>

lemma held_written: "(\<And>f. f_lock f \<noteq> 0 \<Longrightarrow> f_isdel f = 0 \<Longrightarrow> f_lock (g f) \<noteq> 0 \<and> f_isdel (g f) = 0) \<Longrightarrow> held xs a \<Longrightarrow> held (written b g xs) a"
  by (auto simp: held_def in_written)

lemma gone_written: "(\<And>f. fish_gone f \<Longrightarrow> fish_gone (g f)) \<Longrightarrow> \<exists>f. (a, f) \<in> set xs \<and> fish_gone f \<Longrightarrow> \<exists>f. (a, f) \<in> set (written b g xs) \<and> fish_gone f"
  by (auto simp: in_written)

lemma hunt_ok_fishs:
  assumes "hunt_ok h" "fishs_ok l" "nl_items l = written b g (nl_items (h_fishs h))" "\<And>f. f_isdel f \<noteq> 0 \<Longrightarrow> f_isdel (g f) \<noteq> 0"
    and "\<And>c a. p = HitFish c a \<or> p = KillFish c a \<Longrightarrow> held (nl_items l) a"
  shows "hunt_ok (h\<lparr>h_fishs := l, h_at := p\<rparr>)"
proof -
  have "\<exists>f. (a, f) \<in> set (nl_items l) \<and> fish_gone f" if "h_fwalk h = DropIt a" for a
    unfolding assms(3) by (rule gone_written) (use assms(1,4) that in \<open>auto simp: hunt_ok_def fish_gone_def\<close>)
  then show ?thesis using assms by (simp add: hunt_ok_def)
qed

lemma hunt_ok_bullets:
  assumes "hunt_ok h" "bullets_ok l" "nl_items l = written b g (nl_items (h_bullets h))" "\<And>c a. p \<noteq> HitFish c a" "\<And>c a. p \<noteq> KillFish c a"
  shows "hunt_ok (h\<lparr>h_bullets := l, h_at := p\<rparr>)"
  using assms by (simp add: hunt_ok_def)

lemma hunt_ok_frame: "hunt_ok (h\<lparr>h_user := u\<rparr>) = hunt_ok h" "hunt_ok (h\<lparr>h_said := s\<rparr>) = hunt_ok h" "hunt_ok (h\<lparr>h_msg := js\<rparr>) = hunt_ok h"
  by (simp_all add: hunt_ok_def)

lemma hunt_ok_at: "hunt_ok h \<Longrightarrow> (\<And>c a. p \<noteq> HitFish c a) \<Longrightarrow> (\<And>c a. p \<noteq> KillFish c a) \<Longrightarrow> hunt_ok (h\<lparr>h_at := p\<rparr>)"
  by (simp add: hunt_ok_def)

lemma hunt_ok_fish_put:
  assumes "hunt_ok h" "nl_put a g (h_fishs h) = Inr l" "\<And>f. f_id (g f) = f_id f" "\<And>f. f_isdel f \<noteq> 0 \<Longrightarrow> f_isdel (g f) \<noteq> 0"
    and "\<And>c b. p = HitFish c b \<or> p = KillFish c b \<Longrightarrow> held (written a g (nl_items (h_fishs h))) b"
  shows "hunt_ok (h\<lparr>h_fishs := l, h_at := p\<rparr>)"
proof -
  have fok: "fishs_ok (h_fishs h)" using assms(1) by (simp add: hunt_ok_def)
  show ?thesis using hunt_ok_fishs [OF assms(1) _ _ assms(4)] fish_written [OF fok assms(2,3)] assms(5) by simp
qed

lemma hunt_ok_bullet_put:
  assumes "hunt_ok h" "nl_put a g (h_bullets h) = Inr l" "\<And>b. b_id (g b) = b_id b" "\<And>c b. p \<noteq> HitFish c b" "\<And>c b. p \<noteq> KillFish c b"
  shows "hunt_ok (h\<lparr>h_bullets := l, h_at := p\<rparr>)"
proof -
  have bok: "bullets_ok (h_bullets h)" using assms(1) by (simp add: hunt_ok_def)
  show ?thesis using hunt_ok_bullets [OF assms(1) _ _ assms(4,5)] bullet_written [OF bok assms(2,3)] by simp
qed

lemma find_turn_ok:
  assumes "hunt_ok h" "roomy e h" "fishs_getFish (fuel e) fid (h_fishs h) = Inr (r, l)"
  shows "hunt_ok (h\<lparr>h_fishs := l, h_at := (case r of None \<Rightarrow> KillBullet b | Some a \<Rightarrow> HitFish b a)\<rparr>)"
proof -
  have fok: "fishs_ok (h_fishs h)" using assms(1) by (simp add: hunt_ok_def)
  have k: "fishs_ok l" "case r of None \<Rightarrow> l = h_fishs h
    | Some a \<Rightarrow> nl_items l = written a (\<lambda>f. f\<lparr>f_lock := 1\<rparr>) (nl_items (h_fishs h)) \<and> (\<exists>f. (a, f) \<in> set (nl_items (h_fishs h)) \<and> f_id f = fid \<and> f_lock f = 0 \<and> f_isdel f = 0)"
    using getFish_takes [OF fok, of "fuel e" fid] assms(2,3) by (auto simp: roomy_def)
  show ?thesis
  proof (cases r)
    case None
    then show ?thesis using k(2) hunt_ok_at [OF assms(1), of "KillBullet b"] by simp
  next
    case (Some a)
    then have w: "nl_items l = written a (\<lambda>f. f\<lparr>f_lock := 1\<rparr>) (nl_items (h_fishs h))" using k(2) by simp
    have "held (nl_items l) a" using k(2) Some by (force simp: held_def in_written)
    then show ?thesis using hunt_ok_fishs [OF assms(1) k(1) w, of "HitFish b a"] Some by simp
  qed
qed

lemma hit_turn_ok:
  assumes "hunt_ok h" "roomy e h" "hunter_stmt e uid h = Inr h'"
  shows "hunt_ok h'"
proof -
  have hd: "held (nl_items (h_fishs h)) a" if "h_at h = HitFish b a \<or> h_at h = KillFish b a" for b a
    using assms(1) that by (auto simp: hunt_ok_def)
  show ?thesis
  proof (cases "h_at h")
    case FindBullet
    have "hunt_ok (h\<lparr>h_at := HitDone\<rparr>\<lparr>h_said := h_said h @ [''{op:'hit fish', status:0, msg:'no valid!'}'']\<rparr>)"
      unfolding hunt_ok_frame by (rule hunt_ok_at [OF assms(1)]) simp_all
    then show ?thesis using assms(3) FindBullet hunt_ok_at [OF assms(1)]
      by (auto simp: hunter_stmt_def rbind_eq_Inr split: option.split)
  next
    case (FindFish b)
    then show ?thesis using assms(3) find_turn_ok [OF assms(1,2)] by (auto simp: hunter_stmt_def rbind_eq_Inr)
  next
    case (HitFish b a)
    let ?g = "\<lambda>f. f\<lparr>f_hit_coin := i32 (f_hit_coin f + 1)\<rparr>"
    obtain l u s where l: "nl_put a ?g (h_fishs h) = Inr l" and h': "h' = h\<lparr>h_fishs := l, h_user := u, h_said := s, h_at := KillFish b a\<rparr>"
      using assms(3) HitFish by (auto simp: hunter_stmt_def rbind_eq_Inr Let_def)
    have eq: "h' = h\<lparr>h_fishs := l, h_at := KillFish b a\<rparr>\<lparr>h_user := u\<rparr>\<lparr>h_said := s\<rparr>" by (simp add: h')
    have "held (written a ?g (nl_items (h_fishs h))) a" by (rule held_written) (use hd HitFish in simp_all)
    then show ?thesis unfolding eq hunt_ok_frame by (intro hunt_ok_fish_put [OF assms(1) l]) simp_all
  next
    case (KillFish b a)
    then show ?thesis using assms(3) by (auto simp: hunter_stmt_def rbind_eq_Inr intro!: hunt_ok_fish_put [OF assms(1)])
  next
    case (FreeFish b a)
    then show ?thesis using assms(3) by (auto simp: hunter_stmt_def rbind_eq_Inr intro!: hunt_ok_fish_put [OF assms(1)])
  next
    case (KillBullet b)
    then show ?thesis using assms(3) by (auto simp: hunter_stmt_def rbind_eq_Inr intro!: hunt_ok_bullet_put [OF assms(1)])
  next
    case (FreeBullet b)
    then show ?thesis using assms(3) by (auto simp: hunter_stmt_def rbind_eq_Inr intro!: hunt_ok_bullet_put [OF assms(1)])
  next
    case HitDone
    then show ?thesis using assms(1,3) by (simp add: hunter_stmt_def)
  qed
qed

text \<open>A walk goes on: it takes away only what is marked as deleted, so never a fish that is held.\<close>

lemma fish_turn:
  assumes "hunt_ok h"
  shows "\<exists>p l. fish_walk (h_fwalk h) (h_fishs h) = Inr (p, l) \<and> hunt_ok (h\<lparr>h_fwalk := p, h_fishs := l\<rparr>)"
proof -
  have fok: "fishs_ok (h_fishs h)" and st: "stands (nl_items (h_fishs h)) (h_fwalk h)" using assms by (simp_all add: hunt_ok_def)
  obtain p l where w: "fish_walk (h_fwalk h) (h_fishs h) = Inr (p, l)" "fishs_ok l" "stands (nl_items l) p"
    "\<forall>a. p = DropIt a \<longrightarrow> (\<exists>e. (a, e) \<in> set (nl_items l) \<and> fish_gone e)"
    "l = h_fishs h \<or> (\<exists>a xs e ys. h_fwalk h = DropIt a \<and> nl_items (h_fishs h) = xs @ (a, e) # ys \<and> nl_items l = xs @ ys)"
    using fishs.walk_ok [OF fok st, of fish_locked fish_gone] unfolding fish_walk_def by blast
  have "held (nl_items l) a" if "h_at h = HitFish b a \<or> h_at h = KillFish b a" for b a
  proof -
    have "held (nl_items (h_fishs h)) a" using assms that by (auto simp: hunt_ok_def)
    then obtain f where f: "(a, f) \<in> set (nl_items (h_fishs h))" "f_lock f \<noteq> 0" "f_isdel f = 0" by (auto simp: held_def)
    show ?thesis
    proof (cases "l = h_fishs h")
      case False
      then obtain c xs e ys where c: "h_fwalk h = DropIt c" "nl_items (h_fishs h) = xs @ (c, e) # ys" "nl_items l = xs @ ys" using w(5) by auto
      obtain e' where "(c, e') \<in> set (nl_items (h_fishs h))" "fish_gone e'" using assms c(1) by (auto simp: hunt_ok_def)
      moreover have "distinct (map fst (nl_items (h_fishs h)))" using fok items_distinct by (auto simp: fishs_ok_def)
      ultimately have "a \<noteq> c" using f(1,3) by (metis eq_key_imp_eq_value fish_gone_def)
      then show ?thesis using f c(2,3) by (auto simp: held_def)
    qed (use f in \<open>auto simp: held_def\<close>)
  qed
  then show ?thesis using assms w by (auto simp: hunt_ok_def)
qed

lemma bullet_turn:
  assumes "hunt_ok h"
  shows "\<exists>p l. bullet_walk t (h_bwalk h) (h_bullets h) = Inr (p, l) \<and> hunt_ok (h\<lparr>h_bwalk := p, h_bullets := l\<rparr>)"
proof -
  have bok: "bullets_ok (h_bullets h)" and st: "stands (nl_items (h_bullets h)) (h_bwalk h)" using assms by (simp_all add: hunt_ok_def)
  obtain p l where "bullet_walk t (h_bwalk h) (h_bullets h) = Inr (p, l)" "bullets_ok l" "stands (nl_items l) p"
    using bullets.walk_ok [OF bok st, of bullet_locked "bullet_stale t"] unfolding bullet_walk_def by blast
  then show ?thesis using assms by (auto simp: hunt_ok_def)
qed

lemma stands_first: "stands xs (Stand (first (map fst xs)))" "stands xs (Stand None)"
  by (cases xs) (auto simp: stands_def)

lemma stands_more: "stands xs p \<Longrightarrow> stands (xs @ ys) p"
  by (auto simp: stands_def split: option.splits)

lemma hunt_step_ok: "hunt_step uid h h' \<Longrightarrow> hunt_ok h \<Longrightarrow> hunt_ok h'"
proof (induction rule: hunt_step.induct)
  case (hit e h h')
  then show ?case using hit_turn_ok by blast
next
  case (bullets t h p l)
  then show ?case using bullet_turn [of h t] by simp
next
  case (fishes h p l)
  then show ?case using fish_turn [of h] by simp
next
  case (bullets_again h)
  then show ?case using bullets.start_law [of "h_bullets h"] stands_first by (auto simp: hunt_ok_def)
next
  case (fishes_again h)
  then show ?case using fishs.start_law [of "h_fishs h"] stands_first by (auto simp: hunt_ok_def)
next
  case (fish_made h a n rs st t r l)
  then have "fishs_ok l \<and> (\<exists>f. nl_items l = nl_items (h_fishs h) @ [(a, f)])"
    using fishs_create_keeps [of "h_fishs h" n a rs st t r l] by (auto simp: hunt_ok_def)
  then show ?case using fish_made.prems fish_made.hyps(1) stands_first(2) by (auto simp: hunt_ok_def held_def)
next
  case (shot h a n x y angle t b l)
  then have "bullets_ok l \<and> (\<exists>e. nl_items l = nl_items (h_bullets h) @ [(a, e)])"
    using bullets_create_ok [of "h_bullets h" a n "Suc n" uid x y angle t] by (auto simp: hunt_ok_def)
  then show ?case using shot.prems shot.hyps(1) stands_more by (auto simp: hunt_ok_def)
next
  case (message h js)
  then show ?case by (simp add: hunt_ok_def)
qed

section \<open>Where a hit can fail\<close>

text \<open>
  Faults of the message and not of the lists: a number that cannot be read, an angle that is
  missing, an answer that does not fit into its buffer.
\<close>

definition misread :: "'f env \<Rightarrow> int \<Rightarrow> 'f hunt \<Rightarrow> fault \<Rightarrow> bool" where
  "misread e uid h x \<longleftrightarrow> (case h_at h of
       FindBullet \<Rightarrow> valueToInt (h_msg h) ''bullet_id'' = Inl x
     | FindFish b \<Rightarrow> valueToInt (h_msg h) ''fish_id'' = Inl x
     | HitFish b a \<Rightarrow> (\<exists>f. (a, f) \<in> set (nl_items (h_fishs h)) \<and> hit_answer e uid (h_msg h) (hit_user f (h_user h)) f = Inl x)
     | _ \<Rightarrow> False)"

lemma hunter_fault:
  assumes "hunt_ok h" "roomy e h" "hunter_stmt e uid h = Inl x"
  shows "misread e uid h x \<or> x = UseAfterFree \<and> (\<exists>b a. h_at h = FreeFish b a \<and> a \<notin> fst ` set (nl_items (h_fishs h)) \<or>
    (h_at h = KillBullet b \<or> h_at h = FreeBullet b) \<and> b \<notin> fst ` set (nl_items (h_bullets h)))"
proof -
  have fok: "fishs_ok (h_fishs h)" "nl_ok (h_fishs h)" and bok: "bullets_ok (h_bullets h)" "nl_ok (h_bullets h)"
    using assms(1) by (simp_all add: hunt_ok_def fishs_ok_def bullets_ok_def)
  have fl: "length (nl_items (h_fishs h)) \<le> fuel e" and bl: "length (nl_items (h_bullets h)) \<le> fuel e" using assms(2) by (simp_all add: roomy_def)
  have held: "held (nl_items (h_fishs h)) a" if "h_at h = HitFish b a \<or> h_at h = KillFish b a" for b a
    using assms(1) that by (auto simp: hunt_ok_def)
  show ?thesis
  proof (cases "h_at h")
    case FindBullet
    then show ?thesis using assms(3) bullets_getBullet_own [OF bok(1) bl] by (auto simp: hunter_stmt_def rbind_eq_Inl misread_def)
  next
    case (FindFish b)
    show ?thesis
    proof (cases "valueToInt (h_msg h) ''fish_id''")
      case (Inl y)
      then show ?thesis using assms(3) FindFish by (simp add: hunter_stmt_def misread_def)
    next
      case (Inr fid)
      obtain r l where "fishs_getFish (fuel e) fid (h_fishs h) = Inr (r, l)" using getFish_takes [OF fok(1) fl] by blast
      then show ?thesis using assms(3) FindFish Inr by (simp add: hunter_stmt_def)
    qed
  next
    case (HitFish b a)
    then obtain f where f: "(a, f) \<in> set (nl_items (h_fishs h))" using held by (auto simp: held_def)
    then obtain xs ys where i: "nl_items (h_fishs h) = xs @ (a, f) # ys" by (auto dest: split_list)
    obtain l where "nl_put a (\<lambda>f. f\<lparr>f_hit_coin := i32 (f_hit_coin f + 1)\<rparr>) (h_fishs h) = Inr l"
      using nl_put_items [OF fok(2) i] by blast
    then have "hit_answer e uid (h_msg h) (hit_user f (h_user h)) f = Inl x"
      using assms(3) HitFish nl.look_law [OF fok(2) i] by (auto simp: hunter_stmt_def rbind_eq_Inl Let_def)
    then show ?thesis using f HitFish by (auto simp: misread_def)
  next
    case (KillFish b a)
    then have "a \<in> fst ` set (nl_items (h_fishs h))" using held by (force simp: held_def)
    then show ?thesis using assms(3) KillFish nl_put_there [OF fok(2), of a "\<lambda>f. f\<lparr>f_isdel := 1\<rparr>"] by (auto simp: hunter_stmt_def)
  next
    case (FreeFish b a)
    then show ?thesis using assms(3) nl_put_there [OF fok(2), of a "\<lambda>f. f\<lparr>f_lock := 0\<rparr>"]
      by (fastforce simp: hunter_stmt_def rbind_eq_Inl dest: nl_put_fault)
  next
    case (KillBullet b)
    then show ?thesis using assms(3) nl_put_there [OF bok(2), of b "\<lambda>b. b\<lparr>b_isdel := 1\<rparr>"]
      by (fastforce simp: hunter_stmt_def rbind_eq_Inl dest: nl_put_fault)
  next
    case (FreeBullet b)
    then show ?thesis using assms(3) nl_put_there [OF bok(2), of b "\<lambda>b. b\<lparr>b_lock := 0\<rparr>"]
      by (fastforce simp: hunter_stmt_def rbind_eq_Inl dest: nl_put_fault)
  next
    case HitDone
    then show ?thesis using assms(3) by (simp add: hunter_stmt_def)
  qed
qed

text \<open>
  C10: while nobody leaves the room, whatever turns the main thread and the two sweeping threads
  take, a walk never reads or frees a node that is not in its list; a fish that has been looked
  up stays in the list, locked and not deleted, until the hit has marked it as deleted; and a
  hit can fail in two ways only: by its message, when a number of it cannot be read, its angle is
  missing or the answer does not fit into 200 bytes; or at its last three statements,
  \<open>fish->lock = 0\<close>, \<open>bullet->isdel = 1\<close> and \<open>bullet->lock = 0\<close>, each by writing to an object that a
  sweep has taken away meanwhile.
\<close>

theorem hit_fails_late:
  assumes "bullets_ok (h_bullets h0)" "fishs_ok (h_fishs h0)" "h_at h0 = HitDone" "h_bwalk h0 = Stand None" "h_fwalk h0 = Stand None"
    and "(hunt_step uid)\<^sup>*\<^sup>* h0 h"
  shows "(\<forall>t. \<exists>p l. bullet_walk t (h_bwalk h) (h_bullets h) = Inr (p, l)) \<and> (\<exists>p l. fish_walk (h_fwalk h) (h_fishs h) = Inr (p, l)) \<and>
    (\<forall>b a. h_at h = HitFish b a \<or> h_at h = KillFish b a \<longrightarrow> (\<exists>f. (a, f) \<in> set (nl_items (h_fishs h)) \<and> f_lock f \<noteq> 0 \<and> f_isdel f = 0)) \<and>
    (\<forall>e x. roomy e h \<and> hunter_stmt e uid h = Inl x \<longrightarrow> misread e uid h x \<or> x = UseAfterFree \<and>
      (\<exists>b a. h_at h = FreeFish b a \<and> a \<notin> fst ` set (nl_items (h_fishs h)) \<or>
        (h_at h = KillBullet b \<or> h_at h = FreeBullet b) \<and> b \<notin> fst ` set (nl_items (h_bullets h))))"
proof -
  have "hunt_ok h0" using assms(1-5) by (simp add: hunt_ok_def stands_def)
  with assms(6) have ok: "hunt_ok h" by (induction rule: rtranclp_induct) (auto intro: hunt_step_ok)
  have "\<forall>b a. h_at h = HitFish b a \<or> h_at h = KillFish b a \<longrightarrow> (\<exists>f. (a, f) \<in> set (nl_items (h_fishs h)) \<and> f_lock f \<noteq> 0 \<and> f_isdel f = 0)"
    using ok by (auto simp: hunt_ok_def held_def)
  moreover have "\<exists>p l. bullet_walk t (h_bwalk h) (h_bullets h) = Inr (p, l)" for t using bullet_turn [OF ok] by blast
  moreover have "\<exists>p l. fish_walk (h_fwalk h) (h_fishs h) = Inr (p, l)" using fish_turn [OF ok] by blast
  moreover have "\<forall>e x. roomy e h \<and> hunter_stmt e uid h = Inl x \<longrightarrow> misread e uid h x \<or> x = UseAfterFree \<and>
      (\<exists>b a. h_at h = FreeFish b a \<and> a \<notin> fst ` set (nl_items (h_fishs h)) \<or>
        (h_at h = KillBullet b \<or> h_at h = FreeBullet b) \<and> b \<notin> fst ` set (nl_items (h_bullets h)))"
    using hunter_fault [OF ok] by blast
  ultimately show ?thesis by (intro conjI allI) blast+
qed

text \<open>The bullet or fish a walk has freed is written.\<close>

lemma unlink_frees: "nl_unlink a l = Inr (q, l') \<Longrightarrow> \<not> clearing l \<Longrightarrow> heap l' a = None"
  by (auto simp: nl_unlink_def free_node_def rbind_eq_Inr)

lemma put_freed: "heap l a = None \<Longrightarrow> nl_put a f l = Inl UseAfterFree"
  by (simp add: nl_put_def deref_def)

lemma fish_taken:
  assumes "fishs_ok l" "nl_items l = xs @ (a, f) # ys"
  shows "\<exists>l'. fish_walk (DropIt a) l = Inr (Stand (first (map fst ys)), l') \<and> heap l' a = None"
proof -
  obtain l' where l': "fishs_destroy a l = Inr (first (map fst ys), l')" using fishs.drop_law [OF assms] by blast
  then have "nl_unlink a l = Inr (first (map fst ys), l')" by (simp add: fishs_destroy_def split: if_splits)
  then show ?thesis using unlink_frees fishs.stopped_law [OF assms(1)] l' by (auto simp: fish_walk_def walk_stmt_def)
qed

lemma bullet_taken:
  assumes "bullets_ok l" "nl_items l = xs @ (a, b) # ys"
  shows "\<exists>l'. bullet_walk t (DropIt a) l = Inr (Stand (first (map fst ys)), l') \<and> heap l' a = None"
proof -
  obtain l' where l': "bullets_destroy a l = Inr (first (map fst ys), l')" using bullets.drop_law [OF assms] by blast
  then have "nl_unlink a l = Inr (first (map fst ys), l')" by (simp add: bullets_destroy_def split: if_splits)
  then show ?thesis using unlink_frees bullets.stopped_law [OF assms(1)] l' by (auto simp: bullet_walk_def walk_stmt_def)
qed

text \<open>The statements of a hit as turns.\<close>

lemma put_length: "nl_ok l \<Longrightarrow> nl_put a f l = Inr l' \<Longrightarrow> length (nl_items l') = length (nl_items l)"
  using nl_put_written by fastforce

lemma hit_turn_roomy:
  assumes "hunt_ok h" "roomy e h" "hunter_stmt e uid h = Inr h'"
  shows "roomy e h'"
proof -
  have fok: "fishs_ok (h_fishs h)" "nl_ok (h_fishs h)" and bok: "nl_ok (h_bullets h)"
    using assms(1) by (simp_all add: hunt_ok_def fishs_ok_def bullets_ok_def)
  have g: "length (nl_items l) = length (nl_items (h_fishs h))" if "fishs_getFish (fuel e) fid (h_fishs h) = Inr (r, l)" for fid r l
    using getFish_takes [OF fok(1), of "fuel e" fid] assms(2) that by (auto simp: roomy_def split: option.splits)
  show ?thesis using assms(2,3) put_length [OF fok(2)] put_length [OF bok]
    by (cases "h_at h") (auto simp: hunter_stmt_def rbind_eq_Inr Let_def roomy_def g split: option.splits)
qed

lemma hunter_turns:
  "hunter_run n e uid h = Inr h' \<Longrightarrow> hunt_ok h \<Longrightarrow> roomy e h \<Longrightarrow> (hunt_step uid)\<^sup>*\<^sup>* h h'"
proof (induction n arbitrary: h)
  case (Suc n)
  then obtain h1 where h1: "hunter_stmt e uid h = Inr h1" "hunter_run n e uid h1 = Inr h'" by (auto simp: rbind_eq_Inr)
  have "hunt_step uid h h1" by (rule hunt_step.hit [OF Suc.prems(3) h1(1)])
  moreover have "(hunt_step uid)\<^sup>*\<^sup>* h1 h'"
    by (rule Suc.IH [OF h1(2) hit_turn_ok [OF Suc.prems(2,3) h1(1)] hit_turn_roomy [OF Suc.prems(2,3) h1(1)]])
  ultimately show ?case by (rule converse_rtranclp_into_rtranclp)
qed simp

lemma bullet_found:
  assumes "bullets_ok (h_bullets h)" "nl_items (h_bullets h) = us @ (ba, b) # vs" "b_uid b = uid" "b_lock b = 0" "b_isdel b = 0"
    and "roomy e h" "valueToInt (h_msg h) ''bullet_id'' = Inr (b_id b)" "h_at h = FindBullet"
  shows "hunter_stmt e uid h = Inr (h\<lparr>h_at := FindFish ba\<rparr>)"
proof -
  have "bullets_getBullet (fuel e) (b_id b) uid (h_bullets h) = Inr (Some ba)"
    using bullets_getBullet_own [OF assms(1), of "fuel e"] find_bullet [OF assms(1,2), of "\<lambda>e. b_uid e = uid \<and> b_lock e = 0 \<and> b_isdel e = 0"] assms(3-6)
    by (simp add: roomy_def)
  then show ?thesis using assms(7,8) by (simp add: hunter_stmt_def)
qed

lemma fish_hit:
  assumes "fishs_ok (h_fishs h)" "nl_items (h_fishs h) = xs @ (fa, f) # ys" "f_lock f = 0" "f_isdel f = 0"
    and "roomy e h" "valueToInt (h_msg h) ''fish_id'' = Inr (f_id f)" "h_at h = FindFish ba"
    and "hit_answer e uid (h_msg h) (hit_user f (h_user h)) f = Inr s"
  shows "\<exists>l l'. hunter_run 3 e uid h = Inr (h\<lparr>h_fishs := l, h_user := hit_user f (h_user h), h_said := h_said h @ [s], h_at := FreeFish ba fa\<rparr>) \<and>
    fishs_ok l \<and> nl_items l = xs @ (fa, (hit_mark f)\<lparr>f_lock := 1\<rparr>) # ys \<and> nl_put fa (\<lambda>f. f\<lparr>f_lock := 0\<rparr>) l = Inr l'"
proof -
  let ?f1 = "f\<lparr>f_lock := 1\<rparr>"
  obtain l1 where l1: "fishs_getFish (fuel e) (f_id f) (h_fishs h) = Inr (Some fa, l1)" "fishs_ok l1" "nl_items l1 = xs @ (fa, ?f1) # ys"
    using fishs_getFish_locks [OF assms(1-4)] assms(5) by (auto simp: roomy_def)
  have lk: "nl_look l1 fa = Inr (?f1, first (map fst ys))" by (rule fishs.look_law [OF l1(2,3)])
  obtain l2 where l2: "nl_put fa (\<lambda>f. f\<lparr>f_hit_coin := i32 (f_hit_coin f + 1)\<rparr>) l1 = Inr l2" "fishs_ok l2"
    "nl_items l2 = xs @ (fa, ?f1\<lparr>f_hit_coin := i32 (f_hit_coin f + 1)\<rparr>) # ys"
    using fishs_put_ok [OF l1(2,3), of "\<lambda>f. f\<lparr>f_hit_coin := i32 (f_hit_coin f + 1)\<rparr>"] by auto
  obtain l3 where l3: "nl_put fa (\<lambda>f. f\<lparr>f_isdel := 1\<rparr>) l2 = Inr l3" "fishs_ok l3" "nl_items l3 = xs @ (fa, (hit_mark f)\<lparr>f_lock := 1\<rparr>) # ys"
    using fishs_put_ok [OF l2(2,3), of "\<lambda>f. f\<lparr>f_isdel := 1\<rparr>"] by (auto simp: hit_mark_def)
  obtain l4 where "nl_put fa (\<lambda>f. f\<lparr>f_lock := 0\<rparr>) l3 = Inr l4" using fishs_put_ok [OF l3(2,3), of "\<lambda>f. f\<lparr>f_lock := 0\<rparr>"] by auto
  moreover have "hit_user ?f1 = hit_user f" "hit_answer e uid js u ?f1 = hit_answer e uid js u f" for js u
    by (auto simp: hit_user_def hit_answer_def)
  ultimately show ?thesis using l1(1) lk l2(1) l3 assms(6-8)
    by (intro exI [of _ l3] exI [of _ l4]) (simp add: hunter_stmt_def eval_nat_numeral Let_def)
qed

text \<open>A walk that finds a node unlocked and then dead takes it away.\<close>

lemma fish_tested:
  assumes "fishs_ok l" "nl_items l = (a, f) # ys"
  shows "f_lock f = 0 \<Longrightarrow> fish_walk (TestLock a) l = Inr (TestDead a, l)" "f_isdel f \<noteq> 0 \<Longrightarrow> fish_walk (TestDead a) l = Inr (DropIt a, l)"
    "fish_walk (Stand (fishs_getHead l)) l = Inr (TestLock a, l)"
  using fishs.look_law [OF assms(1), of "[]" a f ys] assms(2) fishs.start_law [OF assms(1)] fishs.stopped_law [OF assms(1)]
  by (simp_all add: fish_walk_def walk_stmt_def fish_locked_def fish_gone_def)

lemma bullet_tested:
  assumes "bullets_ok l" "nl_items l = (a, b) # ys"
  shows "b_lock b = 0 \<Longrightarrow> bullet_walk t (TestLock a) l = Inr (TestDead a, l)" "bullet_stale t b \<Longrightarrow> bullet_walk t (TestDead a) l = Inr (DropIt a, l)"
    "bullet_walk t (Stand (bullets_getHead l)) l = Inr (TestLock a, l)"
  using bullets.look_law [OF assms(1), of "[]" a b ys] assms(2) bullets.start_law [OF assms(1)] bullets.stopped_law [OF assms(1)]
  by (simp_all add: bullet_walk_def walk_stmt_def bullet_locked_def)

lemma fish_walks:
  "fish_walk p (h_fishs h) = Inr (q, l) \<Longrightarrow> h_fwalk h = p \<Longrightarrow> h' = h\<lparr>h_fwalk := q, h_fishs := l\<rparr> \<Longrightarrow> (hunt_step uid)\<^sup>*\<^sup>* h0 h \<Longrightarrow> (hunt_step uid)\<^sup>*\<^sup>* h0 h'"
  by (metis hunt_step.fishes rtranclp.rtrancl_into_rtrancl)

lemma bullet_walks:
  "bullet_walk t p (h_bullets h) = Inr (q, l) \<Longrightarrow> h_bwalk h = p \<Longrightarrow> h' = h\<lparr>h_bwalk := q, h_bullets := l\<rparr> \<Longrightarrow> (hunt_step uid)\<^sup>*\<^sup>* h0 h \<Longrightarrow> (hunt_step uid)\<^sup>*\<^sup>* h0 h'"
  by (metis hunt_step.bullets rtranclp.rtrancl_into_rtrancl)

lemma walk_on:
  "fish_walk p (h_fishs h) = Inr (q, h_fishs h) \<Longrightarrow> h_fwalk h = p \<Longrightarrow> h' = h\<lparr>h_fwalk := q\<rparr> \<Longrightarrow> (hunt_step uid)\<^sup>*\<^sup>* h0 h \<Longrightarrow> (hunt_step uid)\<^sup>*\<^sup>* h0 h'"
  "bullet_walk t r (h_bullets h) = Inr (s, h_bullets h) \<Longrightarrow> h_bwalk h = r \<Longrightarrow> h' = h\<lparr>h_bwalk := s\<rparr> \<Longrightarrow> (hunt_step uid)\<^sup>*\<^sup>* h0 h \<Longrightarrow> (hunt_step uid)\<^sup>*\<^sup>* h0 h'"
  by (cases h, rule fish_walks, simp_all) (cases h, rule bullet_walks, simp_all)

lemma message_turn: "h_at h = HitDone \<Longrightarrow> h' = h\<lparr>h_at := FindBullet, h_msg := js\<rparr> \<Longrightarrow> (hunt_step uid)\<^sup>*\<^sup>* h h'"
  by (simp add: hunt_step.message r_into_rtranclp)

text \<open>The bullet taken away in one go, by a walk that is between two passes.\<close>

lemma bullet_swept:
  assumes "bullets_ok (h_bullets h)" "nl_items (h_bullets h) = (ba, b) # vs" "b_lock b = 0" "bullet_stale t b" "h_bwalk h = Stand None"
  shows "\<exists>q l. (hunt_step uid)\<^sup>*\<^sup>* h (h\<lparr>h_bwalk := q, h_bullets := l\<rparr>) \<and> heap l ba = None"
proof -
  let ?l = "h_bullets h"
  note bt = bullet_tested [OF assms(1,2)]
  obtain l where l: "bullet_walk t (DropIt ba) ?l = Inr (Stand (first (map fst vs)), l)" "heap l ba = None"
    using bullet_taken [OF assms(1), of "[]" ba b vs] assms(2) by auto
  have "(hunt_step uid)\<^sup>*\<^sup>* h (h\<lparr>h_bwalk := Stand (bullets_getHead ?l)\<rparr>)" using hunt_step.bullets_again [OF assms(5)] by (rule r_into_rtranclp)
  then have "(hunt_step uid)\<^sup>*\<^sup>* h (h\<lparr>h_bwalk := TestLock ba\<rparr>)" by (rule walk_on(2) [rotated 3]) (use bt(3) in simp_all)
  then have "(hunt_step uid)\<^sup>*\<^sup>* h (h\<lparr>h_bwalk := TestDead ba\<rparr>)" by (rule walk_on(2) [rotated 3]) (use bt(1) assms(3) in simp_all)
  then have "(hunt_step uid)\<^sup>*\<^sup>* h (h\<lparr>h_bwalk := DropIt ba\<rparr>)" by (rule walk_on(2) [rotated 3]) (use bt(2) assms(4) in simp_all)
  then have "(hunt_step uid)\<^sup>*\<^sup>* h (h\<lparr>h_bwalk := Stand (first (map fst vs)), h_bullets := l\<rparr>)" by (rule bullet_walks [rotated 3]) (use l(1) in simp_all)
  then show ?thesis using l(2) by blast
qed

section \<open>A hit that fails\<close>

text \<open>A message that hits the first fish with the sender's first bullet.\<close>

definition good_shot :: "'f env \<Rightarrow> int \<Rightarrow> phead \<Rightarrow> 'f hunt \<Rightarrow> nat \<times> Fish \<Rightarrow> nat \<times> 'f Bullet \<Rightarrow> bool" where
  "good_shot e uid js h x y \<longleftrightarrow> bullets_ok (h_bullets h) \<and> fishs_ok (h_fishs h) \<and> h_at h = HitDone \<and> h_bwalk h = Stand None \<and> h_fwalk h = Stand None \<and>
     roomy e h \<and> (\<exists>xs. nl_items (h_fishs h) = x # xs) \<and> f_lock (snd x) = 0 \<and> f_isdel (snd x) = 0 \<and>
     (\<exists>ys. nl_items (h_bullets h) = y # ys) \<and> b_uid (snd y) = uid \<and> b_lock (snd y) = 0 \<and> b_isdel (snd y) = 0 \<and>
     valueToInt js ''bullet_id'' = Inr (b_id (snd y)) \<and> valueToInt js ''fish_id'' = Inr (f_id (snd x)) \<and>
     (\<exists>s. hit_answer e uid js (hit_user (snd x) (h_user h)) (snd x) = Inr s)"

lemma good_shot_starts:
  assumes "good_shot e uid js h (fa, f) (ba, b)"
  shows "hunt_ok (h\<lparr>h_msg := js, h_at := FindFish ba\<rparr>)" "roomy e (h\<lparr>h_msg := js, h_at := FindFish ba\<rparr>)"
    "(hunt_step uid)\<^sup>*\<^sup>* h (h\<lparr>h_msg := js, h_at := FindFish ba\<rparr>)"
proof -
  let ?h = "h\<lparr>h_at := FindBullet, h_msg := js\<rparr>"
  obtain ys where y: "nl_items (h_bullets h) = [] @ (ba, b) # ys" using assms by (auto simp: good_shot_def)
  have "hunter_stmt e uid ?h = Inr (?h\<lparr>h_at := FindFish ba\<rparr>)"
    using assms y by (intro bullet_found [of _ "[]" ba b ys]) (simp_all add: good_shot_def roomy_def)
  moreover have r: "roomy e ?h" using assms by (simp add: good_shot_def roomy_def)
  ultimately have "hunt_step uid ?h (?h\<lparr>h_at := FindFish ba\<rparr>)" by (intro hunt_step.hit)
  moreover have "hunt_step uid h ?h" using assms by (intro hunt_step.message) (simp add: good_shot_def)
  ultimately show "(hunt_step uid)\<^sup>*\<^sup>* h (h\<lparr>h_msg := js, h_at := FindFish ba\<rparr>)" by simp
  show "hunt_ok (h\<lparr>h_msg := js, h_at := FindFish ba\<rparr>)" using assms by (simp add: good_shot_def hunt_ok_def stands_def)
  show "roomy e (h\<lparr>h_msg := js, h_at := FindFish ba\<rparr>)" using r by (simp add: roomy_def)
qed

text \<open>From the look-up of the fish on, whatever the walks and the bullets are.\<close>

lemma good_shot_hits:
  assumes "good_shot e uid js h (fa, f) (ba, b)" "hunt_ok h1" "roomy e h1"
    and "h_fishs h1 = h_fishs h" "h_user h1 = h_user h" "h_msg h1 = js" "h_at h1 = FindFish ba"
  shows "\<exists>s l l' xs. (hunt_step uid)\<^sup>*\<^sup>* h1 (h1\<lparr>h_fishs := l, h_user := hit_user f (h_user h), h_said := s, h_at := FreeFish ba fa\<rparr>) \<and>
    (hunt_step uid)\<^sup>*\<^sup>* h1 (h1\<lparr>h_fishs := l', h_user := hit_user f (h_user h), h_said := s, h_at := KillBullet ba\<rparr>) \<and>
    fishs_ok l \<and> nl_items l = (fa, (hit_mark f)\<lparr>f_lock := 1\<rparr>) # xs"
proof -
  obtain s ys where s: "hit_answer e uid js (hit_user f (h_user h)) f = Inr s" "nl_items (h_fishs h) = [] @ (fa, f) # ys"
    using assms(1) by (auto simp: good_shot_def)
  obtain l l' where l: "hunter_run 3 e uid h1 = Inr (h1\<lparr>h_fishs := l, h_user := hit_user f (h_user h), h_said := h_said h1 @ [s], h_at := FreeFish ba fa\<rparr>)"
    "fishs_ok l" "nl_items l = [] @ (fa, (hit_mark f)\<lparr>f_lock := 1\<rparr>) # ys" "nl_put fa (\<lambda>f. f\<lparr>f_lock := 0\<rparr>) l = Inr l'"
    using fish_hit [of h1 "[]" fa f ys e ba uid s] assms s by (auto simp: good_shot_def)
  let ?h2 = "h1\<lparr>h_fishs := l, h_user := hit_user f (h_user h), h_said := h_said h1 @ [s], h_at := FreeFish ba fa\<rparr>"
  have st: "(hunt_step uid)\<^sup>*\<^sup>* h1 ?h2" by (rule hunter_turns [OF l(1) assms(2,3)])
  have "roomy e ?h2" using assms(1,3,4) l(3) s(2) by (simp add: roomy_def)
  then have "hunt_step uid ?h2 (?h2\<lparr>h_fishs := l', h_at := KillBullet ba\<rparr>)"
    by (rule hunt_step.hit) (simp add: hunter_stmt_def l(4))
  then have "(hunt_step uid)\<^sup>*\<^sup>* h1 (h1\<lparr>h_fishs := l', h_user := hit_user f (h_user h), h_said := h_said h1 @ [s], h_at := KillBullet ba\<rparr>)"
    using rtranclp.rtrancl_into_rtrancl [OF st] by (cases h1) simp
  then show ?thesis using st l(2,3) by auto
qed

text \<open>The fish thread has found the fish unlocked before it is looked up, and finds it deleted after the hit.\<close>

lemma good_shot_tested:
  assumes "good_shot e uid js h (fa, f) (ba, b)"
  shows "\<exists>h2. (hunt_step uid)\<^sup>*\<^sup>* h h2 \<and> hunt_ok h2 \<and> roomy e h2 \<and> h_fishs h2 = h_fishs h \<and> h_user h2 = h_user h \<and> h_msg h2 = js \<and>
    h_at h2 = FindFish ba \<and> h_fwalk h2 = TestDead fa"
proof -
  let ?h1 = "h\<lparr>h_msg := js, h_at := FindFish ba\<rparr>"
  note st = good_shot_starts [OF assms]
  obtain ys where i: "fishs_ok (h_fishs h)" "nl_items (h_fishs h) = (fa, f) # ys" "f_lock f = 0" using assms by (auto simp: good_shot_def)
  note ft = fish_tested [OF i(1,2)]
  have "(hunt_step uid)\<^sup>*\<^sup>* h (?h1\<lparr>h_fwalk := Stand (fishs_getHead (h_fishs h))\<rparr>)"
    using rtranclp.rtrancl_into_rtrancl [OF st(3) hunt_step.fishes_again] assms by (simp add: good_shot_def)
  then have "(hunt_step uid)\<^sup>*\<^sup>* h (?h1\<lparr>h_fwalk := TestLock fa\<rparr>)" by (rule walk_on(1) [rotated 3]) (use ft(3) in simp_all)
  then have s2: "(hunt_step uid)\<^sup>*\<^sup>* h (?h1\<lparr>h_fwalk := TestDead fa\<rparr>)" by (rule walk_on(1) [rotated 3]) (use ft(1) i(3) in simp_all)
  moreover have "hunt_ok (?h1\<lparr>h_fwalk := TestDead fa\<rparr>)" "roomy e (?h1\<lparr>h_fwalk := TestDead fa\<rparr>)"
    using st(1,2) i(2) by (simp_all add: hunt_ok_def stands_def roomy_def)
  ultimately show ?thesis by (intro exI [of _ "?h1\<lparr>h_fwalk := TestDead fa\<rparr>"]) simp
qed

lemma fish_freed_early:
  assumes "good_shot e uid js h (fa, f) (ba, b)"
  shows "\<exists>h'. (hunt_step uid)\<^sup>*\<^sup>* h h' \<and> h_at h' = FreeFish ba fa \<and> h_user h' = hit_user f (h_user h) \<and> (\<forall>e'. hunter_stmt e' uid h' = Inl UseAfterFree)"
proof -
  obtain h2 where s2: "(hunt_step uid)\<^sup>*\<^sup>* h h2" and o: "hunt_ok h2" "roomy e h2"
    and e: "h_fishs h2 = h_fishs h" "h_user h2 = h_user h" "h_msg h2 = js" "h_at h2 = FindFish ba" and w: "h_fwalk h2 = TestDead fa"
    using good_shot_tested [OF assms] by blast
  obtain s l xs where l: "(hunt_step uid)\<^sup>*\<^sup>* h2 (h2\<lparr>h_fishs := l, h_user := hit_user f (h_user h), h_said := s, h_at := FreeFish ba fa\<rparr>)"
    "fishs_ok l" "nl_items l = (fa, (hit_mark f)\<lparr>f_lock := 1\<rparr>) # xs"
    using good_shot_hits [OF assms o e] by blast
  define h3 where "h3 = h2\<lparr>h_fishs := l, h_user := hit_user f (h_user h), h_said := s, h_at := FreeFish ba fa\<rparr>"
  have h3: "h_fishs h3 = l" "h_fwalk h3 = TestDead fa" "h_at h3 = FreeFish ba fa" "h_user h3 = hit_user f (h_user h)" by (simp_all add: h3_def w)
  have s3: "(hunt_step uid)\<^sup>*\<^sup>* h h3" unfolding h3_def by (rule rtranclp_trans [OF s2 l(1)])
  have "fish_walk (TestDead fa) l = Inr (DropIt fa, l)" by (rule fish_tested(2) [OF l(2,3)]) (simp add: hit_mark_def)
  then have s4: "(hunt_step uid)\<^sup>*\<^sup>* h (h3\<lparr>h_fwalk := DropIt fa\<rparr>)" by (intro walk_on(1) [OF _ h3(2) refl s3]) (simp add: h3(1))
  obtain q l' where q: "fish_walk (DropIt fa) l = Inr (q, l')" "heap l' fa = None"
    using fish_taken [OF l(2), of "[]" fa] l(3) by auto
  have "(hunt_step uid)\<^sup>*\<^sup>* h (h3\<lparr>h_fwalk := q, h_fishs := l'\<rparr>)" by (rule fish_walks [OF _ _ _ s4]) (simp_all add: q(1) h3(1))
  then show ?thesis using q(2) h3 by (intro exI [of _ "h3\<lparr>h_fwalk := q, h_fishs := l'\<rparr>"]) (simp add: hunter_stmt_def put_freed)
qed

text \<open>The bullet's ten seconds end between the look-up of the bullet and the end of the hit.\<close>

lemma bullet_freed_early:
  assumes "good_shot e uid js h (fa, f) (ba, b)"
  shows "\<exists>h'. (hunt_step uid)\<^sup>*\<^sup>* h h' \<and> h_at h' = KillBullet ba \<and> h_user h' = hit_user f (h_user h) \<and> (\<forall>e'. hunter_stmt e' uid h' = Inl UseAfterFree)"
proof -
  let ?h1 = "h\<lparr>h_msg := js, h_at := FindFish ba\<rparr>"
  note st = good_shot_starts [OF assms]
  obtain ys where i: "bullets_ok (h_bullets h)" "nl_items (h_bullets h) = (ba, b) # ys" "b_lock b = 0" "h_bwalk h = Stand None"
    using assms by (auto simp: good_shot_def)
  obtain s l' where l: "(hunt_step uid)\<^sup>*\<^sup>* ?h1 (?h1\<lparr>h_fishs := l', h_user := hit_user f (h_user h), h_said := s, h_at := KillBullet ba\<rparr>)"
    using good_shot_hits [OF assms st(1,2)] by auto
  let ?h2 = "?h1\<lparr>h_fishs := l', h_user := hit_user f (h_user h), h_said := s, h_at := KillBullet ba\<rparr>"
  have t: "bullet_stale (b_create_time b + 10000001) b" by (simp add: bullet_stale_def)
  obtain q bl where q: "(hunt_step uid)\<^sup>*\<^sup>* ?h2 (?h2\<lparr>h_bwalk := q, h_bullets := bl\<rparr>)" "heap bl ba = None"
    using bullet_swept [where h = ?h2 and ba = ba and vs = ys and uid = uid, OF _ _ i(3) t] i(1,2,4) by auto
  have "(hunt_step uid)\<^sup>*\<^sup>* h (?h2\<lparr>h_bwalk := q, h_bullets := bl\<rparr>)" by (rule rtranclp_trans [OF rtranclp_trans [OF st(3) l] q(1)])
  then show ?thesis using q(2) by (intro exI [of _ "?h2\<lparr>h_bwalk := q, h_bullets := bl\<rparr>"]) (simp add: hunter_stmt_def put_freed)
qed

text \<open>The bullet is marked as deleted and taken away before its lock is written; it was never locked.\<close>

lemma bullet_freed_late:
  assumes "good_shot e uid js h (fa, f) (ba, b)"
  shows "\<exists>h'. (hunt_step uid)\<^sup>*\<^sup>* h h' \<and> h_at h' = FreeBullet ba \<and> h_user h' = hit_user f (h_user h) \<and> (\<forall>e'. hunter_stmt e' uid h' = Inl UseAfterFree)"
proof -
  let ?h1 = "h\<lparr>h_msg := js, h_at := FindFish ba\<rparr>" and ?b = "b\<lparr>b_isdel := 1\<rparr>"
  note st = good_shot_starts [OF assms]
  obtain ys where i: "bullets_ok (h_bullets h)" "nl_items (h_bullets h) = [] @ (ba, b) # ys" "b_lock b = 0" "h_bwalk h = Stand None"
    using assms by (auto simp: good_shot_def)
  obtain s l' where l: "(hunt_step uid)\<^sup>*\<^sup>* ?h1 (?h1\<lparr>h_fishs := l', h_user := hit_user f (h_user h), h_said := s, h_at := KillBullet ba\<rparr>)"
    using good_shot_hits [OF assms st(1,2)] by auto
  let ?h2 = "?h1\<lparr>h_fishs := l', h_user := hit_user f (h_user h), h_said := s, h_at := KillBullet ba\<rparr>"
  obtain l1 where l1: "nl_put ba (\<lambda>b. b\<lparr>b_isdel := 1\<rparr>) (h_bullets h) = Inr l1" "bullets_ok l1" "nl_items l1 = [] @ (ba, ?b) # ys"
    using bullets_put_ok [OF i(1,2), of "\<lambda>b. b\<lparr>b_isdel := 1\<rparr>"] by auto
  let ?h3 = "?h2\<lparr>h_bullets := l1, h_at := FreeBullet ba\<rparr>"
  obtain e2 :: "'a env" where e2: "roomy e2 ?h2"
    by (rule that [of "e\<lparr>fuel := length (nl_items (h_bullets h)) + length (nl_items l')\<rparr>"]) (simp add: roomy_def)
  have "hunter_stmt e2 uid ?h2 = Inr ?h3" by (simp add: hunter_stmt_def l1(1))
  then have s3: "hunt_step uid ?h2 ?h3" by (rule hunt_step.hit [OF e2])
  have t: "bullet_stale 0 ?b" "b_lock ?b = 0" using i(3) by (simp_all add: bullet_stale_def)
  obtain q bl where q: "(hunt_step uid)\<^sup>*\<^sup>* ?h3 (?h3\<lparr>h_bwalk := q, h_bullets := bl\<rparr>)" "heap bl ba = None"
    using bullet_swept [where h = ?h3 and ba = ba and vs = ys and uid = uid, OF _ _ t(2,1)] l1(2,3) i(4) by auto
  have "(hunt_step uid)\<^sup>*\<^sup>* h (?h3\<lparr>h_bwalk := q, h_bullets := bl\<rparr>)"
    by (rule rtranclp_trans [OF rtranclp.rtrancl_into_rtrancl [OF rtranclp_trans [OF st(3) l] s3] q(1)])
  then show ?thesis using q(2) by (intro exI [of _ "?h3\<lparr>h_bwalk := q, h_bullets := bl\<rparr>"]) (simp add: hunter_stmt_def put_freed)
qed

text \<open>
  C11: each of the three does fail. A player hits the first fish of the room with an own bullet,
  as \<open>hitFish\<close> expects it. The fish thread may have found the fish unlocked just before the hit
  locks it and find it deleted just after: \<open>fish->lock = 0\<close> then writes to a freed fish, although the
  fish was locked. The bullet is never locked: it may expire during the hit, or be taken away
  between the last two statements. Each time the hit has been paid before.
\<close>

theorem hit_races_sweeps:
  assumes "good_shot e uid js h (fa, f) (ba, b)"
  shows "(\<exists>h'. (hunt_step uid)\<^sup>*\<^sup>* h h' \<and> h_at h' = FreeFish ba fa \<and> h_user h' = hit_user f (h_user h) \<and> (\<forall>e. hunter_stmt e uid h' = Inl UseAfterFree)) \<and>
    (\<exists>h'. (hunt_step uid)\<^sup>*\<^sup>* h h' \<and> h_at h' = KillBullet ba \<and> h_user h' = hit_user f (h_user h) \<and> (\<forall>e. hunter_stmt e uid h' = Inl UseAfterFree)) \<and>
    (\<exists>h'. (hunt_step uid)\<^sup>*\<^sup>* h h' \<and> h_at h' = FreeBullet ba \<and> h_user h' = hit_user f (h_user h) \<and> (\<forall>e. hunter_stmt e uid h' = Inl UseAfterFree))"
  using fish_freed_early [OF assms] bullet_freed_early [OF assms] bullet_freed_late [OF assms] by (intro conjI)

definition sample_hunt :: "int hunt" where
  "sample_hunt = \<lparr>h_bullets = one_bullet, h_fishs = one_fish, h_user = sample_user, h_msg = None, h_said = [], h_at = HitDone, h_bwalk = Stand None, h_fwalk = Stand None\<rparr>"

definition sample_hit :: phead where
  "sample_hit = msg [(''bullet_id'', ''3''), (''fish_id'', ''1''), (''bx'', ''5''), (''by'', ''6''), (''fx'', ''7''), (''fy'', ''8''), (''fag'', ''9'')]"

lemma sample_hit_good:
  "good_shot sample_env 7 sample_hit sample_hunt (11, new_fish (\<lambda>_. 7) 1 0 \<lparr>fish_id = 1, fish_no = 2, fish_coin = 3\<rparr>)
    (21, \<lparr>b_id = 3, b_uid = 7, b_x = 0, b_y = 0, b_angle = 45, b_create_time = 0, b_lock = 0, b_isdel = 0\<rparr>)"
proof -
  let ?f = "new_fish (\<lambda>_. 7) 1 0 \<lparr>fish_id = 1, fish_no = 2, fish_coin = 3\<rparr>"
  have f: "f_id ?f = 1" "f_lock ?f = 0" "f_isdel ?f = 0" "f_type ?f = 7" "f_fish ?f = \<lparr>fish_id = 1, fish_no = 2, fish_coin = 3\<rparr>"
    by (simp_all add: new_fish_def Let_def my_random_def c_mod_nonneg)
  have co: "u_coin (hit_user ?f sample_user) = 33" by (simp add: hit_user_def f sample_user_def i32_id)
  have js: "valueToInt sample_hit ''bullet_id'' = Inr 3" "valueToInt sample_hit ''fish_id'' = Inr 1" "valueToInt sample_hit ''bx'' = Inr 5"
    "valueToInt sample_hit ''by'' = Inr 6" "valueToInt sample_hit ''fx'' = Inr 7" "valueToInt sample_hit ''fy'' = Inr 8"
    "valueToFloat (atof sample_env) sample_hit ''fag'' = Inr 9"
    by (simp_all add: sample_hit_def valueToInt_def valueToFloat_def sample_eval sample_env_def atoi_def is_space_def digit_def digit_val_def saturate_def)
  have sh: "show2 sample_env 9 = ''9''" by code_simp
  have "length (hit_fish_text 7 33 3 5 6 1 7 8 ''9'' 7) < 200" by code_simp
  then have "\<exists>s. hit_answer sample_env 7 sample_hit (hit_user ?f sample_user) ?f = Inr s" by (simp add: hit_answer_def js sh co f sprintf_buf_def)
  then show ?thesis using one_fish_ok one_bullet_ok f js by (simp add: good_shot_def sample_hunt_def roomy_def sample_env_def)
qed

lemma hit_races_sweeps_witness:
  "\<exists>h'. (hunt_step 7)\<^sup>*\<^sup>* sample_hunt h' \<and> h_at h' = FreeFish 21 11 \<and> hunter_stmt sample_env 7 h' = Inl UseAfterFree"
  using hit_races_sweeps [OF sample_hit_good] by blast

lemma hit_fails_late_witness:
  "\<exists>h f. (hunt_step 7)\<^sup>*\<^sup>* sample_hunt h \<and> h_at h = HitFish 21 11 \<and> (11, f) \<in> set (nl_items (h_fishs h)) \<and> f_lock f \<noteq> 0 \<and> f_isdel f = 0"
proof -
  let ?f = "new_fish (\<lambda>_. 7) 1 0 \<lparr>fish_id = 1, fish_no = 2, fish_coin = 3\<rparr>" and ?h = "sample_hunt\<lparr>h_msg := sample_hit, h_at := FindFish 21\<rparr>"
  note g = sample_hit_good and s = good_shot_starts [OF sample_hit_good]
  have "fishs_ok one_fish" "nl_items one_fish = [] @ (11, ?f) # []" "f_lock ?f = 0" "f_isdel ?f = 0" "valueToInt sample_hit ''fish_id'' = Inr (f_id ?f)"
    using g one_fish_ok by (auto simp: good_shot_def)
  then obtain l where "fishs_getFish (fuel sample_env) (f_id ?f) one_fish = Inr (Some 11, l)" "valueToInt sample_hit ''fish_id'' = Inr (f_id ?f)"
    using fishs_getFish_locks [of one_fish "[]" 11 ?f "[]" "fuel sample_env"] one_fish_ok by (auto simp: sample_env_def)
  then have "hunter_stmt sample_env 7 ?h = Inr (?h\<lparr>h_fishs := l, h_at := HitFish 21 11\<rparr>)" by (simp add: hunter_stmt_def sample_hunt_def)
  then have r: "(hunt_step 7)\<^sup>*\<^sup>* sample_hunt (?h\<lparr>h_fishs := l, h_at := HitFish 21 11\<rparr>)"
    using rtranclp.rtrancl_into_rtrancl [OF s(3) hunt_step.hit [OF s(2)]] by blast
  have "bullets_ok (h_bullets sample_hunt)" "fishs_ok (h_fishs sample_hunt)" "h_at sample_hunt = HitDone" "h_bwalk sample_hunt = Stand None" "h_fwalk sample_hunt = Stand None"
    using g by (simp_all add: good_shot_def)
  from hit_fails_late [OF this r] show ?thesis using r by (intro exI [of _ "?h\<lparr>h_fishs := l, h_at := HitFish 21 11\<rparr>"]) simp
qed

end
