(* ===== verification/SaveRaces.thy ===== *)
theory SaveRaces
  imports Threads
begin

text \<open>
  Saving the coins of a user (\<open>src/source/user.hpp\<close>, lines 261 to 269) between threads. The thread
  that saves users from time to time, the thread of a user who has left and the main thread, which
  pays and takes coins, share the user; the balance in the data base is changed by others as well.
  Shown: what has to happen one after the other so that no coin is lost, and how coins are lost.
\<close>

section \<open>The statements\<close>

text \<open>Where a thread is: the balance it has read and the coins won it has computed are its locals.\<close>

datatype savepos = SaveIdle | Asking | HasBalance int | HasWin int int | CoinSet int int | BackupSet int int

record purse =
  coin :: int
  backup :: int
  balance :: int
  saver :: "nat \<Rightarrow> savepos"

definition save_stmt :: "nat \<Rightarrow> purse \<Rightarrow> purse" where
  "save_stmt i p = (case saver p i of
       SaveIdle \<Rightarrow> p\<lparr>saver := (saver p)(i := (if coin p = backup p then SaveIdle else Asking))\<rparr>
     | Asking \<Rightarrow> p\<lparr>saver := (saver p)(i := HasBalance (balance p))\<rparr>
     | HasBalance b \<Rightarrow> p\<lparr>saver := (saver p)(i := HasWin b (i32 (coin p - backup p)))\<rparr>
     | HasWin b w \<Rightarrow> p\<lparr>coin := i32 (b + w), saver := (saver p)(i := CoinSet b w)\<rparr>
     | CoinSet b w \<Rightarrow> p\<lparr>backup := coin p, saver := (saver p)(i := BackupSet b w)\<rparr>
     | BackupSet b w \<Rightarrow> p\<lparr>balance := i32 (b + w), saver := (saver p)(i := SaveIdle)\<rparr>)"

text \<open>A shot takes a coin and a hit pays some (\<open>Move\<close>); others change the balance (\<open>Deposit\<close>).\<close>

datatype turn = Saver nat | Move int | Deposit int

fun purse_step :: "turn \<Rightarrow> purse \<Rightarrow> purse" where
  "purse_step (Saver i) p = save_stmt i p"
| "purse_step (Move d) p = p\<lparr>coin := i32 (coin p + d)\<rparr>"
| "purse_step (Deposit x) p = p\<lparr>balance := i32 (balance p + x)\<rparr>"

fun amount :: "turn \<Rightarrow> int" where
  "amount (Saver i) = 0" | "amount (Move d) = d" | "amount (Deposit x) = x"

text \<open>What the player owns: the balance and what is not saved yet.\<close>

definition wealth :: "purse \<Rightarrow> int" where
  "wealth p = i32 (balance p + coin p - backup p)"

definition all_idle :: "purse \<Rightarrow> bool" where
  "all_idle p \<longleftrightarrow> (\<forall>i. saver p i = SaveIdle)"

section \<open>Saves one at a time\<close>

text \<open>
  A calm turn: no two savers at once, no coins moved between computing what was won and setting
  the backup, no deposit between the query and the update.
\<close>

definition may_move :: "savepos \<Rightarrow> bool" where
  "may_move s \<longleftrightarrow> (case s of HasWin _ _ \<Rightarrow> False | CoinSet _ _ \<Rightarrow> False | _ \<Rightarrow> True)"

definition may_deposit :: "savepos \<Rightarrow> bool" where
  "may_deposit s \<longleftrightarrow> s = SaveIdle \<or> s = Asking"

fun calm :: "turn \<Rightarrow> purse \<Rightarrow> bool" where
  "calm (Saver i) p \<longleftrightarrow> (\<forall>j. j \<noteq> i \<longrightarrow> saver p j = SaveIdle)"
| "calm (Move d) p \<longleftrightarrow> (\<forall>i. may_move (saver p i))"
| "calm (Deposit x) p \<longleftrightarrow> (\<forall>i. may_deposit (saver p i))"

fun calm_run :: "turn list \<Rightarrow> purse \<Rightarrow> bool" where
  "calm_run [] p \<longleftrightarrow> True"
| "calm_run (t # ts) p \<longleftrightarrow> calm t p \<and> calm_run ts (purse_step t p)"

text \<open>
  The account \<open>T\<close> is what the player owned at first and all that came since; \<open>i\<close> is the only
  thread that may be saving.
\<close>

definition books_at :: "purse \<Rightarrow> savepos \<Rightarrow> int \<Rightarrow> bool" where
  "books_at p s T \<longleftrightarrow> (case s of
       SaveIdle \<Rightarrow> wealth p = i32 T
     | Asking \<Rightarrow> wealth p = i32 T
     | HasBalance b \<Rightarrow> b = balance p \<and> wealth p = i32 T
     | HasWin b w \<Rightarrow> w = i32 (coin p - backup p) \<and> i32 (b + w) = i32 T
     | CoinSet b w \<Rightarrow> coin p = i32 (b + w) \<and> i32 (b + w) = i32 T
     | BackupSet b w \<Rightarrow> i32 (b + w + (coin p - backup p)) = i32 T)"

definition books :: "purse \<Rightarrow> int \<Rightarrow> bool" where
  "books p T \<longleftrightarrow> (\<exists>i. (\<forall>j. j \<noteq> i \<longrightarrow> saver p j = SaveIdle) \<and> books_at p (saver p i) T)"

lemma books_saver:
  assumes "books p T" "calm (Saver i) p"
  shows "books (save_stmt i p) T"
proof -
  have o: "saver p j = SaveIdle" if "j \<noteq> i" for j using assms(2) that by simp
  have b: "books_at p (saver p i) T"
  proof -
    obtain k where k: "\<forall>j. j \<noteq> k \<longrightarrow> saver p j = SaveIdle" "books_at p (saver p k) T" using assms(1) by (auto simp: books_def)
    show ?thesis using k o [of k] by (cases "k = i") auto
  qed
  have "books_at (save_stmt i p) (saver (save_stmt i p) i) T"
    using b by (cases "saver p i")
      (auto simp: books_at_def save_stmt_def wealth_def i32_inside i32_amid algebra_simps)
  moreover have "saver (save_stmt i p) j = SaveIdle" if "j \<noteq> i" for j
    using o [OF that] that by (simp add: save_stmt_def split: savepos.split)
  ultimately show ?thesis unfolding books_def by blast
qed

lemma i32_shift: "i32 a = i32 T \<Longrightarrow> i32 (a + d) = i32 (T + d)"
  unfolding i32_cong by (rule mod_add_cong) simp_all

lemma books_move:
  assumes "books p T" "calm (Move d) p"
  shows "books (purse_step (Move d) p) (T + d)"
proof -
  obtain k where k: "\<forall>j. j \<noteq> k \<longrightarrow> saver p j = SaveIdle" "books_at p (saver p k) T" using assms(1) by (auto simp: books_def)
  let ?q = "p\<lparr>coin := i32 (coin p + d)\<rparr>"
  have "wealth ?q = i32 (balance p + coin p - backup p + d)"
    using i32_amid(1) [of "balance p" "coin p + d" "backup p"] by (simp add: wealth_def algebra_simps)
  then have w: "wealth ?q = i32 (T + d)" if "wealth p = i32 T" using i32_shift that unfolding wealth_def by metis
  have "i32 (b + w + (i32 (coin p + d) - backup p)) = i32 (b + w + (coin p - backup p) + d)" for b w
    using i32_amid(1) [of "b + w" "coin p + d" "backup p"] by (simp add: algebra_simps)
  then have s: "i32 (b + w + (i32 (coin p + d) - backup p)) = i32 (T + d)" if "i32 (b + w + (coin p - backup p)) = i32 T" for b w
    using i32_shift [OF that] by simp
  have "may_move (saver p k)" using assms(2) by simp
  then have "books_at ?q (saver p k) (T + d)"
    using k(2) w s by (cases "saver p k") (simp_all add: books_at_def may_move_def)
  then show ?thesis using k(1) by (auto simp: books_def)
qed

lemma books_deposit:
  assumes "books p T" "calm (Deposit x) p"
  shows "books (purse_step (Deposit x) p) (T + x)"
proof -
  obtain k where k: "\<forall>j. j \<noteq> k \<longrightarrow> saver p j = SaveIdle" "books_at p (saver p k) T" using assms(1) by (auto simp: books_def)
  let ?q = "p\<lparr>balance := i32 (balance p + x)\<rparr>"
  have "wealth ?q = i32 (balance p + coin p - backup p + x)"
    using i32_inside(1) [of "balance p + x" "coin p - backup p"] by (simp add: wealth_def algebra_simps)
  then have w: "wealth ?q = i32 (T + x)" if "wealth p = i32 T" using i32_shift that unfolding wealth_def by metis
  have "may_deposit (saver p k)" using assms(2) by simp
  then have "books_at ?q (saver p k) (T + x)"
    using k(2) w by (auto simp: books_at_def may_deposit_def)
  then show ?thesis using k(1) by (auto simp: books_def)
qed

lemma books_step: "books p T \<Longrightarrow> calm t p \<Longrightarrow> books (purse_step t p) (T + amount t)"
  using books_saver books_move books_deposit by (cases t) (auto simp del: calm.simps)

lemma books_run: "books p T \<Longrightarrow> calm_run ts p \<Longrightarrow> books (fold purse_step ts p) (T + sum_list (map amount ts))"
proof (induction ts arbitrary: p T)
  case (Cons t ts)
  then show ?case using Cons.IH [of "purse_step t p" "T + amount t"] books_step [of p T t] by (simp add: add.assoc)
qed simp

text \<open>At most one thread is in the section of a calm run, and an idle purse is in its books.\<close>

lemma books_idle: "all_idle p \<Longrightarrow> books p (balance p + coin p - backup p)"
  by (auto simp: books_def all_idle_def books_at_def wealth_def)

lemma books_wealth: "books p T \<Longrightarrow> all_idle p \<Longrightarrow> wealth p = i32 T"
  by (auto simp: books_def all_idle_def books_at_def)

text \<open>A saver that nobody interrupts.\<close>

lemma saver_alone:
  assumes "all_idle p"
  shows "fold purse_step (replicate 6 (Saver i)) p = (if coin p = backup p then p
     else p\<lparr>coin := wealth p, backup := wealth p, balance := wealth p\<rparr>)"
proof -
  obtain c k b where p: "p = \<lparr>coin = c, backup = k, balance = b, saver = (\<lambda>j. SaveIdle)\<rparr>"
    using assms by (cases p) (auto simp: all_idle_def)
  have u: "(\<lambda>j. SaveIdle)(i := SaveIdle) = (\<lambda>j. SaveIdle)" by auto
  have w: "i32 (b + i32 (c - k)) = wealth p" unfolding i32_inside by (simp add: wealth_def p algebra_simps)
  show ?thesis by (cases "c = k") (simp_all add: eval_nat_numeral p save_stmt_def u w [unfolded p])
qed

text \<open>
  So it does what \<open>save_coin\<close> of theory \<open>Users\<close> does to the user, where the balance is the number the
  memory of the freed row reads as.
\<close>

lemma saver_is_save_coin:
  assumes "quiet m" "writes_quietly lib" "user_fits u" "u_coin u \<noteq> u_backup_coin u"
    and "sql_exec lib (balance_sql u) (conn m) = (Rows (r0 # rs), d)" "freed_row lib r0 = Inr (Some bs # r)"
    and "p = \<lparr>coin = u_coin u, backup = u_backup_coin u, balance = atoi bs, saver = (\<lambda>_. SaveIdle)\<rparr>" "p' = fold purse_step (replicate 6 (Saver i)) p"
  shows "\<exists>m'. save_coin lib u m = Inr (u\<lparr>u_coin := coin p', u_backup_coin := backup p'\<rparr>, m') \<and>
    sent m' = sent m @ [balance_sql u, set_balance_sql (balance p') u, coin_log_sql (i32 (u_coin u - u_backup_coin u)) (balance p') u]"
proof -
  have "all_idle p" by (simp add: assms(7) all_idle_def)
  from saver_alone [OF this, of i] have p': "coin p' = wealth p" "backup p' = wealth p" "balance p' = wealth p"
    using assms(4,7,8) by auto
  have "wealth p = i32 (atoi bs + i32 (u_coin u - u_backup_coin u))" unfolding i32_inside by (simp add: wealth_def assms(7) algebra_simps)
  from save_coin_changed [OF assms(1-6) refl this] show ?thesis unfolding p' by blast
qed

text \<open>
  C12: when saves of a user follow one another, no coin is paid or taken between computing the coins
  won and setting the backup, and no one changes the balance between the query and the update, then
  whatever else the threads do in turn, between saves the balance and the coins not saved yet are
  together what the player owned at first and all that came since; the next save of changed coins
  brings exactly that into the data base and the game, so nothing is lost or counted twice.
\<close>

theorem calm_saves_conserve:
  assumes "all_idle p" "calm_run ts p" "q = fold purse_step ts p" "all_idle q"
    and "W = i32 (balance p + coin p - backup p + sum_list (map amount ts))"
  shows "wealth q = W \<and> (coin q \<noteq> backup q \<longrightarrow>
    fold purse_step (replicate 6 (Saver i)) q = q\<lparr>coin := W, backup := W, balance := W\<rparr>)"
proof -
  have "books q (balance p + coin p - backup p + sum_list (map amount ts))"
    unfolding assms(3) by (rule books_run [OF books_idle [OF assms(1)] assms(2)])
  from books_wealth [OF this assms(4)] have "wealth q = W" unfolding assms(5) .
  then show ?thesis using saver_alone [OF assms(4)] by simp
qed

lemma calm_saves_conserve_witness:
  "\<exists>q. wealth q = 127 \<and> fold purse_step (replicate 6 (Saver 1)) q = q\<lparr>coin := 127, backup := 127, balance := 127\<rparr>"
proof -
  let ?p = "\<lparr>coin = 100, backup = 100, balance = 100, saver = (\<lambda>_. SaveIdle)\<rparr>"
  let ?ts = "[Move (- 3), Saver 0, Saver 0, Saver 0, Saver 0, Saver 0, Move 10, Saver 0, Deposit 20]"
  let ?q = "fold purse_step ?ts ?p"
  have i: "(\<lambda>_. SaveIdle)(0 := SaveIdle) = (\<lambda>_ :: nat. SaveIdle)" by auto
  have n: "i32 97 = 97" "i32 (- 3) = - 3" "i32 107 = 107" "i32 117 = 117" "i32 127 = 127" by (simp_all add: i32_def)
  have q: "all_idle ?q" "coin ?q \<noteq> backup ?q" by (simp_all add: all_idle_def save_stmt_def n i)
  have c: "calm_run ?ts ?p" by (simp add: save_stmt_def n may_move_def may_deposit_def)
  have "i32 (balance ?p + coin ?p - backup ?p + sum_list (map amount ?ts)) = 127" by (simp add: n)
  from calm_saves_conserve [OF _ c refl q(1) this [symmetric], of 1] q(2) show ?thesis by (intro exI [of _ ?q]) (simp add: all_idle_def)
qed

section \<open>How coins are lost\<close>

text \<open>
  C13: each of the three conditions is needed. Coins paid between line 264 and 265 are overwritten;
  coins paid between line 265 and 266 go into the backup and never reach the data base; a deposit
  between the query and the update is overwritten; and when a second thread has read the balance
  before the first one's update and computes what was won after the first has set the backup, as
  the threads of line 117 and 126 of \<open>thread.hpp\<close> may, all that was won is lost.
\<close>

theorem save_races_lose:
  assumes "all_idle p" "coin p \<noteq> backup p" "balance p = i32 (balance p)" "i \<noteq> j"
  shows "fold purse_step [Saver i, Saver i, Saver i, Move d, Saver i, Saver i, Saver i] p = p\<lparr>coin := wealth p, backup := wealth p, balance := wealth p\<rparr> \<and>
    fold purse_step [Saver i, Saver i, Saver i, Saver i, Move d, Saver i, Saver i] p =
      p\<lparr>coin := i32 (wealth p + d), backup := i32 (wealth p + d), balance := wealth p\<rparr> \<and>
    fold purse_step [Saver i, Saver i, Deposit d, Saver i, Saver i, Saver i, Saver i] p = p\<lparr>coin := wealth p, backup := wealth p, balance := wealth p\<rparr> \<and>
    fold purse_step [Saver j, Saver j, Saver i, Saver i, Saver i, Saver i, Saver i, Saver j, Saver j, Saver j, Saver i, Saver j] p =
      p\<lparr>coin := balance p, backup := balance p, balance := balance p\<rparr>"
proof -
  obtain c k b where p: "p = \<lparr>coin = c, backup = k, balance = b, saver = (\<lambda>j. SaveIdle)\<rparr>"
    using assms(1) by (cases p) (auto simp: all_idle_def)
  have ck: "c \<noteq> k" and b: "i32 b = b" using assms(2,3) by (simp_all add: p)
  have u: "(\<lambda>j. SaveIdle)(i := SaveIdle) = (\<lambda>j. SaveIdle)" "(\<lambda>j. SaveIdle)(j := SaveIdle) = (\<lambda>j. SaveIdle)" by auto
  have z: "i32 0 = 0" by (simp add: i32_def)
  have w: "i32 (b + i32 (c - k)) = i32 (b + c - k)" unfolding i32_inside by (simp add: algebra_simps)
  show ?thesis
    by (intro conjI) (simp_all add: p wealth_def save_stmt_def u w ck z b fun_upd_twist [of i j] assms(4) assms(4) [symmetric])
qed

text \<open>Thirty coins won on a balance of a hundred: the second thread's save leaves none of them.\<close>

lemma save_races_lose_witness:
  "fold purse_step [Saver 1, Saver 1, Saver 0, Saver 0, Saver 0, Saver 0, Saver 0, Saver 1, Saver 1, Saver 1, Saver 0, Saver 1]
     \<lparr>coin = 130, backup = 100, balance = 100, saver = (\<lambda>_. SaveIdle)\<rparr> = \<lparr>coin = 100, backup = 100, balance = 100, saver = (\<lambda>_. SaveIdle)\<rparr>"
proof -
  let ?p = "\<lparr>coin = 130, backup = 100, balance = 100, saver = (\<lambda>_. SaveIdle)\<rparr>"
  have "all_idle ?p" "coin ?p \<noteq> backup ?p" "balance ?p = i32 (balance ?p)" "(0 :: nat) \<noteq> 1" by (simp_all add: all_idle_def i32_def)
  from save_races_lose [OF this, of 0] show ?thesis by (elim conjE) (simp only: purse.simps)
qed

section \<open>A pointer that outlives the user\<close>

text \<open>
  The saving thread takes a user from a copy of the record (\<open>thread.hpp\<close>, line 112). When the thread
  of a user who leaves has ended before the pointer is used, it points to freed memory.
\<close>

lemma left_user_dangles: "userLeave lib t a w m = Inr (w', m') \<Longrightarrow> user_at w' (Some a) = Inl UseAfterFree"
  by (auto simp: userLeave_def rbind_eq_Inr user_at_def)

end
